(* ===== verification/Prelude.thy ===== *)
theory Prelude
  imports Main "HOL-Library.Word" "HOL-Library.Monad_Syntax"
begin

text \<open>
  Shared vocabulary of the development: the machine integer types of the C sources, the loop
  over a prefix of a fixed-size table, and the generic facts on lists and words that the
  component theories use.

  A computation that can trap (a division by zero, an access outside a table) is a value of
  \<open>'a option\<close>: \<open>None\<close> is the trap, \<open>Some\<close> the result, and the
  \<open>do\<close> notation of the library threads it.
\<close>

type_synonym u8 = "8 word"
type_synonym u16 = "16 word"
type_synonym u32 = "32 word"
type_synonym u64 = "64 word"

named_theorems table_simps
named_theorems row_simps

section \<open>Tables\<close>

text \<open>
  \<open>for (i = 0; i < n; i++) acc = f(table[i], acc);\<close> over a table of fixed length: the
  fold over the first \<open>n\<close> cells, and a trap when the loop would leave the table.
\<close>

definition fold_prefix :: "('a \<Rightarrow> 's \<Rightarrow> 's) \<Rightarrow> nat \<Rightarrow> 'a list \<Rightarrow> 's \<Rightarrow> 's option" where
  "fold_prefix f n xs acc = (if n \<le> length xs then Some (fold f (take n xs) acc) else None)"

text \<open>A read and a write of one cell; both trap outside the table.\<close>

definition cell :: "'a list \<Rightarrow> nat \<Rightarrow> 'a option" where
  "cell xs i = (if i < length xs then Some (xs ! i) else None)"

definition set_cell :: "'a list \<Rightarrow> nat \<Rightarrow> 'a \<Rightarrow> 'a list option" where
  "set_cell xs i x = (if i < length xs then Some (xs[i := x]) else None)"

lemma fold_prefix_some [table_simps]:
  "n \<le> length xs \<Longrightarrow> fold_prefix f n xs acc = Some (fold f (take n xs) acc)"
  by (simp add: fold_prefix_def)

lemma cell_some [table_simps]: "i < length xs \<Longrightarrow> cell xs i = Some (xs ! i)"
  by (simp add: cell_def)

lemma set_cell_some [table_simps]: "i < length xs \<Longrightarrow> set_cell xs i x = Some (xs[i := x])"
  by (simp add: set_cell_def)

lemma cell_eq_Some: "cell xs i = Some x \<longleftrightarrow> i < length xs \<and> x = xs ! i"
  by (auto simp: cell_def)

lemma set_cell_eq_Some: "set_cell xs i x = Some ys \<longleftrightarrow> i < length xs \<and> ys = xs[i := x]"
  by (auto simp: set_cell_def)

lemma fold_prefix_eq_Some:
  "fold_prefix f n xs acc = Some r \<longleftrightarrow> n \<le> length xs \<and> r = fold f (take n xs) acc"
  by (auto simp: fold_prefix_def)

text \<open>A handler run over a sequence of inputs; the first trap ends the run.\<close>

fun run_all :: "('e \<Rightarrow> 's \<Rightarrow> 's option) \<Rightarrow> 'e list \<Rightarrow> 's \<Rightarrow> 's option" where
  "run_all h [] s = Some s"
| "run_all h (e # es) s = (case h e s of None \<Rightarrow> None | Some t \<Rightarrow> run_all h es t)"

section \<open>Counting loops\<close>

text \<open>
  \<open>for (i = a; i < b; i++) body\<close> and \<open>for (i = a; i > b; i--) body\<close>, with the bounds fixed
  during the loop; a trap of the body ends the loop.
\<close>

function for_up :: "(nat \<Rightarrow> 's \<Rightarrow> 's option) \<Rightarrow> nat \<Rightarrow> nat \<Rightarrow> 's \<Rightarrow> 's option" where
  "for_up body i b s =
     (if i < b then case body i s of None \<Rightarrow> None | Some t \<Rightarrow> for_up body (Suc i) b t else Some s)"
  by pat_completeness auto
termination
  by (relation "measure (\<lambda>(body, i, b, s). b - i)") auto

function for_down :: "(nat \<Rightarrow> 's \<Rightarrow> 's option) \<Rightarrow> nat \<Rightarrow> nat \<Rightarrow> 's \<Rightarrow> 's option" where
  "for_down body i b s =
     (if b < i then case body i s of None \<Rightarrow> None | Some t \<Rightarrow> for_down body (i - 1) b t else Some s)"
  by pat_completeness auto
termination
  by (relation "measure (\<lambda>(body, i, b, s). i - b)") auto

declare for_up.simps [simp del] for_down.simps [simp del]

text \<open>The invariant rules: the loops end, do not trap, and keep what their body keeps.\<close>

lemma for_up_inv:
  assumes "a \<le> b" "P a s"
    and "\<And>i s. a \<le> i \<Longrightarrow> i < b \<Longrightarrow> P i s \<Longrightarrow> \<exists>t. body i s = Some t \<and> P (Suc i) t"
  shows "\<exists>t. for_up body a b s = Some t \<and> P b t"
  using assms
proof (induction "b - a" arbitrary: a s)
  case 0
  then show ?case by (simp add: for_up.simps [of body a a s])
next
  case (Suc d)
  then have "a < b" by simp
  with Suc.prems obtain u where u: "body a s = Some u" "P (Suc a) u" by blast
  have "\<exists>t. for_up body (Suc a) b u = Some t \<and> P b t"
    using Suc.hyps Suc.prems(3) u(2) \<open>a < b\<close> by (intro Suc.hyps(1)) auto
  with u \<open>a < b\<close> show ?case by (simp add: for_up.simps [of body a b s])
qed

text \<open>The same with the passes counted from zero.\<close>

lemma for_up_count:
  assumes "P 0 s"
    and "\<And>k s. k < n \<Longrightarrow> P k s \<Longrightarrow> \<exists>t. body (a + k) s = Some t \<and> P (Suc k) t"
  shows "\<exists>t. for_up body a (a + n) s = Some t \<and> P n t"
proof -
  have "\<exists>t. for_up body a (a + n) s = Some t \<and> P (a + n - a) t"
  proof (intro for_up_inv [where P = "\<lambda>i. P (i - a)"])
    fix i s assume i: "a \<le> i" "i < a + n" "P (i - a) s"
    then have "\<exists>t. body (a + (i - a)) s = Some t \<and> P (Suc (i - a)) t" by (intro assms(2)) auto
    then show "\<exists>t. body i s = Some t \<and> P (Suc i - a) t" using i by (simp add: Suc_diff_le)
  qed (use assms(1) in simp_all)
  then show ?thesis by simp
qed

lemma for_down_inv:
  assumes "b \<le> a" "P a s"
    and "\<And>i s. b < i \<Longrightarrow> i \<le> a \<Longrightarrow> P i s \<Longrightarrow> \<exists>t. body i s = Some t \<and> P (i - 1) t"
  shows "\<exists>t. for_down body a b s = Some t \<and> P b t"
  using assms
proof (induction "a - b" arbitrary: a s)
  case 0
  then show ?case by (simp add: for_down.simps [of body b b s])
next
  case (Suc d)
  then have "b < a" by simp
  with Suc.prems obtain u where u: "body a s = Some u" "P (a - 1) u" by blast
  have "\<exists>t. for_down body (a - 1) b u = Some t \<and> P b t"
    using Suc.hyps Suc.prems(3) u(2) \<open>b < a\<close> by (intro Suc.hyps(1)) auto
  with u \<open>b < a\<close> show ?case by (simp add: for_down.simps [of body a b s])
qed

section \<open>Lists\<close>

text \<open>The last \<open>k\<close> elements: what a bounded history keeps.\<close>

definition lastn :: "nat \<Rightarrow> 'a list \<Rightarrow> 'a list" where
  "lastn k xs = drop (length xs - k) xs"

lemma lastn_short [simp]: "length xs \<le> k \<Longrightarrow> lastn k xs = xs"
  by (simp add: lastn_def)

lemma length_lastn [simp]: "length (lastn k xs) = min k (length xs)"
  by (auto simp: lastn_def)

lemma lastn_lastn:
  assumes "j \<le> k"
  shows "lastn j (lastn k xs) = lastn j xs"
proof -
  have "length xs - (length xs - k) - j + (length xs - k) = length xs - j"
    using assms by arith
  then show ?thesis by (simp add: lastn_def)
qed

lemma lastn_append: "lastn k (lastn k xs @ ys) = lastn k (xs @ ys)"
proof (cases "length xs \<le> k")
  case True
  then show ?thesis by simp
next
  case False
  then obtain d where "length xs = k + d" by (metis le_add_diff_inverse nat_le_linear)
  then show ?thesis by (simp add: lastn_def add.commute)
qed

lemma lastn_full_snoc:
  assumes "length xs = k" and "0 < k"
  shows "lastn k (xs @ [x]) = tl xs @ [x]"
  using assms by (cases xs) (auto simp: lastn_def)

lemma take_Suc_update: "n < length xs \<Longrightarrow> take (Suc n) (xs[n := x]) = take n xs @ [x]"
  by (simp add: take_Suc_conv_app_nth)

lemma take_update_ge: "n \<le> i \<Longrightarrow> take n (xs[i := x]) = take n xs"
  by simp

lemma fold_plus_sum_list:
  fixes acc :: "'b::comm_monoid_add"
  shows "fold (\<lambda>x a. a + g x) xs acc = acc + sum_list (map g xs)"
  by (induction xs arbitrary: acc) (simp_all add: ac_simps)

lemma filter_snoc: "filter P (xs @ [x]) = filter P xs @ (if P x then [x] else [])"
  by simp

section \<open>Words\<close>

text \<open>
  A 32-bit unsigned value divided by a \<open>size_t\<close>: C widens to 64 bits, divides and
  truncates the quotient back to 32 bits. The quotient is no larger than the dividend, so
  nothing is lost. The divisor is not zero where this is called; the callers check.
\<close>

definition udiv_size :: "u32 \<Rightarrow> nat \<Rightarrow> u32" where
  "udiv_size x n = word_of_nat (unat x div n)"

lemma unat_udiv_size [simp]: "unat (udiv_size x n) = unat x div n"
proof -
  have "unat x < 2 ^ 32" using unsigned_less [of x] by simp
  then have "unat x div n < 2 ^ 32" by (meson div_le_dividend le_less_trans)
  then show ?thesis by (simp add: udiv_size_def unat_of_nat)
qed

lemma unat_sum_list:
  fixes ws :: "u32 list"
  shows "unat (sum_list ws) = sum_list (map unat ws) mod 2 ^ 32"
  by (induction ws) (simp_all add: unat_word_ariths mod_add_right_eq)

lemma unat_sum_list_small:
  fixes ws :: "u32 list"
  assumes "sum_list (map unat ws) < 2 ^ 32"
  shows "unat (sum_list ws) = sum_list (map unat ws)"
  using assms by (simp add: unat_sum_list)

end
