(* ===== verification/Interfaces.thy ===== *)
theory Interfaces
  imports Prelude
begin

text \<open>
  The contracts between the components of the traffic module. A table that accumulates the
  inputs of a window (\<open>window_table\<close>) and a log that keeps the most recent entries
  (\<open>bounded_log\<close>). The providers are \<open>account_packet\<close> (First_Layer), the row store
  of \<open>dump_first_layer_table\<close> (Second_Layer) and the packet handler as a whole
  (Traffic_Core).
\<close>

section \<open>A table that stands for the inputs it was given\<close>

locale window_table =
  fixes start :: 't
    and add :: "'p \<Rightarrow> 't \<Rightarrow> 't option"
    and stands_for :: "'p list \<Rightarrow> 't \<Rightarrow> bool"
  assumes start_empty: "stands_for [] start"
    and add_one: "stands_for ws t \<Longrightarrow> \<exists>t'. add p t = Some t' \<and> stands_for (ws @ [p]) t'"
begin

lemma add_all: "stands_for ws t \<Longrightarrow> \<exists>t'. run_all add ps t = Some t' \<and> stands_for (ws @ ps) t'"
proof (induction ps arbitrary: ws t)
  case Nil
  then show ?case by simp
next
  case (Cons p ps)
  then obtain u where u: "add p t = Some u" "stands_for (ws @ [p]) u"
    using add_one by blast
  with Cons.IH obtain t' where "run_all add ps u = Some t'" "stands_for ((ws @ [p]) @ ps) t'"
    by blast
  with u show ?case by auto
qed

lemma from_start: "\<exists>t. run_all add ps start = Some t \<and> stands_for ps t"
  using add_all [OF start_empty] by simp

lemma from_start_unique: "run_all add ps start = Some t \<Longrightarrow> stands_for ps t"
  using from_start [of ps] by auto

end

section \<open>A log that keeps its last entries\<close>

locale bounded_log =
  fixes cap :: nat
    and push :: "'e \<Rightarrow> 'l \<Rightarrow> 'l option"
    and contents :: "'l \<Rightarrow> 'e list"
    and wf :: "'l \<Rightarrow> bool"
  assumes cap_pos: "0 < cap"
    and contents_bound: "wf l \<Longrightarrow> length (contents l) \<le> cap"
    and push_one:
      "wf l \<Longrightarrow> \<exists>l'. push x l = Some l' \<and> wf l' \<and> contents l' = lastn cap (contents l @ [x])"
begin

lemma push_all:
  "wf l \<Longrightarrow> \<exists>l'. run_all push xs l = Some l' \<and> wf l' \<and> contents l' = lastn cap (contents l @ xs)"
proof (induction xs arbitrary: l)
  case Nil
  then show ?case using contents_bound by simp
next
  case (Cons x xs)
  then obtain u where u: "push x l = Some u" "wf u" "contents u = lastn cap (contents l @ [x])"
    using push_one by blast
  with Cons.IH obtain l' where
    "run_all push xs u = Some l'" "wf l'" "contents l' = lastn cap (contents u @ xs)"
    by blast
  with u show ?case by (simp add: lastn_append)
qed

lemma push_nonempty: "wf l \<Longrightarrow> push x l = Some l' \<Longrightarrow> contents l' \<noteq> [] \<and> last (contents l') = x"
  using push_one [of l x] cap_pos by (auto simp: lastn_def)

end

end
