(* ===== verification/First_Layer.thy ===== *)
theory First_Layer
  imports Interfaces
begin

text \<open>
  The first layer table of course_work/code/core_module.c: one row of counters per source
  address seen in the current window, at most \<open>FIRST_LAYER_TABLE_LENGTH\<close> rows. The model
  of the table code is \<open>account_packet\<close> (the search loop and the insertion of
  \<open>add_packet_info\<close>); the contract is \<open>represents_window\<close>: the used rows are
  exactly the totals of the packets of the window, for the sources seen first.
\<close>

section \<open>Data\<close>

record first_layer_schema =
  fl_unique_saddr :: u32
  fl_catched_packets_count :: u32
  fl_tot_len :: u32
  fl_catched_tcp :: u32
  fl_catched_syn :: u32

definition FIRST_LAYER_TABLE_LENGTH :: nat where
  "FIRST_LAYER_TABLE_LENGTH = 64"

text \<open>The table is a global array; its size is the constant above throughout.\<close>

record first_layer =
  first_layer_table :: "first_layer_schema list"
  first_layer_table_next_index :: nat

text \<open>Globals start zeroed.\<close>

definition zero_first_row :: first_layer_schema where
  "zero_first_row = \<lparr>fl_unique_saddr = 0, fl_catched_packets_count = 0, fl_tot_len = 0,
     fl_catched_tcp = 0, fl_catched_syn = 0\<rparr>"

definition first_layer_start :: first_layer where
  "first_layer_start = \<lparr>first_layer_table = replicate FIRST_LAYER_TABLE_LENGTH zero_first_row,
     first_layer_table_next_index = 0\<rparr>"

text \<open>The arguments of \<open>add_packet_info\<close>; the two flags are C truth values.\<close>

record packet_info =
  pi_saddr :: u32
  pi_tot_len :: u32
  pi_is_tcp :: u32
  pi_is_syn :: u32

section \<open>Operations\<close>

definition account_row :: "packet_info \<Rightarrow> first_layer_schema \<Rightarrow> first_layer_schema" where
  "account_row p r = r\<lparr>
     fl_catched_packets_count := fl_catched_packets_count r + 1,
     fl_tot_len := fl_tot_len r + pi_tot_len p,
     fl_catched_tcp := (if pi_is_tcp p \<noteq> 0 then fl_catched_tcp r + 1 else fl_catched_tcp r),
     fl_catched_syn := (if pi_is_syn p \<noteq> 0 then fl_catched_syn r + 1 else fl_catched_syn r)\<rparr>"

definition new_row :: "packet_info \<Rightarrow> first_layer_schema" where
  "new_row p = \<lparr>
     fl_unique_saddr = pi_saddr p,
     fl_catched_packets_count = 1,
     fl_tot_len = pi_tot_len p,
     fl_catched_tcp = (if pi_is_tcp p \<noteq> 0 then 1 else 0),
     fl_catched_syn = (if pi_is_syn p \<noteq> 0 then 1 else 0)\<rparr>"

text \<open>The search loop, from index \<open>i\<close>: the flag is \<open>records_found\<close>.\<close>

function account_loop ::
    "packet_info \<Rightarrow> nat \<Rightarrow> nat \<Rightarrow> first_layer_schema list \<Rightarrow> (bool \<times> first_layer_schema list) option" where
  "account_loop p n i t =
     (if i < n then
        (case cell t i of
           None \<Rightarrow> None
         | Some r \<Rightarrow>
             if fl_unique_saddr r = pi_saddr p then Some (True, t[i := account_row p r])
             else account_loop p n (Suc i) t)
      else Some (False, t))"
  by pat_completeness auto
termination
  by (relation "measure (\<lambda>(p, n, i, t). n - i)") auto

declare account_loop.simps [simp del]

definition account_packet :: "packet_info \<Rightarrow> first_layer \<Rightarrow> first_layer option" where
  "account_packet p f =
     (let n = first_layer_table_next_index f in
      case account_loop p n 0 (first_layer_table f) of
        None \<Rightarrow> None
      | Some (records_found, t) \<Rightarrow>
          if \<not> records_found \<and> n < FIRST_LAYER_TABLE_LENGTH then
            map_option (\<lambda>t'. \<lparr>first_layer_table = t', first_layer_table_next_index = Suc n\<rparr>)
              (set_cell t n (new_row p))
          else Some (f\<lparr>first_layer_table := t\<rparr>))"

section \<open>The search loop\<close>

text \<open>The loop stops at the first row of the packet's source, and changes that row only.\<close>

lemma account_loop_hit:
  assumes "n \<le> length t" "i \<le> j" "j < n" "fl_unique_saddr (t ! j) = pi_saddr p"
    and "\<forall>k. i \<le> k \<and> k < j \<longrightarrow> fl_unique_saddr (t ! k) \<noteq> pi_saddr p"
  shows "account_loop p n i t = Some (True, t[j := account_row p (t ! j)])"
  using assms
proof (induction p n i t rule: account_loop.induct)
  case (1 p n i t)
  show ?case
  proof (cases "i = j")
    case True
    with "1.prems" show ?thesis by (simp add: account_loop.simps [of p n j t] cell_some)
  next
    case False
    with "1.prems" have "fl_unique_saddr (t ! i) \<noteq> pi_saddr p" "i < n" "Suc i \<le> j" by auto
    with "1" show ?thesis by (simp add: account_loop.simps [of p n i t] cell_some)
  qed
qed

lemma account_loop_miss:
  assumes "n \<le> length t" "\<forall>k. i \<le> k \<and> k < n \<longrightarrow> fl_unique_saddr (t ! k) \<noteq> pi_saddr p"
  shows "account_loop p n i t = Some (False, t)"
  using assms
proof (induction p n i t rule: account_loop.induct)
  case (1 p n i t)
  show ?case
  proof (cases "i < n")
    case True
    with "1" show ?thesis by (simp add: account_loop.simps [of p n i t] cell_some)
  next
    case False
    then show ?thesis by (simp add: account_loop.simps [of p n i t])
  qed
qed

section \<open>What the table stands for\<close>

text \<open>The values of a list in the order of their first occurrence.\<close>

definition first_seen :: "'a list \<Rightarrow> 'a list" where
  "first_seen xs = rev (remdups (rev xs))"

lemma first_seen_Nil [simp]: "first_seen [] = []"
  by (simp add: first_seen_def)

lemma first_seen_snoc [simp]:
  "first_seen (xs @ [x]) = (if x \<in> set xs then first_seen xs else first_seen xs @ [x])"
  by (simp add: first_seen_def)

lemma set_first_seen [simp]: "set (first_seen xs) = set xs"
  by (simp add: first_seen_def)

lemma distinct_first_seen [simp]: "distinct (first_seen xs)"
  by (simp add: first_seen_def)

lemma first_seen_eq_Nil [simp]: "first_seen xs = [] \<longleftrightarrow> xs = []"
  using set_first_seen [of xs] by (metis set_empty)

text \<open>The sources a window tracks: the first ones to send, as many as there are rows.\<close>

definition tracked :: "packet_info list \<Rightarrow> u32 list" where
  "tracked ws = take FIRST_LAYER_TABLE_LENGTH (first_seen (map pi_saddr ws))"

lemma distinct_tracked [simp]: "distinct (tracked ws)"
  by (simp add: tracked_def)

lemma length_tracked: "length (tracked ws) \<le> FIRST_LAYER_TABLE_LENGTH"
  by (simp add: tracked_def)

lemma tracked_eq_Nil [simp]: "tracked ws = [] \<longleftrightarrow> ws = []"
  by (simp add: tracked_def FIRST_LAYER_TABLE_LENGTH_def)

text \<open>The totals of one source over the packets of a window.\<close>

definition from_source :: "u32 \<Rightarrow> packet_info list \<Rightarrow> packet_info list" where
  "from_source a ws = filter (\<lambda>p. pi_saddr p = a) ws"

definition row_of :: "packet_info list \<Rightarrow> u32 \<Rightarrow> first_layer_schema" where
  "row_of ws a = (let qs = from_source a ws in \<lparr>
     fl_unique_saddr = a,
     fl_catched_packets_count = word_of_nat (length qs),
     fl_tot_len = sum_list (map pi_tot_len qs),
     fl_catched_tcp = word_of_nat (length (filter (\<lambda>p. pi_is_tcp p \<noteq> 0) qs)),
     fl_catched_syn = word_of_nat (length (filter (\<lambda>p. pi_is_syn p \<noteq> 0) qs))\<rparr>)"

lemma row_of_saddr [simp]: "fl_unique_saddr (row_of ws a) = a"
  by (simp add: row_of_def Let_def)

lemma row_of_snoc_same:
  "pi_saddr p = a \<Longrightarrow> row_of (ws @ [p]) a = account_row p (row_of ws a)"
  by (simp add: row_of_def account_row_def from_source_def Let_def ac_simps)

lemma row_of_snoc_other: "pi_saddr p \<noteq> a \<Longrightarrow> row_of (ws @ [p]) a = row_of ws a"
  by (simp add: row_of_def from_source_def Let_def)

lemma row_of_snoc_new:
  "pi_saddr p \<notin> pi_saddr ` set ws \<Longrightarrow> row_of (ws @ [p]) (pi_saddr p) = new_row p"
proof -
  assume "pi_saddr p \<notin> pi_saddr ` set ws"
  then have "from_source (pi_saddr p) ws = []"
    unfolding from_source_def filter_empty_conv by (metis image_eqI)
  then have "from_source (pi_saddr p) (ws @ [p]) = [p]"
    by (simp add: from_source_def)
  then show ?thesis by (simp add: row_of_def new_row_def Let_def)
qed

definition represents_window :: "packet_info list \<Rightarrow> first_layer \<Rightarrow> bool" where
  "represents_window ws f \<longleftrightarrow>
     length (first_layer_table f) = FIRST_LAYER_TABLE_LENGTH \<and>
     first_layer_table_next_index f = length (tracked ws) \<and>
     take (first_layer_table_next_index f) (first_layer_table f) = map (row_of ws) (tracked ws)"

lemma represents_window_nth:
  assumes "represents_window ws f" "k < length (tracked ws)"
  shows "first_layer_table f ! k = row_of ws (tracked ws ! k)"
proof -
  have "first_layer_table f ! k = take (length (tracked ws)) (first_layer_table f) ! k"
    using assms(2) by simp
  also have "\<dots> = map (row_of ws) (tracked ws) ! k"
    using assms(1) unfolding represents_window_def by metis
  finally show ?thesis using assms(2) by simp
qed

lemma represents_start: "represents_window [] first_layer_start"
  by (simp add: represents_window_def first_layer_start_def tracked_def)

lemma represents_reset:
  "length (first_layer_table f) = FIRST_LAYER_TABLE_LENGTH \<Longrightarrow>
   represents_window [] (f\<lparr>first_layer_table_next_index := 0\<rparr>)"
  by (simp add: represents_window_def tracked_def)

section \<open>Accounting one packet\<close>

lemma tracked_snoc_known: "pi_saddr p \<in> set (tracked ws) \<Longrightarrow> tracked (ws @ [p]) = tracked ws"
  using set_take_subset [of FIRST_LAYER_TABLE_LENGTH "first_seen (map pi_saddr ws)"]
  by (auto simp: tracked_def)

lemma tracked_snoc_full:
  "length (tracked ws) = FIRST_LAYER_TABLE_LENGTH \<Longrightarrow> tracked (ws @ [p]) = tracked ws"
  by (auto simp: tracked_def)

lemma tracked_snoc_new:
  assumes "pi_saddr p \<notin> set (tracked ws)" "length (tracked ws) < FIRST_LAYER_TABLE_LENGTH"
  shows "pi_saddr p \<notin> pi_saddr ` set ws" "tracked (ws @ [p]) = tracked ws @ [pi_saddr p]"
proof -
  have all: "tracked ws = first_seen (map pi_saddr ws)"
    using assms(2) by (simp add: tracked_def)
  then show new: "pi_saddr p \<notin> pi_saddr ` set ws" using assms(1) by simp
  have "length (first_seen (map pi_saddr ws)) < FIRST_LAYER_TABLE_LENGTH"
    using assms(2) all by simp
  with new show "tracked (ws @ [p]) = tracked ws @ [pi_saddr p]"
    by (simp add: tracked_def)
qed

lemma account_packet_known:
  assumes R: "represents_window ws f" and known: "pi_saddr p \<in> set (tracked ws)"
  shows "\<exists>f'. account_packet p f = Some f' \<and> represents_window (ws @ [p]) f'"
proof -
  let ?t = "first_layer_table f" and ?n = "first_layer_table_next_index f"
  from known obtain j where j: "j < length (tracked ws)" "tracked ws ! j = pi_saddr p"
    by (auto simp: in_set_conv_nth)
  have n: "?n = length (tracked ws)" "?n \<le> length ?t"
    using R length_tracked by (auto simp: represents_window_def)
  have other: "tracked ws ! k \<noteq> pi_saddr p" if "k < length (tracked ws)" "k \<noteq> j" for k
    using that j distinct_tracked nth_eq_iff_index_eq by metis
  have run: "account_loop p ?n 0 ?t = Some (True, ?t[j := account_row p (?t ! j)])"
    using n j other represents_window_nth [OF R]
    by (intro account_loop_hit) auto
  have rows: "take ?n (?t[j := account_row p (?t ! j)]) = map (row_of (ws @ [p])) (tracked ws)"
  proof (rule nth_equalityI)
    fix k assume "k < length (take ?n (?t[j := account_row p (?t ! j)]))"
    then have k: "k < length (tracked ws)" using n by simp
    with n j represents_window_nth [OF R k] other [OF k]
    show "take ?n (?t[j := account_row p (?t ! j)]) ! k = map (row_of (ws @ [p])) (tracked ws) ! k"
      by (cases "k = j") (simp_all add: row_of_snoc_same row_of_snoc_other)
  qed (use n in simp)
  with run R show ?thesis
    by (simp add: account_packet_def represents_window_def tracked_snoc_known [OF known])
qed

lemma account_packet_unknown:
  assumes R: "represents_window ws f" and unknown: "pi_saddr p \<notin> set (tracked ws)"
  shows "\<exists>f'. account_packet p f = Some f' \<and> represents_window (ws @ [p]) f'"
proof -
  let ?t = "first_layer_table f" and ?n = "first_layer_table_next_index f"
  have n: "?n = length (tracked ws)" "?n \<le> length ?t" "length ?t = FIRST_LAYER_TABLE_LENGTH"
    using R length_tracked by (auto simp: represents_window_def)
  have "fl_unique_saddr (?t ! k) \<noteq> pi_saddr p" if "k < ?n" for k
    using that n unknown represents_window_nth [OF R] by (metis nth_mem row_of_saddr)
  then have run: "account_loop p ?n 0 ?t = Some (False, ?t)"
    using n by (intro account_loop_miss) auto
  have keep: "map (row_of (ws @ [p])) (tracked ws) = map (row_of ws) (tracked ws)"
  proof (rule map_cong [OF refl])
    fix a assume "a \<in> set (tracked ws)"
    with unknown have "pi_saddr p \<noteq> a" by blast
    then show "row_of (ws @ [p]) a = row_of ws a" by (rule row_of_snoc_other)
  qed
  show ?thesis
  proof (cases "?n < FIRST_LAYER_TABLE_LENGTH")
    case True
    with n have room: "length (tracked ws) < FIRST_LAYER_TABLE_LENGTH" by simp
    note new = tracked_snoc_new [OF unknown room]
    from True n run have "account_packet p f =
        Some \<lparr>first_layer_table = ?t[?n := new_row p], first_layer_table_next_index = Suc ?n\<rparr>"
      by (simp add: account_packet_def set_cell_some Let_def)
    moreover have "take (Suc ?n) (?t[?n := new_row p]) = map (row_of (ws @ [p])) (tracked (ws @ [p]))"
      using True n R keep new row_of_snoc_new [OF new(1)]
      by (simp add: take_Suc_update represents_window_def)
    ultimately show ?thesis using n new by (simp add: represents_window_def)
  next
    case False
    with n have full: "length (tracked ws) = FIRST_LAYER_TABLE_LENGTH" by simp
    from False run have "account_packet p f = Some f" by (simp add: account_packet_def)
    moreover have "represents_window (ws @ [p]) f"
      using R unfolding represents_window_def tracked_snoc_full [OF full] keep .
    ultimately show ?thesis by blast
  qed
qed

lemma account_packet_represents:
  "represents_window ws f \<Longrightarrow>
   \<exists>f'. account_packet p f = Some f' \<and> represents_window (ws @ [p]) f'"
  using account_packet_known account_packet_unknown by blast

text \<open>The first layer table is a window table: it stands for the packets accounted so far.\<close>

interpretation first_table: window_table first_layer_start account_packet represents_window
  by unfold_locales (use represents_start account_packet_represents in blast)+

end
