(* ===== verification/Second_Layer.thy ===== *)
theory Second_Layer
  imports Interfaces
begin

text \<open>
  The second layer table of course_work/code/core_module.c: the history of window totals, at
  most \<open>SECOND_LAYER_TABLE_LENGTH\<close> slices, the oldest one dropped when it is full. The
  model covers the shift loop and the row store of \<open>dump_first_layer_table\<close>; the contract
  is that of a bounded log.
\<close>

section \<open>Data\<close>

datatype crit_behaviour_property =
    CRIT_BEHAVIOUR_PROPERTY_UNDEFINED
  | CRIT_BEHAVIOUR_PROPERTY_UNIQUE_SADDRS_COUNT
  | CRIT_BEHAVIOUR_PROPERTY_CATCHED_PACKETS_COUNT
  | CRIT_BEHAVIOUR_PROPERTY_TOT_LEN
  | CRIT_BEHAVIOUR_PROPERTY_AVG_CATCHED_PACKETS
  | CRIT_BEHAVIOUR_PROPERTY_MAX_CATCHED_PACKETS
  | CRIT_BEHAVIOUR_PROPERTY_AVG_LEN
  | CRIT_BEHAVIOUR_PROPERTY_MAX_LEN
  | CRIT_BEHAVIOUR_PROPERTY_TOT_TCP
  | CRIT_BEHAVIOUR_PROPERTY_TOT_SYN

text \<open>The values of the enumerators, and the order they give.\<close>

fun property_value :: "crit_behaviour_property \<Rightarrow> nat" where
  "property_value CRIT_BEHAVIOUR_PROPERTY_UNDEFINED = 0"
| "property_value CRIT_BEHAVIOUR_PROPERTY_UNIQUE_SADDRS_COUNT = 1"
| "property_value CRIT_BEHAVIOUR_PROPERTY_CATCHED_PACKETS_COUNT = 2"
| "property_value CRIT_BEHAVIOUR_PROPERTY_TOT_LEN = 3"
| "property_value CRIT_BEHAVIOUR_PROPERTY_AVG_CATCHED_PACKETS = 4"
| "property_value CRIT_BEHAVIOUR_PROPERTY_MAX_CATCHED_PACKETS = 5"
| "property_value CRIT_BEHAVIOUR_PROPERTY_AVG_LEN = 6"
| "property_value CRIT_BEHAVIOUR_PROPERTY_MAX_LEN = 7"
| "property_value CRIT_BEHAVIOUR_PROPERTY_TOT_TCP = 8"
| "property_value CRIT_BEHAVIOUR_PROPERTY_TOT_SYN = 9"

lemma property_value_bound: "property_value p < 10"
  by (cases p) simp_all

lemma property_value_inj: "property_value p = property_value q \<Longrightarrow> p = q"
  by (cases p; cases q) simp_all

instantiation crit_behaviour_property :: linorder
begin

definition less_eq_crit_behaviour_property :: "crit_behaviour_property \<Rightarrow> crit_behaviour_property \<Rightarrow> bool" where
  "less_eq_crit_behaviour_property p q \<longleftrightarrow> property_value p \<le> property_value q"

definition less_crit_behaviour_property :: "crit_behaviour_property \<Rightarrow> crit_behaviour_property \<Rightarrow> bool" where
  "less_crit_behaviour_property p q \<longleftrightarrow> property_value p < property_value q"

instance
  by standard (auto simp: less_eq_crit_behaviour_property_def less_crit_behaviour_property_def
    intro: property_value_inj)

end

datatype crit_behaviour_type =
    CRIT_BEHAVIOUR_TYPE_UNDEFINED
  | CRIT_BEHAVIOUR_TYPE_INCREASE
  | CRIT_BEHAVIOUR_TYPE_FALL

record second_layer_schema =
  sl_from_time :: u64
  sl_unique_saddr_count :: u32
  sl_catched_packets_count :: u32
  sl_tot_len :: u32
  sl_avg_catched_packets :: u32
  sl_max_catched_packets :: u32
  sl_avg_len :: u32
  sl_max_len :: u32
  sl_crit_behaviour :: int
  sl_property :: crit_behaviour_property
  sl_type :: crit_behaviour_type
  sl_tot_tcp :: u32
  sl_tot_syn :: u32

definition SECOND_LAYER_TABLE_LENGTH :: nat where
  "SECOND_LAYER_TABLE_LENGTH = 512"

record second_layer =
  second_layer_table :: "second_layer_schema list"
  second_layer_table_next_index :: nat
  second_layer_table_read_index :: nat

definition zero_slice :: second_layer_schema where
  "zero_slice = \<lparr>sl_from_time = 0, sl_unique_saddr_count = 0, sl_catched_packets_count = 0,
     sl_tot_len = 0, sl_avg_catched_packets = 0, sl_max_catched_packets = 0, sl_avg_len = 0,
     sl_max_len = 0, sl_crit_behaviour = 0, sl_property = CRIT_BEHAVIOUR_PROPERTY_UNDEFINED,
     sl_type = CRIT_BEHAVIOUR_TYPE_UNDEFINED, sl_tot_tcp = 0, sl_tot_syn = 0\<rparr>"

definition second_layer_start :: second_layer where
  "second_layer_start = \<lparr>
     second_layer_table = replicate SECOND_LAYER_TABLE_LENGTH zero_slice,
     second_layer_table_next_index = 0, second_layer_table_read_index = 0\<rparr>"

section \<open>Operations\<close>

text \<open>\<open>for (; i < LENGTH - 1; i++) table[i] = table[i + 1];\<close>\<close>

function shift_loop :: "nat \<Rightarrow> second_layer_schema list \<Rightarrow> second_layer_schema list option" where
  "shift_loop i t =
     (if i < SECOND_LAYER_TABLE_LENGTH - 1 then
        do { x \<leftarrow> cell t (i + 1); t' \<leftarrow> set_cell t i x; shift_loop (i + 1) t' }
      else Some t)"
  by pat_completeness auto
termination
  by (relation "measure (\<lambda>(i, t). SECOND_LAYER_TABLE_LENGTH - i)") auto

declare shift_loop.simps [simp del]

definition make_room :: "second_layer \<Rightarrow> second_layer option" where
  "make_room s =
     (if second_layer_table_next_index s \<ge> SECOND_LAYER_TABLE_LENGTH then
        do { t \<leftarrow> shift_loop 0 (second_layer_table s);
             Some (s\<lparr>second_layer_table := t,
               second_layer_table_next_index := second_layer_table_next_index s - 1\<rparr>) }
      else Some s)"

text \<open>The stores to the next free row and the increment of the index.\<close>

definition store_slice :: "second_layer_schema \<Rightarrow> second_layer \<Rightarrow> second_layer option" where
  "store_slice r s =
     do { t \<leftarrow> set_cell (second_layer_table s) (second_layer_table_next_index s) r;
          Some (s\<lparr>second_layer_table := t,
            second_layer_table_next_index := second_layer_table_next_index s + 1\<rparr>) }"

section \<open>The shift loop drops the first row\<close>

lemma shift_loop_from:
  assumes "length t = SECOND_LAYER_TABLE_LENGTH" "i < SECOND_LAYER_TABLE_LENGTH"
  shows "shift_loop i t = Some (take i t @ drop (Suc i) t @ [last t])"
  using assms
proof (induction i t rule: shift_loop.induct)
  case (1 i t)
  show ?case
  proof (cases "i < SECOND_LAYER_TABLE_LENGTH - 1")
    case True
    let ?t = "t[i := t ! Suc i]"
    have len: "length ?t = SECOND_LAYER_TABLE_LENGTH" "Suc i < length t" "i < length t"
      using True "1.prems" by auto
    have "t \<noteq> []" using len by auto
    then have last: "last ?t = last t"
      using len by (simp add: last_conv_nth nth_list_update)
    have "take (Suc i) ?t @ drop (Suc (Suc i)) ?t = take i t @ drop (Suc i) t"
      using len by (simp add: take_Suc_update drop_update_cancel Cons_nth_drop_Suc)
    moreover have "shift_loop (Suc i) ?t = Some (take (Suc i) ?t @ drop (Suc (Suc i)) ?t @ [last ?t])"
      using True len "1.IH" [OF True] by (simp add: cell_some set_cell_some)
    ultimately show ?thesis
      using True len last by (simp add: shift_loop.simps [of i t] cell_some set_cell_some)
  next
    case False
    with "1.prems" have "length t = Suc i" by simp
    then have "t = take i t @ [last t]"
      by (metis append_butlast_last_id butlast_conv_take diff_Suc_1 length_greater_0_conv zero_less_Suc)
    with False "1.prems" \<open>length t = Suc i\<close> show ?thesis
      by (simp add: shift_loop.simps [of i t])
  qed
qed

lemma shift_loop_all:
  "length t = SECOND_LAYER_TABLE_LENGTH \<Longrightarrow> shift_loop 0 t = Some (tl t @ [last t])"
  using shift_loop_from [of t 0] by (simp add: SECOND_LAYER_TABLE_LENGTH_def drop_Suc)

section \<open>The history\<close>

definition history :: "second_layer \<Rightarrow> second_layer_schema list" where
  "history s = take (second_layer_table_next_index s) (second_layer_table s)"

definition wf_second :: "second_layer \<Rightarrow> bool" where
  "wf_second s \<longleftrightarrow> length (second_layer_table s) = SECOND_LAYER_TABLE_LENGTH \<and>
     second_layer_table_next_index s \<le> SECOND_LAYER_TABLE_LENGTH"

lemma wf_second_start: "wf_second second_layer_start"
  by (simp add: wf_second_def second_layer_start_def)

lemma history_start: "history second_layer_start = []"
  by (simp add: history_def second_layer_start_def)

lemma length_history: "wf_second s \<Longrightarrow> length (history s) = second_layer_table_next_index s"
  by (simp add: wf_second_def history_def)

lemma history_bound: "wf_second s \<Longrightarrow> length (history s) \<le> SECOND_LAYER_TABLE_LENGTH"
  by (simp add: wf_second_def history_def)

lemma history_nth:
  "wf_second s \<Longrightarrow> i < second_layer_table_next_index s \<Longrightarrow>
   second_layer_table s ! i = history s ! i"
  by (simp add: history_def)

lemma history_cell:
  "wf_second s \<Longrightarrow> i < length (history s) \<Longrightarrow> cell (second_layer_table s) i = Some (history s ! i)"
  by (auto simp: history_def cell_def wf_second_def)

lemma history_ends:
  assumes "wf_second s" "history s \<noteq> []"
  shows "cell (second_layer_table s) 0 = Some (hd (history s))"
    "cell (second_layer_table s) (second_layer_table_next_index s - 1) = Some (last (history s))"
proof -
  have "0 < length (history s)" using assms(2) by simp
  then show "cell (second_layer_table s) 0 = Some (hd (history s))"
    using history_cell [OF assms(1)] assms(2) by (simp add: hd_conv_nth)
  show "cell (second_layer_table s) (second_layer_table_next_index s - 1) = Some (last (history s))"
    using \<open>0 < length (history s)\<close> history_cell [OF assms(1), of "length (history s) - 1"] assms(2)
      length_history [OF assms(1)] by (simp add: last_conv_nth)
qed

lemma make_room_spec:
  assumes "wf_second s"
  shows "\<exists>s'. make_room s = Some s' \<and> wf_second s' \<and>
    history s' = lastn (SECOND_LAYER_TABLE_LENGTH - 1) (history s) \<and>
    second_layer_table_next_index s' < SECOND_LAYER_TABLE_LENGTH \<and>
    second_layer_table_read_index s' = second_layer_table_read_index s"
proof (cases "second_layer_table_next_index s = SECOND_LAYER_TABLE_LENGTH")
  case True
  let ?t = "second_layer_table s"
  have len: "length ?t = SECOND_LAYER_TABLE_LENGTH" "?t \<noteq> []"
    using assms by (auto simp: wf_second_def SECOND_LAYER_TABLE_LENGTH_def)
  have run: "make_room s = Some (s\<lparr>second_layer_table := tl ?t @ [last ?t],
      second_layer_table_next_index := SECOND_LAYER_TABLE_LENGTH - 1\<rparr>)"
    using True len by (simp add: make_room_def shift_loop_all)
  have "lastn (SECOND_LAYER_TABLE_LENGTH - 1) (history s) = tl ?t"
    using True len by (simp add: history_def lastn_def SECOND_LAYER_TABLE_LENGTH_def drop_Suc)
  with run len show ?thesis
    by (simp add: wf_second_def history_def SECOND_LAYER_TABLE_LENGTH_def)
next
  case False
  with assms have "second_layer_table_next_index s \<le> SECOND_LAYER_TABLE_LENGTH - 1"
      "second_layer_table_next_index s < SECOND_LAYER_TABLE_LENGTH"
    by (auto simp: wf_second_def)
  with assms show ?thesis
    by (simp add: make_room_def length_history)
qed

lemma store_slice_spec:
  assumes "wf_second s" "second_layer_table_next_index s < SECOND_LAYER_TABLE_LENGTH"
  shows "\<exists>s'. store_slice r s = Some s' \<and> wf_second s' \<and> history s' = history s @ [r] \<and>
    second_layer_table_read_index s' = second_layer_table_read_index s"
  using assms
  by (auto simp: store_slice_def set_cell_some wf_second_def history_def take_Suc_update)

text \<open>Room first, then the store: a push onto the bounded log.\<close>

definition push_slice :: "second_layer_schema \<Rightarrow> second_layer \<Rightarrow> second_layer option" where
  "push_slice r s = do { s' \<leftarrow> make_room s; store_slice r s' }"

lemma push_slice_spec:
  assumes "wf_second s"
  shows "\<exists>s'. push_slice r s = Some s' \<and> wf_second s' \<and>
    history s' = lastn (SECOND_LAYER_TABLE_LENGTH - 1) (history s) @ [r] \<and>
    second_layer_table_read_index s' = second_layer_table_read_index s"
proof -
  obtain u where u: "make_room s = Some u" "wf_second u"
      "history u = lastn (SECOND_LAYER_TABLE_LENGTH - 1) (history s)"
      "second_layer_table_next_index u < SECOND_LAYER_TABLE_LENGTH"
      "second_layer_table_read_index u = second_layer_table_read_index s"
    using make_room_spec [OF assms] by blast
  with store_slice_spec [OF u(2) u(4), of r] show ?thesis
    by (auto simp: push_slice_def)
qed

lemma lastn_pred_snoc: "0 < k \<Longrightarrow> lastn (k - 1) xs @ [x] = lastn k (xs @ [x])"
  by (cases k) (auto simp: lastn_def)

interpretation slice_log: bounded_log SECOND_LAYER_TABLE_LENGTH push_slice history wf_second
proof unfold_locales
  show "0 < SECOND_LAYER_TABLE_LENGTH" by (simp add: SECOND_LAYER_TABLE_LENGTH_def)
next
  fix l assume "wf_second l"
  then show "length (history l) \<le> SECOND_LAYER_TABLE_LENGTH" by (rule history_bound)
next
  fix l x assume "wf_second l"
  with push_slice_spec [OF this, of x] lastn_pred_snoc [of SECOND_LAYER_TABLE_LENGTH "history l" x]
  show "\<exists>l'. push_slice x l = Some l' \<and> wf_second l' \<and>
      history l' = lastn SECOND_LAYER_TABLE_LENGTH (history l @ [x])"
    by (auto simp: SECOND_LAYER_TABLE_LENGTH_def)
qed

end
