(* ===== verification/Detector.thy ===== *)
theory Detector
  imports Second_Layer
begin

text \<open>
  The detector of course_work/code/core_module.c, \<open>inspect_last\<close>: the newest slice is
  compared, property by property, with 130 percent of the average of the slices before it plus
  a constant, in the 32-bit arithmetic of the code. \<open>classify\<close> is its effect on the history;
  the exact threshold in unbounded arithmetic and the range in which the two agree are stated
  below it.
\<close>

section \<open>The code\<close>

definition initial_vec :: second_layer_schema where
  "initial_vec = zero_slice\<lparr>
     sl_unique_saddr_count := 10,
     sl_catched_packets_count := 100,
     sl_tot_len := 1000000,
     sl_avg_catched_packets := 50,
     sl_max_catched_packets := 50,
     sl_avg_len := 300000,
     sl_max_len := 300000,
     sl_tot_tcp := 100,
     sl_tot_syn := 100\<rparr>"

definition eps_percent :: int where
  "eps_percent = 30"

text \<open>One turn of the summing loop, and the divisions after it.\<close>

definition add_slice :: "second_layer_schema \<Rightarrow> second_layer_schema \<Rightarrow> second_layer_schema" where
  "add_slice r v = v\<lparr>
     sl_unique_saddr_count := sl_unique_saddr_count v + sl_unique_saddr_count r,
     sl_catched_packets_count := sl_catched_packets_count v + sl_catched_packets_count r,
     sl_tot_len := sl_tot_len v + sl_tot_len r,
     sl_avg_catched_packets := sl_avg_catched_packets v + sl_avg_catched_packets r,
     sl_max_catched_packets := sl_max_catched_packets v + sl_max_catched_packets r,
     sl_avg_len := sl_avg_len v + sl_avg_len r,
     sl_max_len := sl_max_len v + sl_max_len r,
     sl_tot_tcp := sl_tot_tcp v + sl_tot_tcp r,
     sl_tot_syn := sl_tot_syn v + sl_tot_syn r\<rparr>"

definition divide_slice :: "nat \<Rightarrow> second_layer_schema \<Rightarrow> second_layer_schema" where
  "divide_slice n v = v\<lparr>
     sl_unique_saddr_count := udiv_size (sl_unique_saddr_count v) n,
     sl_catched_packets_count := udiv_size (sl_catched_packets_count v) n,
     sl_tot_len := udiv_size (sl_tot_len v) n,
     sl_avg_catched_packets := udiv_size (sl_avg_catched_packets v) n,
     sl_max_catched_packets := udiv_size (sl_max_catched_packets v) n,
     sl_avg_len := udiv_size (sl_avg_len v) n,
     sl_max_len := udiv_size (sl_max_len v) n,
     sl_tot_tcp := udiv_size (sl_tot_tcp v) n,
     sl_tot_syn := udiv_size (sl_tot_syn v) n\<rparr>"

text \<open>
  \<open>limit = avg * (100 + eps_percent) / 100 + base; last > limit\<close>: the right-hand side is
  computed in 32 bits (the \<open>int\<close> operands are converted to unsigned) and only then widened to
  the 64-bit \<open>limit\<close>.
\<close>

definition limit32 :: "u32 \<Rightarrow> u32 \<Rightarrow> u32" where
  "limit32 avg base = avg * word_of_int (100 + eps_percent) div 100 + base"

definition exceeds :: "u32 \<Rightarrow> u32 \<Rightarrow> u32 \<Rightarrow> bool" where
  "exceeds x avg base \<longleftrightarrow> (ucast (limit32 avg base) :: u64) < ucast x"

text \<open>The cascade of tests; \<open>None\<close> when the function falls off its end.\<close>

definition inspect_verdict ::
    "second_layer_schema \<Rightarrow> second_layer_schema \<Rightarrow> crit_behaviour_property option" where
  "inspect_verdict lst avg =
    (if exceeds (sl_unique_saddr_count lst) (sl_unique_saddr_count avg)
          (sl_unique_saddr_count initial_vec)
     then Some CRIT_BEHAVIOUR_PROPERTY_UNIQUE_SADDRS_COUNT
     else if exceeds (sl_catched_packets_count lst) (sl_catched_packets_count avg)
          (sl_catched_packets_count initial_vec)
     then Some CRIT_BEHAVIOUR_PROPERTY_CATCHED_PACKETS_COUNT
     else if exceeds (sl_tot_len lst) (sl_tot_len avg) (sl_tot_len initial_vec)
     then Some CRIT_BEHAVIOUR_PROPERTY_TOT_LEN
     else if exceeds (sl_avg_catched_packets lst) (sl_avg_catched_packets avg)
          (sl_avg_catched_packets initial_vec)
     then Some CRIT_BEHAVIOUR_PROPERTY_AVG_CATCHED_PACKETS
     else if exceeds (sl_max_catched_packets lst) (sl_max_catched_packets avg)
          (sl_max_catched_packets initial_vec)
     then Some CRIT_BEHAVIOUR_PROPERTY_MAX_CATCHED_PACKETS
     else if exceeds (sl_avg_len lst) (sl_avg_len avg) (sl_avg_len initial_vec)
     then Some CRIT_BEHAVIOUR_PROPERTY_AVG_LEN
     else if exceeds (sl_max_len lst) (sl_max_len avg) (sl_max_len initial_vec)
     then Some CRIT_BEHAVIOUR_PROPERTY_MAX_LEN
     else if exceeds (sl_tot_tcp lst) (sl_tot_tcp avg) (sl_tot_tcp initial_vec)
     then Some CRIT_BEHAVIOUR_PROPERTY_TOT_TCP
     else if exceeds (sl_tot_syn lst) (sl_tot_syn avg) (sl_tot_syn initial_vec)
     then Some CRIT_BEHAVIOUR_PROPERTY_TOT_SYN
     else None)"

definition mark_crit :: "crit_behaviour_property \<Rightarrow> second_layer_schema \<Rightarrow> second_layer_schema" where
  "mark_crit p r = r\<lparr>sl_crit_behaviour := 1, sl_property := p,
     sl_type := CRIT_BEHAVIOUR_TYPE_INCREASE\<rparr>"

definition inspect_last :: "second_layer \<Rightarrow> second_layer option" where
  "inspect_last s =
     (let n = second_layer_table_next_index s; t = second_layer_table s in
      if n < 2 then Some s
      else do {
        sums \<leftarrow> fold_prefix add_slice (n - 1) t zero_slice;
        lst \<leftarrow> cell t (n - 1);
        (case inspect_verdict lst (divide_slice (n - 1) sums) of
           None \<Rightarrow> Some s
         | Some p \<Rightarrow> do {
             t' \<leftarrow> set_cell t (n - 1) (mark_crit p lst);
             Some (s\<lparr>second_layer_table := t'\<rparr>) }) })"

section \<open>Averages and the effect on the history\<close>

definition average :: "second_layer_schema list \<Rightarrow> second_layer_schema" where
  "average h = divide_slice (length h) (fold add_slice h zero_slice)"

definition classify :: "second_layer_schema list \<Rightarrow> second_layer_schema \<Rightarrow> second_layer_schema" where
  "classify h r =
     (if h = [] then r
      else case inspect_verdict r (average h) of None \<Rightarrow> r | Some p \<Rightarrow> mark_crit p r)"

text \<open>The properties the detector watches, in the order of the tests.\<close>

definition watched :: "(crit_behaviour_property \<times> (second_layer_schema \<Rightarrow> u32)) list" where
  "watched = [
     (CRIT_BEHAVIOUR_PROPERTY_UNIQUE_SADDRS_COUNT, sl_unique_saddr_count),
     (CRIT_BEHAVIOUR_PROPERTY_CATCHED_PACKETS_COUNT, sl_catched_packets_count),
     (CRIT_BEHAVIOUR_PROPERTY_TOT_LEN, sl_tot_len),
     (CRIT_BEHAVIOUR_PROPERTY_AVG_CATCHED_PACKETS, sl_avg_catched_packets),
     (CRIT_BEHAVIOUR_PROPERTY_MAX_CATCHED_PACKETS, sl_max_catched_packets),
     (CRIT_BEHAVIOUR_PROPERTY_AVG_LEN, sl_avg_len),
     (CRIT_BEHAVIOUR_PROPERTY_MAX_LEN, sl_max_len),
     (CRIT_BEHAVIOUR_PROPERTY_TOT_TCP, sl_tot_tcp),
     (CRIT_BEHAVIOUR_PROPERTY_TOT_SYN, sl_tot_syn)]"

lemma inspect_verdict_find:
  "inspect_verdict r avg =
     map_option fst (find (\<lambda>(p, g). exceeds (g r) (g avg) (g initial_vec)) watched)"
  by (simp add: inspect_verdict_def watched_def)

text \<open>The tests go in the order of the enumeration, so the first that succeeds is the least.\<close>

lemma watched_sorted: "sorted_wrt (<) (map fst watched)"
  by (simp add: watched_def less_crit_behaviour_property_def)

lemma find_first_least:
  assumes "sorted_wrt (<) (map fst xs)" "find P xs = Some x" "y \<in> set xs" "P y"
  shows "fst x \<le> (fst y :: 'k::linorder)"
  using assms
proof (induction xs)
  case (Cons z xs)
  then show ?case by (cases "P z") (auto simp: less_imp_le)
qed simp

lemma fold_add_slice:
  "(p, g) \<in> set watched \<Longrightarrow> g (fold add_slice h v) = g v + sum_list (map g h)"
  by (induction h arbitrary: v) (auto simp: watched_def add_slice_def ac_simps)

lemma divide_slice_watched:
  "(p, g) \<in> set watched \<Longrightarrow> g (divide_slice n v) = udiv_size (g v) n"
  by (auto simp: watched_def divide_slice_def)

lemma average_watched:
  "(p, g) \<in> set watched \<Longrightarrow> g (average h) = udiv_size (sum_list (map g h)) (length h)"
  by (auto simp: average_def divide_slice_watched fold_add_slice)
    (auto simp: watched_def zero_slice_def)

lemma inspect_last_spec:
  assumes wf: "wf_second s" and h: "history s = h @ [r]"
  shows "\<exists>s'. inspect_last s = Some s' \<and> wf_second s' \<and> history s' = h @ [classify h r] \<and>
    second_layer_table_read_index s' = second_layer_table_read_index s"
proof -
  let ?n = "second_layer_table_next_index s" and ?t = "second_layer_table s"
  have n: "?n = Suc (length h)" "?n \<le> length ?t"
    using length_history [OF wf] h wf by (auto simp: wf_second_def)
  have last: "?t ! length h = r"
    using history_nth [OF wf, of "length h"] n h by simp
  have "take (length h) (history s) = h" using h by simp
  then have pre: "take (length h) ?t = h" using n by (simp add: history_def)
  show ?thesis
  proof (cases "h = []")
    case True
    with n h wf show ?thesis by (simp add: inspect_last_def classify_def)
  next
    case False
    then have "inspect_last s = (case inspect_verdict r (average h) of
           None \<Rightarrow> Some s
         | Some p \<Rightarrow> Some (s\<lparr>second_layer_table := ?t[length h := mark_crit p r]\<rparr>))"
      using n last pre
      by (simp add: inspect_last_def Let_def fold_prefix_some cell_some set_cell_some average_def
          split: option.split)
    moreover have "take ?n (?t[length h := x]) = h @ [x]" for x
      using n pre by (simp add: take_Suc_update)
    ultimately show ?thesis
      using False wf h n
      by (cases "inspect_verdict r (average h)") (auto simp: classify_def wf_second_def history_def)
  qed
qed

section \<open>Exact thresholds\<close>

definition mean :: "(second_layer_schema \<Rightarrow> u32) \<Rightarrow> second_layer_schema list \<Rightarrow> nat" where
  "mean g h = sum_list (map (\<lambda>r. unat (g r)) h) div length h"

definition exact_limit :: "(second_layer_schema \<Rightarrow> u32) \<Rightarrow> second_layer_schema list \<Rightarrow> nat" where
  "exact_limit g h = mean g h * 130 div 100 + unat (g initial_vec)"

text \<open>No 32-bit operation of the sum, the product or the limit wraps.\<close>

definition in_range :: "(second_layer_schema \<Rightarrow> u32) \<Rightarrow> second_layer_schema list \<Rightarrow> bool" where
  "in_range g h \<longleftrightarrow> sum_list (map (\<lambda>r. unat (g r)) h) < 2 ^ 32 \<and> mean g h * 130 < 2 ^ 32 \<and>
     exact_limit g h < 2 ^ 32"

lemma exceeds_iff: "exceeds x avg base \<longleftrightarrow> unat (limit32 avg base) < unat x"
proof -
  have "unat (ucast w :: u64) = unat w" for w :: u32
  proof -
    have "unat w < 2 ^ 32" using unsigned_less [of w] by simp
    then have "unat w < 2 ^ 64" by simp
    then show ?thesis by (simp add: unsigned_ucast_eq take_bit_nat_eq_self)
  qed
  then show ?thesis by (simp add: exceeds_def word_less_nat_alt)
qed

lemma unat_limit32:
  assumes "unat avg * 130 < 2 ^ 32" "unat avg * 130 div 100 + unat base < 2 ^ 32"
  shows "unat (limit32 avg base) = unat avg * 130 div 100 + unat base"
  using assms by (simp add: limit32_def eps_percent_def unat_word_ariths unat_div)

lemma exceeds_exact:
  assumes "in_range g h"
  shows "exceeds (g r) (udiv_size (sum_list (map g h)) (length h)) (g initial_vec)
    \<longleftrightarrow> exact_limit g h < unat (g r)"
proof -
  have "unat (udiv_size (sum_list (map g h)) (length h)) = mean g h"
    using assms by (simp add: in_range_def mean_def unat_sum_list_small comp_def)
  with assms show ?thesis
    by (simp add: exceeds_iff exact_limit_def in_range_def unat_limit32)
qed

lemma verdict_exact:
  assumes "\<And>p g. (p, g) \<in> set watched \<Longrightarrow> in_range g h"
  shows "inspect_verdict r (average h) =
    map_option fst (find (\<lambda>(p, g). exact_limit g h < unat (g r)) watched)"
proof -
  have "find (\<lambda>(p, g). exceeds (g r) (g (average h)) (g initial_vec)) watched =
      find (\<lambda>(p, g). exact_limit g h < unat (g r)) watched"
    by (rule find_cong) (use assms average_watched exceeds_exact in fastforce)+
  then show ?thesis by (simp add: inspect_verdict_find)
qed

lemma classify_crit:
  "sl_crit_behaviour r = 0 \<Longrightarrow>
   sl_crit_behaviour (classify h r) = (if h \<noteq> [] \<and> inspect_verdict r (average h) \<noteq> None then 1 else 0)"
  by (auto simp: classify_def mark_crit_def split: option.split)

text \<open>Only the mark changes: every counter of the slice is kept.\<close>

lemma classify_counters [row_simps]:
  "sl_from_time (classify h r) = sl_from_time r"
  "sl_unique_saddr_count (classify h r) = sl_unique_saddr_count r"
  "sl_catched_packets_count (classify h r) = sl_catched_packets_count r"
  "sl_tot_len (classify h r) = sl_tot_len r"
  "sl_avg_catched_packets (classify h r) = sl_avg_catched_packets r"
  "sl_max_catched_packets (classify h r) = sl_max_catched_packets r"
  "sl_avg_len (classify h r) = sl_avg_len r"
  "sl_max_len (classify h r) = sl_max_len r"
  "sl_tot_tcp (classify h r) = sl_tot_tcp r"
  "sl_tot_syn (classify h r) = sl_tot_syn r"
  by (simp_all add: classify_def mark_crit_def split: option.split)

end
