(* ===== verification/Traffic_Core.thy ===== *)
theory Traffic_Core
  imports First_Layer Detector
begin

text \<open>
  The packet path of course_work/code/core_module.c: the netfilter hook \<open>catch_traffic\<close>,
  \<open>add_packet_info\<close> with its rotation of the window, and \<open>dump_first_layer_table\<close>. The
  readings of the kernel clock and the packet are arguments. The specification keeps the packets
  of the window and the log of classified slices; the code refines it, and never traps.
\<close>

section \<open>State and inputs\<close>

record core =
  first_tab :: first_layer
  second_tab :: second_layer
  from_time :: u64

definition core_start :: core where
  "core_start = \<lparr>first_tab = first_layer_start, second_tab = second_layer_start, from_time = 0\<rparr>"

definition dump_ns_periud :: u64 where
  "dump_ns_periud = 10000000000"

text \<open>
  The clock readings of one call of \<open>add_packet_info\<close>, in the order the code takes them:
  \<open>ktime_get_ns\<close> in the test, \<open>ktime_get_seconds\<close> in the dump, \<open>ktime_get_ns\<close> in the
  assignment to \<open>from_time\<close>.
\<close>

record clock =
  ck_ns_test :: u64
  ck_seconds :: u64
  ck_ns_reset :: u64

section \<open>The dump of the first layer\<close>

record layer_totals =
  lt_catched_packets_count :: u32
  lt_tot_len :: u32
  lt_max_catched_packets :: u32
  lt_max_len :: u32
  lt_tot_tcp :: u32
  lt_tot_syn :: u32

definition zero_totals :: layer_totals where
  "zero_totals = \<lparr>lt_catched_packets_count = 0, lt_tot_len = 0, lt_max_catched_packets = 0,
     lt_max_len = 0, lt_tot_tcp = 0, lt_tot_syn = 0\<rparr>"

definition add_first_row :: "first_layer_schema \<Rightarrow> layer_totals \<Rightarrow> layer_totals" where
  "add_first_row r v = v\<lparr>
     lt_catched_packets_count := lt_catched_packets_count v + fl_catched_packets_count r,
     lt_tot_len := lt_tot_len v + fl_tot_len r,
     lt_max_catched_packets :=
       (if lt_max_catched_packets v < fl_catched_packets_count r then fl_catched_packets_count r
        else lt_max_catched_packets v),
     lt_max_len := (if lt_max_len v < fl_tot_len r then fl_tot_len r else lt_max_len v),
     lt_tot_tcp := lt_tot_tcp v + fl_catched_tcp r,
     lt_tot_syn := lt_tot_syn v + fl_catched_syn r\<rparr>"

text \<open>The row stored for a window of \<open>n\<close> sources.\<close>

definition slice_row :: "u64 \<Rightarrow> nat \<Rightarrow> layer_totals \<Rightarrow> second_layer_schema" where
  "slice_row secs n v = \<lparr>
     sl_from_time = secs,
     sl_unique_saddr_count = word_of_nat n,
     sl_catched_packets_count = lt_catched_packets_count v,
     sl_tot_len = lt_tot_len v,
     sl_avg_catched_packets = udiv_size (lt_catched_packets_count v) n,
     sl_max_catched_packets = lt_max_catched_packets v,
     sl_avg_len = udiv_size (lt_tot_len v) n,
     sl_max_len = lt_max_len v,
     sl_crit_behaviour = 0,
     sl_property = CRIT_BEHAVIOUR_PROPERTY_UNDEFINED,
     sl_type = CRIT_BEHAVIOUR_TYPE_UNDEFINED,
     sl_tot_tcp = lt_tot_tcp v,
     sl_tot_syn = lt_tot_syn v\<rparr>"

text \<open>The divisions by the number of rows trap when there is none.\<close>

definition dump_first_layer_table :: "u64 \<Rightarrow> core \<Rightarrow> core option" where
  "dump_first_layer_table secs s =
     do {
       sec \<leftarrow> make_room (second_tab s);
       if second_layer_table_next_index sec < SECOND_LAYER_TABLE_LENGTH then
         do {
           let n = first_layer_table_next_index (first_tab s);
           v \<leftarrow> fold_prefix add_first_row n (first_layer_table (first_tab s)) zero_totals;
           (if n = 0 then None
            else do {
              sec' \<leftarrow> store_slice (slice_row secs n v) sec;
              sec'' \<leftarrow> inspect_last sec';
              Some (s\<lparr>first_tab := (first_tab s)\<lparr>first_layer_table_next_index := 0\<rparr>,
                second_tab := sec''\<rparr>) })
         }
       else Some (s\<lparr>second_tab := sec\<rparr>)
     }"

section \<open>The packet handler\<close>

definition rotate_window :: "clock \<Rightarrow> core \<Rightarrow> core option" where
  "rotate_window c s =
     (if ck_ns_test c - from_time s > dump_ns_periud then
        do {
          s' \<leftarrow> (if from_time s \<noteq> 0 then dump_first_layer_table (ck_seconds c) s else Some s);
          Some (s'\<lparr>from_time := ck_ns_reset c\<rparr>)
        }
      else Some s)"

definition add_packet_info :: "clock \<Rightarrow> packet_info \<Rightarrow> core \<Rightarrow> core option" where
  "add_packet_info c p s =
     do {
       s' \<leftarrow> rotate_window c s;
       f \<leftarrow> account_packet p (first_tab s');
       Some (s'\<lparr>first_tab := f\<rparr>)
     }"

text \<open>
  The packet as the hook sees it. The header pointers are the kernel's; \<open>None\<close> is NULL. The
  length is the 16-bit field as loaded, in network byte order: the code converts it no further.
\<close>

record iphdr =
  ip_saddr :: u32
  ip_tot_len :: u16
  ip_protocol :: u8

record sk_buff =
  skb_network_header :: "iphdr option"
  skb_transport_syn :: bool

definition NF_ACCEPT :: nat where
  "NF_ACCEPT = 1"

definition IPPROTO_TCP :: u8 where
  "IPPROTO_TCP = 6"

definition packet_of :: "iphdr \<Rightarrow> bool \<Rightarrow> packet_info" where
  "packet_of iph syn =
     (let tcp = ip_protocol iph = IPPROTO_TCP in \<lparr>
       pi_saddr = ip_saddr iph,
       pi_tot_len = ucast (ip_tot_len iph),
       pi_is_tcp = (if tcp then 1 else 0),
       pi_is_syn = (if tcp \<and> syn then 1 else 0)\<rparr>)"

definition catch_traffic :: "clock \<Rightarrow> sk_buff option \<Rightarrow> core \<Rightarrow> (nat \<times> core) option" where
  "catch_traffic c skb s =
     (case skb of
        None \<Rightarrow> Some (NF_ACCEPT, s)
      | Some b \<Rightarrow>
          (case skb_network_header b of
             None \<Rightarrow> Some (NF_ACCEPT, s)
           | Some iph \<Rightarrow>
               do {
                 s' \<leftarrow> add_packet_info c (packet_of iph (skb_transport_syn b)) s;
                 Some (NF_ACCEPT, s')
               }))"

section \<open>The totals of a window, packet by packet\<close>

definition window_totals :: "packet_info list \<Rightarrow> layer_totals" where
  "window_totals ws = fold add_first_row (map (row_of ws) (tracked ws)) zero_totals"

text \<open>The packets whose source has a row.\<close>

definition counted :: "packet_info list \<Rightarrow> packet_info list" where
  "counted ws = filter (\<lambda>p. pi_saddr p \<in> set (tracked ws)) ws"

lemma fold_add_first_row:
  "lt_catched_packets_count (fold add_first_row rs v) =
     lt_catched_packets_count v + sum_list (map fl_catched_packets_count rs)"
  "lt_tot_len (fold add_first_row rs v) = lt_tot_len v + sum_list (map fl_tot_len rs)"
  "lt_tot_tcp (fold add_first_row rs v) = lt_tot_tcp v + sum_list (map fl_catched_tcp rs)"
  "lt_tot_syn (fold add_first_row rs v) = lt_tot_syn v + sum_list (map fl_catched_syn rs)"
  "lt_max_catched_packets (fold add_first_row rs v) =
     fold max (map fl_catched_packets_count rs) (lt_max_catched_packets v)"
  "lt_max_len (fold add_first_row rs v) = fold max (map fl_tot_len rs) (lt_max_len v)"
  by (induction rs arbitrary: v) (auto simp: add_first_row_def ac_simps max_def not_less)

lemma sum_list_indicator:
  "distinct as \<Longrightarrow>
   sum_list (map (\<lambda>a. if b = a then x else (0::'m::comm_monoid_add)) as) = (if b \<in> set as then x else 0)"
  by (induction as) auto

lemma sum_list_by_source:
  fixes g :: "packet_info \<Rightarrow> 'm::comm_monoid_add"
  assumes "distinct as"
  shows "sum_list (map (\<lambda>a. sum_list (map g (from_source a ws))) as) =
    sum_list (map g (filter (\<lambda>p. pi_saddr p \<in> set as) ws))"
proof (induction ws)
  case Nil
  then show ?case by (simp add: from_source_def)
next
  case (Cons p ws)
  have "sum_list (map g (from_source a (p # ws))) =
      (if pi_saddr p = a then g p else 0) + sum_list (map g (from_source a ws))" for a
    by (simp add: from_source_def)
  then show ?case
    using Cons by (simp add: sum_list_addf sum_list_indicator [OF assms])
qed

lemma length_as_sum:
  "word_of_nat (length (filter P qs)) = sum_list (map (\<lambda>p. if P p then 1 else (0::u32)) qs)"
  by (induction qs) (simp_all add: ac_simps)

lemma length_as_ones: "word_of_nat (length qs) = sum_list (map (\<lambda>_. 1::u32) qs)"
  by (induction qs) (simp_all add: ac_simps)

lemma sum_tracked:
  fixes g :: "packet_info \<Rightarrow> 'm::comm_monoid_add"
  shows "sum_list (map (\<lambda>a. sum_list (map g (from_source a ws))) (tracked ws)) =
    sum_list (map g (counted ws))"
  unfolding counted_def by (rule sum_list_by_source) simp

lemma window_totals_counts:
  "lt_catched_packets_count (window_totals ws) = word_of_nat (length (counted ws))"
  "lt_tot_len (window_totals ws) = sum_list (map pi_tot_len (counted ws))"
  "lt_tot_tcp (window_totals ws) = word_of_nat (length (filter (\<lambda>p. pi_is_tcp p \<noteq> 0) (counted ws)))"
  "lt_tot_syn (window_totals ws) = word_of_nat (length (filter (\<lambda>p. pi_is_syn p \<noteq> 0) (counted ws)))"
proof -
  note defs = window_totals_def fold_add_first_row zero_totals_def row_of_def Let_def comp_def
  show "lt_catched_packets_count (window_totals ws) = word_of_nat (length (counted ws))"
    by (simp only: length_as_ones sum_tracked [symmetric]) (simp add: defs length_as_ones)
  show "lt_tot_len (window_totals ws) = sum_list (map pi_tot_len (counted ws))"
    by (simp add: defs sum_tracked)
  show "lt_tot_tcp (window_totals ws) = word_of_nat (length (filter (\<lambda>p. pi_is_tcp p \<noteq> 0) (counted ws)))"
    by (simp add: defs length_as_sum sum_tracked)
  show "lt_tot_syn (window_totals ws) = word_of_nat (length (filter (\<lambda>p. pi_is_syn p \<noteq> 0) (counted ws)))"
    by (simp add: defs length_as_sum sum_tracked)
qed

lemma fold_max_ge: "(x::u32) \<le> fold max xs x" "y \<in> set xs \<Longrightarrow> y \<le> fold max xs x"
proof -
  show ge: "x \<le> fold max xs x" for x :: u32 and xs
    by (induction xs arbitrary: x) (auto intro: order.trans [OF max.cobounded2])
  show "y \<in> set xs \<Longrightarrow> y \<le> fold max xs x"
    by (induction xs arbitrary: x) (auto intro: order.trans [OF max.cobounded1 ge])
qed

lemma fold_max_in: "fold max xs (x::u32) \<in> insert x (set xs)"
  by (induction xs arbitrary: x) (auto simp: max_def split: if_splits)

text \<open>The maxima are over the tracked sources.\<close>

definition source_count :: "packet_info list \<Rightarrow> u32 \<Rightarrow> u32" where
  "source_count ws a = word_of_nat (length (from_source a ws))"

definition source_len :: "packet_info list \<Rightarrow> u32 \<Rightarrow> u32" where
  "source_len ws a = sum_list (map pi_tot_len (from_source a ws))"

lemma window_totals_max:
  "lt_max_catched_packets (window_totals ws) = fold max (map (source_count ws) (tracked ws)) 0"
  "lt_max_len (window_totals ws) = fold max (map (source_len ws) (tracked ws)) 0"
  by (simp_all add: window_totals_def fold_add_first_row zero_totals_def row_of_def Let_def
      comp_def source_count_def [abs_def] source_len_def [abs_def])

lemma window_max_bounds:
  "a \<in> set (tracked ws) \<Longrightarrow> source_count ws a \<le> lt_max_catched_packets (window_totals ws)"
  "a \<in> set (tracked ws) \<Longrightarrow> source_len ws a \<le> lt_max_len (window_totals ws)"
  unfolding window_totals_max by (rule fold_max_ge, simp)+

section \<open>The specification\<close>

record spec_state =
  sp_window :: "packet_info list"
  sp_since :: u64
  sp_log :: "second_layer_schema list"

definition spec_start :: spec_state where
  "spec_start = \<lparr>sp_window = [], sp_since = 0, sp_log = []\<rparr>"

definition slice_of :: "u64 \<Rightarrow> packet_info list \<Rightarrow> second_layer_schema" where
  "slice_of secs ws = slice_row secs (length (tracked ws)) (window_totals ws)"

text \<open>
  The log of the specification is never cut: a new slice is classified against the slices that
  the bounded history still holds, and appended.
\<close>

definition log_slice :: "second_layer_schema \<Rightarrow> second_layer_schema list \<Rightarrow> second_layer_schema list" where
  "log_slice r l = l @ [classify (lastn (SECOND_LAYER_TABLE_LENGTH - 1) l) r]"

definition spec_rotate :: "clock \<Rightarrow> spec_state \<Rightarrow> spec_state" where
  "spec_rotate c a =
     (if ck_ns_test c - sp_since a > dump_ns_periud then
        (if sp_since a \<noteq> 0 then
           \<lparr>sp_window = [], sp_since = ck_ns_reset c,
            sp_log = log_slice (slice_of (ck_seconds c) (sp_window a)) (sp_log a)\<rparr>
         else a\<lparr>sp_since := ck_ns_reset c\<rparr>)
      else a)"

definition spec_step :: "clock \<Rightarrow> packet_info \<Rightarrow> spec_state \<Rightarrow> spec_state" where
  "spec_step c p a = (let b = spec_rotate c a in b\<lparr>sp_window := sp_window b @ [p]\<rparr>)"

definition refines :: "spec_state \<Rightarrow> core \<Rightarrow> bool" where
  "refines a s \<longleftrightarrow> represents_window (sp_window a) (first_tab s) \<and> wf_second (second_tab s) \<and>
     history (second_tab s) = lastn SECOND_LAYER_TABLE_LENGTH (sp_log a) \<and>
     from_time s = sp_since a \<and>
     (sp_since a \<noteq> 0 \<longrightarrow> sp_window a \<noteq> [])"

lemma refines_start: "refines spec_start core_start"
  by (simp add: refines_def spec_start_def core_start_def represents_start wf_second_start history_start)

lemma represents_totals:
  "represents_window ws f \<Longrightarrow>
   fold_prefix add_first_row (first_layer_table_next_index f) (first_layer_table f) zero_totals =
     Some (window_totals ws)"
  unfolding represents_window_def window_totals_def
  by (metis fold_prefix_some length_tracked)

lemma dump_spec:
  assumes "represents_window ws (first_tab s)" "ws \<noteq> []" "wf_second (second_tab s)"
  shows "\<exists>s'. dump_first_layer_table secs s = Some s' \<and> represents_window [] (first_tab s') \<and>
    wf_second (second_tab s') \<and>
    (history (second_tab s) = lastn SECOND_LAYER_TABLE_LENGTH l \<longrightarrow>
      history (second_tab s') = lastn SECOND_LAYER_TABLE_LENGTH (log_slice (slice_of secs ws) l)) \<and>
    history (second_tab s') = lastn (SECOND_LAYER_TABLE_LENGTH - 1) (history (second_tab s)) @
      [classify (lastn (SECOND_LAYER_TABLE_LENGTH - 1) (history (second_tab s))) (slice_of secs ws)] \<and>
    second_layer_table_read_index (second_tab s') = second_layer_table_read_index (second_tab s) \<and>
    from_time s' = from_time s"
proof -
  let ?f = "first_tab s" and ?r = "slice_of secs ws"
  let ?h = "lastn (SECOND_LAYER_TABLE_LENGTH - 1) (history (second_tab s))"
  have n: "first_layer_table_next_index ?f = length (tracked ws)" "length (tracked ws) \<noteq> 0"
      "length (first_layer_table ?f) = FIRST_LAYER_TABLE_LENGTH"
    using assms by (auto simp: represents_window_def)
  obtain u where u: "make_room (second_tab s) = Some u" "wf_second u" "history u = ?h"
      "second_layer_table_next_index u < SECOND_LAYER_TABLE_LENGTH"
      "second_layer_table_read_index u = second_layer_table_read_index (second_tab s)"
    using make_room_spec [OF assms(3)] by blast
  obtain v where v: "store_slice ?r u = Some v" "wf_second v" "history v = ?h @ [?r]"
      "second_layer_table_read_index v = second_layer_table_read_index u"
    using store_slice_spec [OF u(2) u(4), of ?r] u(3) by auto
  obtain w where w: "inspect_last v = Some w" "wf_second w" "history w = ?h @ [classify ?h ?r]"
      "second_layer_table_read_index w = second_layer_table_read_index v"
    using inspect_last_spec [OF v(2) v(3)] by blast
  have "dump_first_layer_table secs s =
      Some (s\<lparr>first_tab := ?f\<lparr>first_layer_table_next_index := 0\<rparr>, second_tab := w\<rparr>)"
    using u v w n represents_totals [OF assms(1)]
    by (simp add: dump_first_layer_table_def slice_of_def)
  with u v w n show ?thesis
    by (auto simp add: represents_reset log_slice_def lastn_lastn lastn_pred_snoc [symmetric]
        SECOND_LAYER_TABLE_LENGTH_def)
qed

lemma rotate_spec:
  assumes "refines a s"
  shows "\<exists>s'. rotate_window c s = Some s' \<and>
    represents_window (sp_window (spec_rotate c a)) (first_tab s') \<and> wf_second (second_tab s') \<and>
    history (second_tab s') = lastn SECOND_LAYER_TABLE_LENGTH (sp_log (spec_rotate c a)) \<and>
    from_time s' = sp_since (spec_rotate c a) \<and>
    second_layer_table_read_index (second_tab s') = second_layer_table_read_index (second_tab s)"
proof (cases "ck_ns_test c - sp_since a > dump_ns_periud \<and> sp_since a \<noteq> 0")
  case True
  with assms have "sp_window a \<noteq> []" "represents_window (sp_window a) (first_tab s)"
      "wf_second (second_tab s)"
    by (auto simp: refines_def)
  from dump_spec [OF this(2) this(1) this(3), of "ck_seconds c" "sp_log a"] True assms show ?thesis
    by (auto simp: refines_def rotate_window_def spec_rotate_def)
next
  case False
  with assms show ?thesis
    by (auto simp: refines_def rotate_window_def spec_rotate_def)
qed

lemma add_packet_info_refines:
  assumes "refines a s"
  shows "\<exists>s'. add_packet_info c p s = Some s' \<and> refines (spec_step c p a) s' \<and>
    second_layer_table_read_index (second_tab s') = second_layer_table_read_index (second_tab s)"
proof -
  let ?b = "spec_rotate c a"
  obtain u where u: "rotate_window c s = Some u"
      "represents_window (sp_window ?b) (first_tab u)" "wf_second (second_tab u)"
      "history (second_tab u) = lastn SECOND_LAYER_TABLE_LENGTH (sp_log ?b)" "from_time u = sp_since ?b"
      "second_layer_table_read_index (second_tab u) = second_layer_table_read_index (second_tab s)"
    using rotate_spec [OF assms] by blast
  obtain f where "account_packet p (first_tab u) = Some f" "represents_window (sp_window ?b @ [p]) f"
    using account_packet_represents [OF u(2)] by blast
  with u show ?thesis by (simp add: add_packet_info_def refines_def spec_step_def Let_def)
qed

section \<open>The handler as a window table\<close>

text \<open>One packet with the clock readings of its call; and the run of the specification.\<close>

definition handle :: "clock \<times> packet_info \<Rightarrow> core \<Rightarrow> core option" where
  "handle e s = add_packet_info (fst e) (snd e) s"

definition spec_run :: "(clock \<times> packet_info) list \<Rightarrow> spec_state" where
  "spec_run es = fold (\<lambda>e. spec_step (fst e) (snd e)) es spec_start"

definition core_represents :: "(clock \<times> packet_info) list \<Rightarrow> core \<Rightarrow> bool" where
  "core_represents es s \<longleftrightarrow> refines (spec_run es) s"

interpretation packet_handler: window_table core_start handle core_represents
proof unfold_locales
  show "core_represents [] core_start"
    by (simp add: core_represents_def spec_run_def refines_start)
next
  fix es s e assume "core_represents es s"
  then show "\<exists>s'. handle e s = Some s' \<and> core_represents (es @ [e]) s'"
    using add_packet_info_refines [of "spec_run es" s "fst e" "snd e"]
    by (auto simp: core_represents_def handle_def spec_run_def)
qed

end
