(* ===== verification/Module_Control.thy ===== *)
theory Module_Control
  imports Traffic_Core
begin

text \<open>
  The module around the packet path of course_work/code/core_module.c: the three misc devices
  (\<open>read_l2_data\<close>, \<open>read_stats\<close>, \<open>write_command\<close>), hiding and exposing the module in
  the kernel's module list, and the registrations of \<open>my_module_init\<close> and
  \<open>my_module_exit\<close>. The kernel's list operations, \<open>copy_to_user\<close>, \<open>copy_from_user\<close> and
  the registration calls are arguments.
\<close>

section \<open>Data shared with user space\<close>

datatype l2_property =
    L2_PROPERTY_UNDEFINED
  | L2_PROPERTY_UNIQUE_SADDRS_COUNT
  | L2_PROPERTY_CATCHED_PACKETS_COUNT
  | L2_PROPERTY_TOT_LEN
  | L2_PROPERTY_AVG_CATCHED_PACKETS
  | L2_PROPERTY_MAX_CATCHED_PACKETS
  | L2_PROPERTY_AVG_LEN
  | L2_PROPERTY_MAX_LEN
  | L2_PROPERTY_TOT_TCP
  | L2_PROPERTY_TOT_SYN

datatype l2_crit_behaviour_type =
    L2_CRIT_BEHAVIOUR_TYPE_UNDEFINED
  | L2_CRIT_BEHAVIOUR_TYPE_INCREASE
  | L2_CRIT_BEHAVIOUR_TYPE_FALL

record l2_data_slice =
  ds_from_time :: u64
  ds_unique_saddr_count :: u32
  ds_catched_packets_count :: u32
  ds_tot_len :: u32
  ds_avg_catched_packets :: u32
  ds_max_catched_packets :: u32
  ds_avg_len :: u32
  ds_max_len :: u32
  ds_crit_behaviour :: int
  ds_property :: l2_property
  ds_type :: l2_crit_behaviour_type
  ds_tot_tcp :: u32
  ds_tot_syn :: u32

record module_stats =
  ms_history_length :: u32
  ms_current_history_length :: u32
  ms_current_periud_ns :: u64
  ms_crit_behaviour_count :: u32
  ms_first_crit_behaviour_ns :: u64
  ms_last_crit_behaviour_ns :: u64

text \<open>The values of the enumerations \<open>command_type\<close>; the field is a 32-bit integer.\<close>

definition HIDE :: u32 where
  "HIDE = 1"

definition UNHIDE :: u32 where
  "UNHIDE = 2"

text \<open>The sizes of the three structures under the x86-64 ABI.\<close>

definition sizeof_l2_data_slice :: nat where
  "sizeof_l2_data_slice = 56"

definition sizeof_module_stats :: nat where
  "sizeof_module_stats = 40"

definition sizeof_command :: nat where
  "sizeof_command = 4"

text \<open>The kernel's enumeration is copied to the user's by value; the two number alike.\<close>

definition l2_properties :: "l2_property list" where
  "l2_properties = [L2_PROPERTY_UNDEFINED, L2_PROPERTY_UNIQUE_SADDRS_COUNT,
     L2_PROPERTY_CATCHED_PACKETS_COUNT, L2_PROPERTY_TOT_LEN, L2_PROPERTY_AVG_CATCHED_PACKETS,
     L2_PROPERTY_MAX_CATCHED_PACKETS, L2_PROPERTY_AVG_LEN, L2_PROPERTY_MAX_LEN,
     L2_PROPERTY_TOT_TCP, L2_PROPERTY_TOT_SYN]"

definition l2_property_of :: "crit_behaviour_property \<Rightarrow> l2_property" where
  "l2_property_of p = l2_properties ! property_value p"

fun l2_type_of :: "crit_behaviour_type \<Rightarrow> l2_crit_behaviour_type" where
  "l2_type_of CRIT_BEHAVIOUR_TYPE_UNDEFINED = L2_CRIT_BEHAVIOUR_TYPE_UNDEFINED"
| "l2_type_of CRIT_BEHAVIOUR_TYPE_INCREASE = L2_CRIT_BEHAVIOUR_TYPE_INCREASE"
| "l2_type_of CRIT_BEHAVIOUR_TYPE_FALL = L2_CRIT_BEHAVIOUR_TYPE_FALL"

definition slice_view :: "second_layer_schema \<Rightarrow> l2_data_slice" where
  "slice_view r = \<lparr>
     ds_from_time = sl_from_time r,
     ds_unique_saddr_count = sl_unique_saddr_count r,
     ds_catched_packets_count = sl_catched_packets_count r,
     ds_tot_len = sl_tot_len r,
     ds_avg_catched_packets = sl_avg_catched_packets r,
     ds_max_catched_packets = sl_max_catched_packets r,
     ds_avg_len = sl_avg_len r,
     ds_max_len = sl_max_len r,
     ds_crit_behaviour = sl_crit_behaviour r,
     ds_property = l2_property_of (sl_property r),
     ds_type = l2_type_of (sl_type r),
     ds_tot_tcp = sl_tot_tcp r,
     ds_tot_syn = sl_tot_syn r\<rparr>"

section \<open>The data device\<close>

text \<open>
  The result is the returned size, what was copied to the user's buffer, and the table with its
  cursor; \<open>left\<close> is the number of bytes \<open>copy_to_user\<close> could not copy.
\<close>

definition read_l2_data ::
    "nat \<Rightarrow> nat \<Rightarrow> second_layer \<Rightarrow> (nat \<times> l2_data_slice option \<times> second_layer) option" where
  "read_l2_data cnt left s =
     (if cnt \<noteq> sizeof_l2_data_slice then Some (0, None, s)
      else if second_layer_table_read_index s \<ge> second_layer_table_next_index s then
        Some (0, None, s\<lparr>second_layer_table_read_index := 0\<rparr>)
      else do {
        r \<leftarrow> cell (second_layer_table s) (second_layer_table_read_index s);
        (if left \<noteq> 0 then Some (0, None, s)
         else Some (sizeof_l2_data_slice, Some (slice_view r),
           s\<lparr>second_layer_table_read_index := second_layer_table_read_index s + 1\<rparr>)) })"

section \<open>The statistics device\<close>

record crit_scan =
  cs_count :: u32
  cs_first :: u64
  cs_last :: u64

definition scan_row :: "second_layer_schema \<Rightarrow> crit_scan \<Rightarrow> crit_scan" where
  "scan_row r v =
     (if sl_crit_behaviour r > 0 then \<lparr>
        cs_count = cs_count v + 1,
        cs_first = (if cs_first v = 0 then sl_from_time r else cs_first v),
        cs_last = sl_from_time r\<rparr>
      else v)"

definition read_stats ::
    "nat \<Rightarrow> nat \<Rightarrow> second_layer \<Rightarrow> (nat \<times> module_stats option) option" where
  "read_stats cnt left s =
     (if cnt \<noteq> sizeof_module_stats then Some (0, None)
      else do {
        let n = second_layer_table_next_index s;
        v \<leftarrow> fold_prefix scan_row n (second_layer_table s) \<lparr>cs_count = 0, cs_first = 0, cs_last = 0\<rparr>;
        (per_start, per_finish) \<leftarrow>
          (if n > 0 then do {
             a \<leftarrow> cell (second_layer_table s) 0;
             b \<leftarrow> cell (second_layer_table s) (n - 1);
             Some (sl_from_time a, sl_from_time b) }
           else Some (0, 0));
        (if left \<noteq> 0 then Some (0, None)
         else Some (sizeof_module_stats, Some \<lparr>
           ms_history_length = word_of_nat SECOND_LAYER_TABLE_LENGTH,
           ms_current_history_length = word_of_nat n,
           ms_current_periud_ns = per_finish - per_start,
           ms_crit_behaviour_count = cs_count v,
           ms_first_crit_behaviour_ns = cs_first v,
           ms_last_crit_behaviour_ns = cs_last v\<rparr>)) })"

section \<open>Hiding the module\<close>

text \<open>
  \<open>'l\<close> is the kernel's list of modules, \<open>'m\<close> a node of it. The three operations of the
  kernel's list are fields of a record: the neighbour before a node, \<open>list_del\<close>, and
  \<open>list_add\<close> of a node after another.
\<close>

record ('m, 'l) list_ops =
  list_prev :: "'m \<Rightarrow> 'l \<Rightarrow> 'm"
  list_del :: "'m \<Rightarrow> 'l \<Rightarrow> 'l"
  list_add :: "'m \<Rightarrow> 'm \<Rightarrow> 'l \<Rightarrow> 'l"

record ('m, 'l) visibility =
  module_list :: 'l
  module_prev :: "'m option"
  flag_hidden :: int

definition hide :: "('m, 'l) list_ops \<Rightarrow> 'm \<Rightarrow> ('m, 'l) visibility \<Rightarrow> ('m, 'l) visibility" where
  "hide ops this v =
     (if flag_hidden v \<noteq> 0 then v
      else v\<lparr>module_prev := Some (list_prev ops this (module_list v)),
        module_list := list_del ops this (module_list v), flag_hidden := 1\<rparr>)"

text \<open>\<open>list_add\<close> through a null \<open>module_prev\<close> traps.\<close>

definition unhide ::
    "('m, 'l) list_ops \<Rightarrow> 'm \<Rightarrow> ('m, 'l) visibility \<Rightarrow> ('m, 'l) visibility option" where
  "unhide ops this v =
     (if flag_hidden v = 0 then Some v
      else (case module_prev v of
          None \<Rightarrow> None
        | Some p \<Rightarrow> Some (v\<lparr>module_list := list_add ops this p (module_list v), flag_hidden := 0\<rparr>)))"

text \<open>
  \<open>write_command\<close>: \<open>cmd\<close> is the \<open>type\<close> field of the command in the user's buffer,
  \<open>left\<close> the bytes \<open>copy_from_user\<close> could not copy. It returns 0 on every path.
\<close>

definition write_command ::
    "('m, 'l) list_ops \<Rightarrow> 'm \<Rightarrow> nat \<Rightarrow> nat \<Rightarrow> u32 \<Rightarrow> ('m, 'l) visibility
     \<Rightarrow> (nat \<times> ('m, 'l) visibility) option" where
  "write_command ops this cnt left cmd v =
     (if cnt \<noteq> sizeof_command then Some (0, v)
      else if left \<noteq> 0 then Some (0, v)
      else do {
        let v' = (if cmd = HIDE then hide ops this v else v);
        v'' \<leftarrow> (if cmd = UNHIDE then unhide ops this v' else Some v');
        Some (0, v'') })"

section \<open>Loading and unloading\<close>

datatype registration = Net_hook | Dev_l2_data | Dev_stats | Dev_ctrl

text \<open>
  The return codes of the registrations are arguments; the result of
  \<open>nf_register_net_hook\<close> is not looked at, so its effect is a separate argument. A misc
  device is registered when its return code is 0.
\<close>

definition my_module_init ::
    "bool \<Rightarrow> int \<Rightarrow> int \<Rightarrow> int \<Rightarrow> registration set \<Rightarrow> int \<times> registration set" where
  "my_module_init hooked rc_l2 rc_stats rc_ctrl R0 =
     (let R1 = (if hooked then insert Net_hook R0 else R0) in
      if rc_l2 \<noteq> 0 then (rc_l2, R1)
      else let R2 = insert Dev_l2_data R1 in
      if rc_stats \<noteq> 0 then (rc_stats, R2)
      else let R3 = insert Dev_stats R2 in
      if rc_ctrl \<noteq> 0 then (rc_ctrl, R3)
      else (0, insert Dev_ctrl R3))"

definition my_module_exit :: "registration set \<Rightarrow> registration set" where
  "my_module_exit R = R - {Net_hook} - {Dev_l2_data} - {Dev_stats} - {Dev_ctrl}"

section \<open>Reading the history\<close>

lemma read_l2_data_more:
  assumes "wf_second s" "second_layer_table_read_index s < second_layer_table_next_index s"
  shows "read_l2_data sizeof_l2_data_slice 0 s = Some (sizeof_l2_data_slice,
     Some (slice_view (history s ! second_layer_table_read_index s)),
     s\<lparr>second_layer_table_read_index := second_layer_table_read_index s + 1\<rparr>)"
  using assms by (auto simp: read_l2_data_def cell_some wf_second_def history_def)

lemma read_l2_data_end:
  "second_layer_table_read_index s \<ge> second_layer_table_next_index s \<Longrightarrow>
   read_l2_data sizeof_l2_data_slice left s =
     Some (0, None, s\<lparr>second_layer_table_read_index := 0\<rparr>)"
  by (simp add: read_l2_data_def)

lemma read_l2_data_total:
  "wf_second s \<Longrightarrow> \<exists>rb d s'. read_l2_data cnt left s = Some (rb, d, s') \<and> wf_second s' \<and>
     history s' = history s"
  by (auto simp: read_l2_data_def cell_some wf_second_def history_def)

section \<open>Statistics of the history\<close>

definition crit_rows :: "second_layer_schema list \<Rightarrow> second_layer_schema list" where
  "crit_rows h = filter (\<lambda>r. sl_crit_behaviour r > 0) h"

lemma fold_scan_row_count:
  "cs_count (fold scan_row h v) = cs_count v + word_of_nat (length (crit_rows h))"
  by (induction h arbitrary: v) (simp_all add: scan_row_def crit_rows_def ac_simps)

lemma fold_scan_row_first:
  "\<forall>r \<in> set h. sl_crit_behaviour r > 0 \<longrightarrow> sl_from_time r \<noteq> 0 \<Longrightarrow>
   cs_first (fold scan_row h v) =
     (if cs_first v \<noteq> 0 \<or> crit_rows h = [] then cs_first v else sl_from_time (hd (crit_rows h)))"
  by (induction h arbitrary: v) (auto simp: scan_row_def crit_rows_def)

lemma fold_scan_row_last:
  "cs_last (fold scan_row h v) =
     (if crit_rows h = [] then cs_last v else sl_from_time (last (crit_rows h)))"
  by (induction h rule: rev_induct) (auto simp: scan_row_def crit_rows_def)

definition stats_of :: "second_layer_schema list \<Rightarrow> module_stats" where
  "stats_of h = (let crit = crit_rows h in \<lparr>
     ms_history_length = 512,
     ms_current_history_length = word_of_nat (length h),
     ms_current_periud_ns = (if h = [] then 0 else sl_from_time (last h) - sl_from_time (hd h)),
     ms_crit_behaviour_count = word_of_nat (length crit),
     ms_first_crit_behaviour_ns = (if crit = [] then 0 else sl_from_time (hd crit)),
     ms_last_crit_behaviour_ns = (if crit = [] then 0 else sl_from_time (last crit))\<rparr>)"

lemma read_stats_spec:
  assumes wf: "wf_second s"
    and times: "\<forall>r \<in> set (history s). sl_crit_behaviour r > 0 \<longrightarrow> sl_from_time r \<noteq> 0"
  shows "read_stats sizeof_module_stats 0 s = Some (sizeof_module_stats, Some (stats_of (history s)))"
proof -
  let ?n = "second_layer_table_next_index s" and ?t = "second_layer_table s"
  let ?z = "\<lparr>cs_count = 0, cs_first = 0, cs_last = 0\<rparr>"
  have n: "?n \<le> length ?t" "length (history s) = ?n"
    using wf length_history by (auto simp: wf_second_def)
  have run: "fold_prefix scan_row ?n ?t ?z = Some (fold scan_row (history s) ?z)"
    using n by (simp add: fold_prefix_some history_def)
  have nil: "history s = [] \<longleftrightarrow> ?n = 0" using n by auto
  show ?thesis
    using n run history_ends [OF wf] nil
    by (simp add: read_stats_def stats_of_def Let_def fold_scan_row_count
        fold_scan_row_first [OF times] fold_scan_row_last SECOND_LAYER_TABLE_LENGTH_def)
qed

section \<open>Hiding and exposing\<close>

text \<open>
  What linux/list.h documents: for a ring of distinct nodes, the node before another, removal,
  and insertion after a given node. \<open>ring\<close> reads the list as the sequence of its nodes from
  the head on.
\<close>

definition list_laws :: "('m, 'l) list_ops \<Rightarrow> ('l \<Rightarrow> 'm list) \<Rightarrow> bool" where
  "list_laws ops ring \<longleftrightarrow>
     (\<forall>l xs p m ys. distinct (ring l) \<and> ring l = xs @ p # m # ys \<longrightarrow> list_prev ops m l = p) \<and>
     (\<forall>l xs m ys. distinct (ring l) \<and> ring l = xs @ m # ys \<longrightarrow> ring (list_del ops m l) = xs @ ys) \<and>
     (\<forall>l xs p m ys. distinct (ring l) \<and> ring l = xs @ p # ys \<and> m \<notin> set (ring l) \<longrightarrow>
        ring (list_add ops m p l) = xs @ p # m # ys)"

text \<open>The module sits after \<open>p\<close> in the ring when it is exposed, and is out of it when hidden.\<close>

definition visible_at :: "('l \<Rightarrow> 'm list) \<Rightarrow> 'm \<Rightarrow> 'm list \<Rightarrow> 'm \<Rightarrow> 'm list \<Rightarrow> ('m, 'l) visibility \<Rightarrow> bool" where
  "visible_at ring this xs p ys v \<longleftrightarrow> distinct (xs @ p # this # ys) \<and>
     (if flag_hidden v = 0 then ring (module_list v) = xs @ p # this # ys
      else ring (module_list v) = xs @ p # ys \<and> module_prev v = Some p)"

lemma hide_visible_at:
  assumes "list_laws ops ring" "visible_at ring this xs p ys v"
  shows "visible_at ring this xs p ys (hide ops this v) \<and> flag_hidden (hide ops this v) \<noteq> 0"
proof (cases "flag_hidden v = 0")
  case True
  with assms(2) have d: "distinct (ring (module_list v))" "ring (module_list v) = xs @ p # this # ys"
    by (auto simp: visible_at_def)
  then have "list_prev ops this (module_list v) = p"
    using assms(1) unfolding list_laws_def by blast
  moreover have "ring (list_del ops this (module_list v)) = xs @ p # ys"
  proof -
    have "ring (module_list v) = (xs @ [p]) @ this # ys" using d by simp
    then have "ring (list_del ops this (module_list v)) = (xs @ [p]) @ ys"
      using assms(1) d(1) unfolding list_laws_def by blast
    then show ?thesis by simp
  qed
  ultimately show ?thesis using True assms(2) by (simp add: hide_def visible_at_def)
next
  case False
  with assms(2) show ?thesis by (simp add: hide_def)
qed

lemma unhide_visible_at:
  assumes "list_laws ops ring" "visible_at ring this xs p ys v"
  shows "\<exists>v'. unhide ops this v = Some v' \<and> visible_at ring this xs p ys v' \<and> flag_hidden v' = 0"
proof (cases "flag_hidden v = 0")
  case True
  with assms(2) show ?thesis by (simp add: unhide_def)
next
  case False
  with assms(2) have d: "distinct (ring (module_list v))" "ring (module_list v) = xs @ p # ys"
      "this \<notin> set (ring (module_list v))" "module_prev v = Some p"
    by (auto simp: visible_at_def)
  then have "ring (list_add ops this p (module_list v)) = xs @ p # this # ys"
    using assms(1) unfolding list_laws_def by blast
  with False d assms(2) show ?thesis by (simp add: unhide_def visible_at_def)
qed

definition run_commands ::
    "('m, 'l) list_ops \<Rightarrow> 'm \<Rightarrow> u32 list \<Rightarrow> ('m, 'l) visibility \<Rightarrow> ('m, 'l) visibility option" where
  "run_commands ops this cmds v =
     run_all (\<lambda>cmd v. map_option snd (write_command ops this sizeof_command 0 cmd v)) cmds v"

text \<open>Whether the module is hidden after a sequence of commands.\<close>

definition hidden_after :: "u32 list \<Rightarrow> bool \<Rightarrow> bool" where
  "hidden_after cmds h = fold (\<lambda>cmd h. if cmd = HIDE then True else if cmd = UNHIDE then False else h) cmds h"

lemma write_command_step:
  assumes "list_laws ops ring" "visible_at ring this xs p ys v"
  shows "\<exists>v'. write_command ops this sizeof_command 0 cmd v = Some (0, v') \<and>
    visible_at ring this xs p ys v' \<and>
    (flag_hidden v' \<noteq> 0 \<longleftrightarrow> (if cmd = HIDE then True else if cmd = UNHIDE then False else flag_hidden v \<noteq> 0))"
  using hide_visible_at [OF assms] unhide_visible_at [OF assms] assms(2)
  by (auto simp: write_command_def HIDE_def UNHIDE_def)

lemma run_commands_visible:
  assumes "list_laws ops ring" "visible_at ring this xs p ys v"
  shows "\<exists>v'. run_commands ops this cmds v = Some v' \<and> visible_at ring this xs p ys v' \<and>
    (flag_hidden v' \<noteq> 0 \<longleftrightarrow> hidden_after cmds (flag_hidden v \<noteq> 0))"
  using assms(2)
proof (induction cmds arbitrary: v)
  case Nil
  then show ?case by (simp add: run_commands_def hidden_after_def)
next
  case (Cons cmd cmds)
  obtain u where u: "write_command ops this sizeof_command 0 cmd v = Some (0, u)"
      "visible_at ring this xs p ys u"
      "flag_hidden u \<noteq> 0 \<longleftrightarrow> (if cmd = HIDE then True else if cmd = UNHIDE then False else flag_hidden v \<noteq> 0)"
    using write_command_step [OF assms(1) Cons.prems] by blast
  from Cons.IH [OF u(2)] u show ?case
    by (simp add: run_commands_def hidden_after_def)
qed

end
