(* ===== verification/C_Strings.thy ===== *)
theory C_Strings
  imports Prelude
begin

text \<open>
  Text as the C programs print and keep it: decimal numbers, and strings in arrays of bytes, which
  end at the first zero byte. A library call that would read or write outside its array is
  \<open>None\<close>.
\<close>

section \<open>Decimal numbers\<close>

definition digit :: "nat \<Rightarrow> char" where
  "digit n = char_of (48 + n)"

fun show_nat :: "nat \<Rightarrow> string" where
  "show_nat n = (if n < 10 then [digit n] else show_nat (n div 10) @ [digit (n mod 10)])"

declare show_nat.simps [simp del]

definition show_int :: "int \<Rightarrow> string" where
  "show_int i = (if i < 0 then ''-'' @ show_nat (nat (- i)) else show_nat (nat i))"

definition nl :: string where
  "nl = [CHR 0x0A]"

definition tab :: string where
  "tab = [CHR 0x09]"

abbreviation NUL :: char where
  "NUL \<equiv> CHR 0x00"

fun show_digits :: "nat \<Rightarrow> nat" where
  "show_digits n = (if n < 10 then 1 else Suc (show_digits (n div 10)))"

declare show_digits.simps [simp del]

lemma length_show_nat: "length (show_nat n) = show_digits n"
  by (induction n rule: show_nat.induct) (simp add: show_nat.simps show_digits.simps)

lemma show_digits_le: "n < 10 ^ k \<Longrightarrow> 0 < k \<Longrightarrow> show_digits n \<le> k"
proof (induction k arbitrary: n)
  case 0
  then show ?case by simp
next
  case (Suc k)
  show ?case
  proof (cases "n < 10")
    case True
    then show ?thesis by (simp add: show_digits.simps)
  next
    case False
    with Suc.prems have "0 < k" by (cases k) auto
    moreover from Suc.prems have "n div 10 < 10 ^ k" by (simp add: less_mult_imp_div_less mult.commute)
    ultimately have "show_digits (n div 10) \<le> k" using Suc.IH by blast
    with False show ?thesis by (simp add: show_digits.simps)
  qed
qed

lemma show_nat_not_Nil [simp]: "show_nat n \<noteq> []"
  by (simp add: show_nat.simps)

lemma of_char_digit: "n < 10 \<Longrightarrow> of_char (digit n) = 48 + n"
  by (simp add: digit_def take_bit_eq_mod)

lemma digit_not_NUL: "n < 10 \<Longrightarrow> digit n \<noteq> NUL"
  by (auto dest: of_char_digit)

lemma show_nat_no_NUL: "NUL \<notin> set (show_nat n)"
proof (induction n rule: show_nat.induct)
  case (1 n)
  have "digit (n mod 10) \<noteq> NUL" by (rule digit_not_NUL) simp
  moreover have "n < 10 \<Longrightarrow> digit n \<noteq> NUL" by (rule digit_not_NUL)
  ultimately show ?case using 1 by (auto simp: show_nat.simps [of n])
qed

section \<open>Strings in arrays\<close>

text \<open>The string an array holds; undefined when no byte of it is zero.\<close>

definition c_str :: "string \<Rightarrow> string option" where
  "c_str a = (if NUL \<in> set a then Some (takeWhile (\<lambda>c. c \<noteq> NUL) a) else None)"

text \<open>Bytes put at an index of an array; undefined when they do not fit.\<close>

definition put_bytes :: "nat \<Rightarrow> string \<Rightarrow> string \<Rightarrow> string option" where
  "put_bytes i d a =
     (if i + length d \<le> length a then Some (take i a @ d @ drop (i + length d) a) else None)"

text \<open>\<open>sprintf\<close> and \<open>strcpy\<close>: the text and its final zero byte at the start of the array.\<close>

definition put_str :: "string \<Rightarrow> string \<Rightarrow> string option" where
  "put_str d a = put_bytes 0 (d @ [NUL]) a"

lemma length_put_bytes: "put_bytes i d a = Some b \<Longrightarrow> length b = length a"
  by (auto simp: put_bytes_def split: if_splits)

lemma c_str_put_str: "put_str d a = Some b \<Longrightarrow> NUL \<notin> set d \<Longrightarrow> c_str b = Some d"
  by (auto simp: put_str_def put_bytes_def c_str_def takeWhile_append split: if_splits)

lemma put_str_fits: "put_str d a \<noteq> None \<longleftrightarrow> length d < length a"
  by (auto simp: put_str_def put_bytes_def)

text \<open>\<open>recv\<close> or \<open>read\<close> of one message into an array: what does not fit is dropped.\<close>

definition recv_into :: "string \<Rightarrow> string \<Rightarrow> nat \<times> string" where
  "recv_into d a = (let m = take (length a) d in (length m, m @ drop (length m) a))"

text \<open>\<open>a[i] = 0\<close>.\<close>

definition put_NUL :: "nat \<Rightarrow> string \<Rightarrow> string option" where
  "put_NUL i a = set_cell a i NUL"

lemma length_recv_into: "recv_into d a = (n, b) \<Longrightarrow> length b = length a \<and> n = min (length a) (length d)"
  by (auto simp: recv_into_def Let_def)

text \<open>A message without a zero byte that leaves room for one is the string that is read back.\<close>

lemma c_str_recv:
  assumes "NUL \<notin> set d" "length d < length a" "set e \<subseteq> {NUL}" "length (d @ e) < length a"
  shows "\<exists>b. recv_into (d @ e) a = (length (d @ e), b) \<and>
    (\<exists>c. put_NUL (length (d @ e)) b = Some c \<and> c_str c = Some d \<and> length c = length a)"
proof -
  let ?m = "d @ e" and ?r = "drop (length d + length e) a"
  have r: "recv_into ?m a = (length ?m, ?m @ ?r)" using assms(4) by (simp add: recv_into_def)
  obtain x r' where split: "?r = x # r'" using assms(4) by (cases ?r) auto
  have "put_NUL (length ?m) (?m @ ?r) = Some (?m @ NUL # r')"
    using assms(4) by (simp add: put_NUL_def set_cell_def split list_update_append)
  moreover have d: "\<forall>x\<in>set d. x \<noteq> NUL" using assms(1) by auto
  have "takeWhile (\<lambda>c. c \<noteq> NUL) (d @ e @ NUL # r') = d"
    using d assms(3) by (cases e) (simp_all add: takeWhile_append2)
  then have "c_str (?m @ NUL # r') = Some d" by (simp add: c_str_def)
  moreover have "length (?m @ NUL # r') = length a"
    using arg_cong [OF split, of length] assms(4) by simp
  ultimately show ?thesis using r by blast
qed

section \<open>Reading numbers back\<close>

definition digit_value :: "char \<Rightarrow> nat" where
  "digit_value c = of_char c - 48"

definition read_nat :: "string \<Rightarrow> nat" where
  "read_nat ds = foldl (\<lambda>n c. 10 * n + digit_value c) 0 ds"

lemma digit_value_digit: "n < 10 \<Longrightarrow> digit_value (digit n) = n"
  by (simp add: digit_value_def of_char_digit)

lemma read_show_nat: "read_nat (show_nat n) = n"
proof (induction n rule: show_nat.induct)
  case (1 n)
  have "digit_value (digit (n mod 10)) = n mod 10" by (rule digit_value_digit) simp
  with 1 show ?case
    by (auto simp: show_nat.simps [of n] read_nat_def digit_value_digit)
qed

lemma show_nat_inject [simp]: "show_nat m = show_nat n \<longleftrightarrow> m = n"
  by (metis read_show_nat)

end
