(* ===== verification/Cli.thy ===== *)
theory Cli
  imports Module_Control C_Strings
begin

text \<open>
  The control program course_work/code/cli.c: the name tables, the printed records, the loop
  that drains the data device, and the dispatch of \<open>main\<close>. What the program prints is a
  string; opening a device and the kernel's copies to user space are arguments.
\<close>

section \<open>Printed numbers\<close>

text \<open>\<open>%d\<close> and \<open>%ld\<close> print the two's complement value of the word they are given.\<close>

definition fmt_d :: "u32 \<Rightarrow> string" where
  "fmt_d w = show_int (sint w)"

definition fmt_ld :: "u64 \<Rightarrow> string" where
  "fmt_ld w = show_int (sint w)"

section \<open>Names\<close>

definition property_names :: "string list" where
  "property_names = [''undefined'', ''saddr_count'', ''catched_packet_count'', ''tot_len'',
     ''avg_catched_packets'', ''max_catched_packets'', ''avg_len'', ''max_len'', ''tot_tcp'',
     ''tot_syn'']"

text \<open>The search of a key table, and the name at the same index; entry 0 when there is none.\<close>

fun name_at :: "'k list \<Rightarrow> string list \<Rightarrow> 'k \<Rightarrow> string option" where
  "name_at (k # ks) (n # ns) x = (if k = x then Some n else name_at ks ns x)"
| "name_at _ _ x = None"

definition get_property_name :: "l2_property \<Rightarrow> string" where
  "get_property_name p =
     (case name_at l2_properties property_names p of Some n \<Rightarrow> n | None \<Rightarrow> property_names ! 0)"

definition crit_behaviour_types :: "l2_crit_behaviour_type list" where
  "crit_behaviour_types = [L2_CRIT_BEHAVIOUR_TYPE_UNDEFINED, L2_CRIT_BEHAVIOUR_TYPE_INCREASE,
     L2_CRIT_BEHAVIOUR_TYPE_FALL]"

definition crit_behaviour_type_names :: "string list" where
  "crit_behaviour_type_names = [''undefined'', ''increase'', ''fall'']"

definition get_crit_behaviour_type_name :: "l2_crit_behaviour_type \<Rightarrow> string" where
  "get_crit_behaviour_type_name t =
     (case name_at crit_behaviour_types crit_behaviour_type_names t of
        Some n \<Rightarrow> n | None \<Rightarrow> crit_behaviour_type_names ! 0)"

section \<open>Printed records\<close>

definition print_info :: string where
  "print_info = nl @ ''by Gurova N.A.'' @ nl @ nl @ nl
     @ tab @ ''COMMANDS:'' @ nl @ nl
     @ tab @ tab @ ''hide       ---     hide'' @ nl
     @ tab @ tab @ ''unhide     ---     unhide'' @ nl @ nl
     @ tab @ tab @ ''info       ---     show info'' @ nl
     @ tab @ tab @ ''stats      ---     show stats'' @ nl
     @ tab @ tab @ ''l2         ---     show l2_data'' @ nl @ nl"

definition json_field :: "string \<Rightarrow> string \<Rightarrow> string" where
  "json_field k v = ''\"'' @ k @ ''\": '' @ v"

definition quoted :: "string \<Rightarrow> string" where
  "quoted v = ''\"'' @ v @ ''\"''"

definition print_l2_data_slice :: "l2_data_slice \<Rightarrow> string" where
  "print_l2_data_slice d = ''{''
     @ json_field ''from_time'' (fmt_ld (ds_from_time d)) @ '',''
     @ json_field ''unique_saddr_count'' (fmt_d (ds_unique_saddr_count d)) @ '',''
     @ json_field ''catched_packets_count'' (fmt_d (ds_catched_packets_count d)) @ '',''
     @ json_field ''tot_len'' (fmt_d (ds_tot_len d)) @ '',''
     @ json_field ''avg_catched_packets'' (fmt_d (ds_avg_catched_packets d)) @ '',''
     @ json_field ''max_catched_packets'' (fmt_d (ds_max_catched_packets d)) @ '',''
     @ json_field ''avg_len'' (fmt_d (ds_avg_len d)) @ '',''
     @ json_field ''max_len'' (fmt_d (ds_max_len d)) @ '',''
     @ json_field ''crit'' (show_int (ds_crit_behaviour d)) @ '',''
     @ json_field ''property'' (quoted (get_property_name (ds_property d))) @ '',''
     @ json_field ''crit_type'' (quoted (get_crit_behaviour_type_name (ds_type d))) @ '',''
     @ json_field ''tot_tcp'' (quoted (fmt_d (ds_tot_tcp d))) @ '',''
     @ json_field ''tot_syn'' (quoted (fmt_d (ds_tot_syn d))) @ ''}'' @ nl"

definition print_stats :: "module_stats \<Rightarrow> string" where
  "print_stats m = ''MODULE STATS:'' @ nl @ nl
     @ tab @ ''max history length'' @ tab @ tab @ tab @ tab
       @ fmt_d (ms_history_length m) @ nl
     @ tab @ ''actual history length'' @ tab @ tab @ tab @ tab
       @ fmt_d (ms_current_history_length m) @ nl
     @ tab @ ''current history time periud'' @ tab @ tab @ tab
       @ fmt_ld (ms_current_periud_ns m) @ nl
     @ tab @ ''critical activity periuds'' @ tab @ tab @ tab
       @ fmt_d (ms_crit_behaviour_count m) @ nl
     @ tab @ ''first critical activity timestamp'' @ tab @ tab
       @ fmt_ld (ms_first_crit_behaviour_ns m) @ nl
     @ tab @ ''last critical activity timestamp'' @ tab @ tab
       @ fmt_ld (ms_last_crit_behaviour_ns m) @ nl"

section \<open>Draining the data device\<close>

text \<open>
  The loop of \<open>show_l2_data\<close>: read number \<open>k\<close> leaves \<open>left k\<close> bytes uncopied. The
  result is what was printed and the table after the last read.
\<close>

lemma read_l2_data_advances:
  assumes "read_l2_data cnt left s = Some (rb, d, s')" "0 < rb"
  shows "second_layer_table_next_index s' - second_layer_table_read_index s' <
    second_layer_table_next_index s - second_layer_table_read_index s"
  using assms by (auto simp: read_l2_data_def cell_eq_Some split: if_splits Option.bind_splits)

function show_l2_loop :: "(nat \<Rightarrow> nat) \<Rightarrow> nat \<Rightarrow> second_layer \<Rightarrow> (string \<times> second_layer) option" where
  "show_l2_loop left k s =
     (case read_l2_data sizeof_l2_data_slice (left k) s of
        None \<Rightarrow> None
      | Some (rb, d, s') \<Rightarrow>
          if 0 < rb then
            (if rb \<noteq> sizeof_l2_data_slice then Some ('''', s')
             else case d of
                 None \<Rightarrow> None
               | Some ds \<Rightarrow>
                   map_option (\<lambda>(out, t). (print_l2_data_slice ds @ out, t))
                     (show_l2_loop left (Suc k) s'))
          else Some ('''', s'))"
  by pat_completeness auto
termination
  by (relation "measure (\<lambda>(left, k, s).
        second_layer_table_next_index s - second_layer_table_read_index s)")
    (auto dest: read_l2_data_advances)

declare show_l2_loop.simps [simp del]

definition show_l2_data :: "bool \<Rightarrow> (nat \<Rightarrow> nat) \<Rightarrow> second_layer \<Rightarrow> (nat \<times> string \<times> second_layer) option" where
  "show_l2_data opened left s =
     (if \<not> opened then Some (1, '''', s)
      else map_option (\<lambda>(out, t). (0, out, t)) (show_l2_loop left 0 s))"

definition show_stats :: "bool \<Rightarrow> nat \<Rightarrow> second_layer \<Rightarrow> (nat \<times> string) option" where
  "show_stats opened left s =
     (if \<not> opened then Some (1, '''')
      else do {
        (rb, st) \<leftarrow> read_stats sizeof_module_stats left s;
        (if rb \<noteq> sizeof_module_stats then Some (1, '''')
         else case st of None \<Rightarrow> None | Some m \<Rightarrow> Some (0, print_stats m)) })"

definition hide_unhide ::
    "('m, 'l) list_ops \<Rightarrow> 'm \<Rightarrow> bool \<Rightarrow> nat \<Rightarrow> int \<Rightarrow> ('m, 'l) visibility \<Rightarrow> ('m, 'l) visibility option" where
  "hide_unhide ops this opened left make_hidden v =
     (let cmd = (if make_hidden = 1 then HIDE else UNHIDE) in
      if \<not> opened then Some v
      else map_option snd (write_command ops this sizeof_command left cmd v))"

section \<open>The program\<close>

text \<open>
  The parts of the kernel module the program reaches through its devices, and what the kernel
  decides: whether the device opens, and how much of each copy is left out.
\<close>

record ('m, 'l) kernel_module =
  km_second :: second_layer
  km_visibility :: "('m, 'l) visibility"

record cli_env =
  ce_opened :: bool
  ce_left :: "nat \<Rightarrow> nat"

definition cli_main ::
    "('m, 'l) list_ops \<Rightarrow> 'm \<Rightarrow> cli_env \<Rightarrow> string list \<Rightarrow> ('m, 'l) kernel_module
     \<Rightarrow> (nat \<times> string \<times> ('m, 'l) kernel_module) option" where
  "cli_main ops this env argv m =
     (if length argv \<noteq> 2 then Some (1, print_info, m)
      else if argv ! 1 = ''info'' then Some (0, print_info, m)
      else if argv ! 1 = ''stats'' then
        map_option (\<lambda>(rc, out). (rc, out, m)) (show_stats (ce_opened env) (ce_left env 0) (km_second m))
      else if argv ! 1 = ''l2'' then
        map_option (\<lambda>(rc, out, s). (rc, out, m\<lparr>km_second := s\<rparr>))
          (show_l2_data (ce_opened env) (ce_left env) (km_second m))
      else if argv ! 1 = ''hide'' then
        map_option (\<lambda>v. (0, '''', m\<lparr>km_visibility := v\<rparr>))
          (hide_unhide ops this (ce_opened env) (ce_left env 0) 1 (km_visibility m))
      else if argv ! 1 = ''unhide'' then
        map_option (\<lambda>v. (0, '''', m\<lparr>km_visibility := v\<rparr>))
          (hide_unhide ops this (ce_opened env) (ce_left env 0) 0 (km_visibility m))
      else Some (1, print_info, m))"

section \<open>What the loop prints\<close>

definition print_row :: "second_layer_schema \<Rightarrow> string" where
  "print_row r = print_l2_data_slice (slice_view r)"

lemma show_l2_loop_prints:
  assumes "wf_second s" "\<And>k. left k = 0"
  shows "show_l2_loop left k s =
    Some (concat (map print_row (drop (second_layer_table_read_index s) (history s))),
      s\<lparr>second_layer_table_read_index := 0\<rparr>)"
  using assms
proof (induction left k s rule: show_l2_loop.induct)
  case (1 left k s)
  let ?i = "second_layer_table_read_index s"
  show ?case
  proof (cases "?i < second_layer_table_next_index s")
    case True
    let ?s = "s\<lparr>second_layer_table_read_index := ?i + 1\<rparr>"
    have read: "read_l2_data sizeof_l2_data_slice (left k) s =
        Some (sizeof_l2_data_slice, Some (slice_view (history s ! ?i)), ?s)"
      using read_l2_data_more [OF "1.prems"(1) True] "1.prems"(2) by simp
    have wf: "wf_second ?s" "history ?s = history s"
      using "1.prems"(1) by (simp_all add: wf_second_def history_def)
    have pos: "0 < sizeof_l2_data_slice" by (simp add: sizeof_l2_data_slice_def)
    have rest: "show_l2_loop left (Suc k) ?s =
        Some (concat (map print_row (drop (Suc ?i) (history s))), s\<lparr>second_layer_table_read_index := 0\<rparr>)"
      using "1.IH" [OF read refl refl pos _ refl wf(1) "1.prems"(2)] wf(2) by simp
    have "drop ?i (history s) = history s ! ?i # drop (Suc ?i) (history s)"
      using True length_history [OF "1.prems"(1)] by (simp add: Cons_nth_drop_Suc)
    with read rest pos show ?thesis
      by (simp add: show_l2_loop.simps [of left k s] print_row_def [abs_def])
  next
    case False
    with read_l2_data_end [of s "left k"] length_history [OF "1.prems"(1)] show ?thesis
      by (simp add: show_l2_loop.simps [of left k s])
  qed
qed

section \<open>Names are total and unambiguous\<close>

lemma get_property_name_table:
  "get_property_name (l2_properties ! i) = property_names ! i" if "i < 10"
proof -
  have "i \<in> {0,1,2,3,4,5,6,7,8,9}" using that by auto
  then show ?thesis by (auto simp: get_property_name_def l2_properties_def property_names_def)
qed

lemma distinct_property_names: "distinct property_names" "length property_names = 10"
  by (simp_all add: property_names_def)

lemma get_property_name_kernel:
  "get_property_name (l2_property_of p) = property_names ! property_value p"
  using get_property_name_table [OF property_value_bound] by (simp add: l2_property_of_def)

end
