(* ===== verification/Traffic_Properties.thy ===== *)
theory Traffic_Properties
  imports Cli
begin

text \<open>
  The properties of the traffic module (course_work/code) and of its control program: the packet
  path against its specification, the window rows and the slice totals, the bounded history, the
  detector, the devices as the control program sees them, hiding, loading and unloading. Each is a
  few lines over the facts of the component theories and of the interpreted contracts.
\<close>

section \<open>The packet path\<close>

text \<open>C1: the packet path implements its specification: whatever packets arrive and whatever the
  clock reads, the handler never traps (no division by zero, no access outside a table), and after
  any sequence of packets the first layer table is the exact account of the current window, the
  second layer table is the last 512 classified slices, and the window started when the
  specification's did.\<close>

theorem traffic_refinement:
  "\<exists>s. run_all handle es core_start = Some s \<and> refines (spec_run es) s"
  using packet_handler.from_start [of es] by (simp add: core_represents_def)

lemma card_tracked: "length (tracked ws) = min FIRST_LAYER_TABLE_LENGTH (card (pi_saddr ` set ws))"
proof -
  have "length (first_seen (map pi_saddr ws)) = card (pi_saddr ` set ws)"
    using distinct_card [OF distinct_first_seen, of "map pi_saddr ws"] by simp
  then show ?thesis by (simp add: tracked_def min.commute)
qed

text \<open>C4: the rows of a window are exact: after any sequence of packets of one window the used rows
  are one for each of the first 64 distinct sources, in order of first appearance, and each row
  holds the source's packet, byte, TCP and SYN totals over the whole sequence; packets of further
  sources change no row.\<close>

theorem window_rows_exact:
  "\<exists>f. run_all account_packet ps first_layer_start = Some f \<and>
     first_layer_table_next_index f = min FIRST_LAYER_TABLE_LENGTH (card (pi_saddr ` set ps)) \<and>
     take (first_layer_table_next_index f) (first_layer_table f) = map (row_of ps) (tracked ps)"
  using first_table.from_start [of ps] by (auto simp: represents_window_def card_tracked)

lemma dump_slice:
  assumes "wf_second sec" "run_all account_packet (p # ps) first_layer_start = Some f"
  shows "\<exists>s'. dump_first_layer_table secs \<lparr>first_tab = f, second_tab = sec, from_time = t\<rparr> = Some s' \<and>
    first_layer_table_next_index (first_tab s') = 0 \<and> length (history (second_tab s')) \<le> 512 \<and>
    history (second_tab s') = lastn (SECOND_LAYER_TABLE_LENGTH - 1) (history sec) @
      [classify (lastn (SECOND_LAYER_TABLE_LENGTH - 1) (history sec)) (slice_of secs (p # ps))]"
proof -
  have "represents_window (p # ps) f" by (rule first_table.from_start_unique) (rule assms(2))
  then have R: "represents_window (p # ps) (first_tab \<lparr>first_tab = f, second_tab = sec, from_time = t\<rparr>)"
    and W: "wf_second (second_tab \<lparr>first_tab = f, second_tab = sec, from_time = t\<rparr>)"
    using assms(1) by simp_all
  obtain s' where s': "dump_first_layer_table secs \<lparr>first_tab = f, second_tab = sec, from_time = t\<rparr> = Some s'"
    "represents_window [] (first_tab s')" "wf_second (second_tab s')"
    "history (second_tab s') = lastn (SECOND_LAYER_TABLE_LENGTH - 1) (history sec) @
      [classify (lastn (SECOND_LAYER_TABLE_LENGTH - 1) (history sec)) (slice_of secs (p # ps))]"
    using dump_spec [OF R _ W, of secs] by auto
  then show ?thesis
    using history_bound [OF s'(3)] by (simp add: represents_window_def SECOND_LAYER_TABLE_LENGTH_def)
qed

text \<open>C3: the slice written at the end of a window is exact: its source count, packet, byte, TCP and
  SYN totals are those of the packets whose source has a row, its averages are the totals divided by
  the number of sources (rounded down), its maxima are attained by a source and reached by none more,
  and the window is empty afterwards.\<close>

theorem slice_exact:
  assumes "wf_second sec" "ws = p # ps" "run_all account_packet ws first_layer_start = Some f"
  shows "\<exists>s' r. dump_first_layer_table secs \<lparr>first_tab = f, second_tab = sec, from_time = t\<rparr> = Some s' \<and>
    first_layer_table_next_index (first_tab s') = 0 \<and>
    history (second_tab s') = lastn 511 (history sec) @ [r] \<and>
    sl_from_time r = secs \<and>
    sl_unique_saddr_count r = word_of_nat (length (tracked ws)) \<and>
    sl_catched_packets_count r = word_of_nat (length (counted ws)) \<and>
    sl_tot_len r = sum_list (map pi_tot_len (counted ws)) \<and>
    sl_tot_tcp r = word_of_nat (length (filter (\<lambda>q. pi_is_tcp q \<noteq> 0) (counted ws))) \<and>
    sl_tot_syn r = word_of_nat (length (filter (\<lambda>q. pi_is_syn q \<noteq> 0) (counted ws))) \<and>
    unat (sl_avg_catched_packets r) = unat (sl_catched_packets_count r) div length (tracked ws) \<and>
    unat (sl_avg_len r) = unat (sl_tot_len r) div length (tracked ws) \<and>
    sl_max_catched_packets r \<in> insert 0 (source_count ws ` set (tracked ws)) \<and>
    sl_max_len r \<in> insert 0 (source_len ws ` set (tracked ws)) \<and>
    (\<forall>a\<in>set (tracked ws). source_count ws a \<le> sl_max_catched_packets r \<and> source_len ws a \<le> sl_max_len r)"
proof -
  let ?r = "classify (lastn (SECOND_LAYER_TABLE_LENGTH - 1) (history sec)) (slice_of secs (p # ps))"
  have "fold max (map g (tracked ws)) 0 \<in> insert 0 (g ` set (tracked ws))" for g :: "u32 \<Rightarrow> u32"
    using fold_max_in [of "map g (tracked ws)" 0] by simp
  with dump_slice [OF assms(1) assms(3) [unfolded assms(2)], of secs t] assms(2) show ?thesis
    by (auto simp: SECOND_LAYER_TABLE_LENGTH_def slice_of_def slice_row_def row_simps
        window_totals_counts window_max_bounds intro!: exI [of _ ?r])
      (auto simp: window_totals_max)
qed

theorem slice_exact_witness:
  "\<exists>f s'. run_all account_packet
       [\<lparr>pi_saddr = 1, pi_tot_len = 60, pi_is_tcp = 1, pi_is_syn = 1\<rparr>,
        \<lparr>pi_saddr = 2, pi_tot_len = 40, pi_is_tcp = 0, pi_is_syn = 0\<rparr>] first_layer_start = Some f \<and>
     dump_first_layer_table 9 \<lparr>first_tab = f, second_tab = second_layer_start, from_time = 5\<rparr> = Some s' \<and>
     sl_tot_len (last (history (second_tab s'))) = 100"
proof -
  let ?ws = "[\<lparr>pi_saddr = 1, pi_tot_len = 60, pi_is_tcp = 1, pi_is_syn = 1\<rparr>,
     \<lparr>pi_saddr = 2, pi_tot_len = 40, pi_is_tcp = 0, pi_is_syn = 0\<rparr>] :: packet_info list"
  obtain f where f: "run_all account_packet ?ws first_layer_start = Some f"
    using first_table.from_start [of ?ws] by blast
  have "sum_list (map pi_tot_len (counted ?ws)) = 100"
    by (simp add: counted_def tracked_def first_seen_def FIRST_LAYER_TABLE_LENGTH_def)
  with f slice_exact [OF wf_second_start refl f, of 9 5] show ?thesis by fastforce
qed

lemma counted_all: "card (pi_saddr ` set ws) \<le> FIRST_LAYER_TABLE_LENGTH \<Longrightarrow> counted ws = ws"
proof -
  assume "card (pi_saddr ` set ws) \<le> FIRST_LAYER_TABLE_LENGTH"
  then have "length (first_seen (map pi_saddr ws)) \<le> FIRST_LAYER_TABLE_LENGTH"
    using distinct_card [OF distinct_first_seen, of "map pi_saddr ws"] by simp
  then have "set (tracked ws) = pi_saddr ` set ws" by (simp add: tracked_def)
  then show ?thesis by (simp add: counted_def)
qed

text \<open>the second layer table is a bounded log: stored through the shift loop, any sequence of
  slices leaves exactly the last 512 of them, oldest first, and no store traps.\<close>

theorem history_is_last_512:
  "\<exists>s. run_all push_slice rs second_layer_start = Some s \<and> history s = lastn 512 rs"
  using slice_log.push_all [OF wf_second_start, of rs]
  by (auto simp: history_start SECOND_LAYER_TABLE_LENGTH_def)

text \<open>the hook is passive: after any traffic, for any packet (also one without a buffer or
  without a network header), \<open>catch_traffic\<close> returns \<open>NF_ACCEPT\<close>; a packet it can see is
  accounted as the specification does, any other changes nothing.\<close>

theorem catch_traffic_accepts:
  "\<exists>s s'. run_all handle es core_start = Some s \<and> catch_traffic c skb s = Some (NF_ACCEPT, s') \<and>
     (case skb of
        None \<Rightarrow> s' = s
      | Some b \<Rightarrow> (case skb_network_header b of
          None \<Rightarrow> s' = s
        | Some iph \<Rightarrow> refines (spec_step c (packet_of iph (skb_transport_syn b)) (spec_run es)) s'))"
proof -
  obtain s where s: "run_all handle es core_start = Some s" "refines (spec_run es) s"
    using packet_handler.from_start [of es] by (auto simp: core_represents_def)
  show ?thesis
  proof (cases "skb = None \<or> skb_network_header (the skb) = None")
    case True
    with s(1) show ?thesis by (auto simp: catch_traffic_def split: option.splits)
  next
    case False
    then obtain b iph where b: "skb = Some b" "skb_network_header b = Some iph" by auto
    with add_packet_info_refines [OF s(2), of c "packet_of iph (skb_transport_syn b)"] s(1) show ?thesis
      by (auto simp: catch_traffic_def)
  qed
qed

section \<open>The detector\<close>

text \<open>C2: the detector decides as intended while nothing wraps: if the 32-bit sums, products and
  limits of the history stay in range, the newest slice is marked exactly when some watched value
  exceeds 130 percent of its average over the earlier slices plus its base, it is marked with the
  first such property in the order of the tests, and nothing else of the history changes.\<close>

theorem detector_exact:
  assumes "wf_second s" "history s = h @ [r]" "h \<noteq> []"
    and "\<And>p g. (p, g) \<in> set watched \<Longrightarrow> in_range g h"
  shows "\<exists>s'. inspect_last s = Some s' \<and> history s' = h @
    [case find (\<lambda>(p, g). exact_limit g h < unat (g r)) watched of
       None \<Rightarrow> r | Some (p, g) \<Rightarrow> mark_crit p r]"
proof -
  obtain s' where s': "inspect_last s = Some s'" "history s' = h @ [classify h r]"
    using inspect_last_spec [OF assms(1,2)] by blast
  have "classify h r = (case find (\<lambda>(p, g). exact_limit g h < unat (g r)) watched of
       None \<Rightarrow> r | Some (p, g) \<Rightarrow> mark_crit p r)"
    using assms(3) by (simp add: classify_def verdict_exact [OF assms(4)] split: option.split prod.split)
  with s' show ?thesis by metis
qed

text \<open>of several exceeded properties the detector reports the first of the enumeration: the verdict
  is \<open>None\<close> exactly when no watched value exceeds its limit, and otherwise the least property
  (in the order of the enumerators' values) whose value does.\<close>

theorem verdict_is_least:
  "inspect_verdict r avg =
     (let crit = {p. \<exists>g. (p, g) \<in> set watched \<and> exceeds (g r) (g avg) (g initial_vec)} in
      if crit = {} then None else Some (Min crit))"
proof -
  let ?P = "\<lambda>(p, g). exceeds (g r) (g avg) (g initial_vec)"
  let ?crit = "{p. \<exists>g. (p, g) \<in> set watched \<and> exceeds (g r) (g avg) (g initial_vec)}"
  have fin: "finite ?crit" by (rule finite_subset [of _ "fst ` set watched"]) force+
  show ?thesis
  proof (cases "find ?P watched")
    case None
    then have "?crit = {}" by (auto simp: find_None_iff)
    with None show ?thesis by (simp add: inspect_verdict_find)
  next
    case (Some x)
    then have x: "x \<in> set watched" "?P x"
      unfolding find_Some_iff by (metis nth_mem)+
    obtain q g where q: "x = (q, g)" by (cases x)
    with x have "(q, g) \<in> set watched \<and> exceeds (g r) (g avg) (g initial_vec)" by simp
    then have "fst x \<in> ?crit" using q by auto
    moreover have "fst x \<le> q" if "q \<in> ?crit" for q
      using that find_first_least [OF watched_sorted Some] by force
    ultimately have "Min ?crit = fst x" "?crit \<noteq> {}" using fin by (auto intro: Min_eqI)
    with Some show ?thesis by (simp add: inspect_verdict_find Let_def)
  qed
qed

lemma two_slices:
  obtains s where "wf_second s" "history s = [a] @ [b]"
  using slice_log.push_all [OF wf_second_start, of "[a, b]"]
  by (auto simp: history_start SECOND_LAYER_TABLE_LENGTH_def)

theorem detector_exact_witness:
  "\<exists>s s'. history s = [zero_slice\<lparr>sl_tot_syn := 100\<rparr>, zero_slice\<lparr>sl_tot_tcp := 50, sl_tot_syn := 231\<rparr>] \<and>
     inspect_last s = Some s' \<and>
     history s' = [zero_slice\<lparr>sl_tot_syn := 100\<rparr>,
       mark_crit CRIT_BEHAVIOUR_PROPERTY_TOT_SYN (zero_slice\<lparr>sl_tot_tcp := 50, sl_tot_syn := 231\<rparr>)]"
proof -
  let ?a = "zero_slice\<lparr>sl_tot_syn := 100\<rparr>" and ?b = "zero_slice\<lparr>sl_tot_tcp := 50, sl_tot_syn := 231\<rparr>"
  obtain s where s: "wf_second s" "history s = [?a] @ [?b]" by (rule two_slices)
  have range: "(p, g) \<in> set watched \<Longrightarrow> in_range g [?a]" for p g
    by (auto simp: watched_def in_range_def exact_limit_def mean_def initial_vec_def zero_slice_def)
  have find: "find (\<lambda>(p, g). exact_limit g [?a] < unat (g ?b)) watched =
      Some (CRIT_BEHAVIOUR_PROPERTY_TOT_SYN, sl_tot_syn)"
    by (simp add: watched_def exact_limit_def mean_def initial_vec_def zero_slice_def)
  from detector_exact [OF s _ range] s(2) find show ?thesis by auto
qed

text \<open>Out of that range the 32-bit limit wraps: with an average of 33038210 bytes a window, a
  window of 1000001 bytes (a thirtieth of the average, and a fortieth of the intended limit) is
  marked as an increase of \<open>tot_len\<close>.\<close>

theorem detector_wraps:
  "\<exists>s s' a b. history s = [a, b] \<and> sl_tot_len a = 33038210 \<and> sl_tot_len b = 1000001 \<and>
     exact_limit sl_tot_len [a] = 43949673 \<and> inspect_last s = Some s' \<and>
     history s' = [a, mark_crit CRIT_BEHAVIOUR_PROPERTY_TOT_LEN b]"
proof -
  let ?a = "zero_slice\<lparr>sl_tot_len := 33038210\<rparr>" and ?b = "zero_slice\<lparr>sl_tot_len := 1000001\<rparr>"
  obtain s where s: "wf_second s" "history s = [?a] @ [?b]" by (rule two_slices)
  have limit: "exact_limit sl_tot_len [?a] = 43949673"
    by (simp add: exact_limit_def mean_def initial_vec_def zero_slice_def)
  have "inspect_verdict ?b (average [?a]) = Some CRIT_BEHAVIOUR_PROPERTY_TOT_LEN"
    by (simp add: inspect_verdict_def exceeds_iff limit32_def eps_percent_def average_def divide_slice_def
        add_slice_def udiv_size_def initial_vec_def zero_slice_def)
  then have "classify [?a] ?b = mark_crit CRIT_BEHAVIOUR_PROPERTY_TOT_LEN ?b"
    by (simp add: classify_def)
  with inspect_last_spec [OF s] obtain s' where
    "inspect_last s = Some s'" "history s' = [?a] @ [mark_crit CRIT_BEHAVIOUR_PROPERTY_TOT_LEN ?b]"
    by auto
  with s(2) limit show ?thesis
    by (intro exI [of _ s] exI [of _ s'] exI [of _ ?a] exI [of _ ?b]) simp
qed

section \<open>The devices and the control program\<close>

lemma handle_read_index:
  "refines a s \<Longrightarrow> run_all handle es s = Some s' \<Longrightarrow>
   second_layer_table_read_index (second_tab s') = second_layer_table_read_index (second_tab s)"
proof (induction es arbitrary: a s)
  case Nil
  then show ?case by simp
next
  case (Cons e es)
  obtain t where t: "add_packet_info (fst e) (snd e) s = Some t" "refines (spec_step (fst e) (snd e) a) t"
    "second_layer_table_read_index (second_tab t) = second_layer_table_read_index (second_tab s)"
    using add_packet_info_refines [OF Cons.prems(1)] by blast
  have "handle e s = Some t" using t(1) by (simp add: handle_def)
  with Cons.prems(2) have "run_all handle es t = Some s'" by simp
  from Cons.IH [OF t(2) this] t(3) show ?case by simp
qed

text \<open>The module after a sequence of packets, as the devices see it.\<close>

lemma after_traffic:
  obtains s where "run_all handle es core_start = Some s" "wf_second (second_tab s)"
    "history (second_tab s) = lastn 512 (sp_log (spec_run es))"
    "second_layer_table_read_index (second_tab s) = 0"
proof -
  obtain s where s: "run_all handle es core_start = Some s" "refines (spec_run es) s"
    using packet_handler.from_start [of es] by (auto simp: core_represents_def)
  have "second_layer_table_read_index (second_tab core_start) = 0"
    by (simp add: core_start_def second_layer_start_def)
  with handle_read_index [OF refines_start s(1)] s that show thesis
    by (simp add: refines_def SECOND_LAYER_TABLE_LENGTH_def)
qed


text \<open>Every slice of the log carries the seconds of some call.\<close>

lemma spec_log_times:
  "\<forall>e\<in>set es. ck_seconds (fst e) \<noteq> 0 \<Longrightarrow> \<forall>r\<in>set (sp_log a). sl_from_time r \<noteq> 0 \<Longrightarrow>
   \<forall>r\<in>set (sp_log (fold (\<lambda>e. spec_step (fst e) (snd e)) es a)). sl_from_time r \<noteq> 0"
proof (induction es arbitrary: a)
  case (Cons e es)
  have "\<forall>r\<in>set (sp_log (spec_step (fst e) (snd e) a)). sl_from_time r \<noteq> 0"
    using Cons.prems by (auto simp: spec_step_def spec_rotate_def log_slice_def Let_def row_simps
        slice_of_def slice_row_def)
  with Cons show ?case by simp
qed simp

lemma log_times:
  "\<forall>e\<in>set es. ck_seconds (fst e) \<noteq> 0 \<Longrightarrow> \<forall>r\<in>set (sp_log (spec_run es)). sl_from_time r \<noteq> 0"
  unfolding spec_run_def by (rule spec_log_times) (simp_all add: spec_start_def)

text \<open>\<open>cli stats\<close> shows the statistics of the history: after any traffic whose dumps read a
  non-zero clock it exits with 0 and prints the number of slices kept, the time between the first
  and the last, how many are critical, and the times of the first and the last critical one; the
  module does not change.\<close>

theorem cli_stats_prints_statistics:
  assumes "\<And>e. e \<in> set es \<Longrightarrow> ck_seconds (fst e) \<noteq> 0"
  shows "\<exists>s. run_all handle es core_start = Some s \<and>
     cli_main ops this \<lparr>ce_opened = True, ce_left = \<lambda>_. 0\<rparr> [prog, ''stats'']
       \<lparr>km_second = second_tab s, km_visibility = v\<rparr> =
     Some (0, print_stats (stats_of (lastn 512 (sp_log (spec_run es)))),
       \<lparr>km_second = second_tab s, km_visibility = v\<rparr>)"
proof -
  obtain s where s: "run_all handle es core_start = Some s" "wf_second (second_tab s)"
    "history (second_tab s) = lastn 512 (sp_log (spec_run es))"
    by (rule after_traffic)
  have "\<forall>r \<in> set (sp_log (spec_run es)). sl_from_time r \<noteq> 0"
    by (rule log_times) (use assms in blast)
  then have "\<forall>r \<in> set (history (second_tab s)). sl_crit_behaviour r > 0 \<longrightarrow> sl_from_time r \<noteq> 0"
    using s(3) set_drop_subset by (fastforce simp: lastn_def)
  from read_stats_spec [OF s(2) this] s show ?thesis
    by (simp add: cli_main_def show_stats_def)
qed

text \<open>List operations with these laws: lists of nodes themselves.\<close>

definition plain_ops :: "(nat, nat list) list_ops" where
  "plain_ops = \<lparr>list_prev = (\<lambda>m l. last (takeWhile (\<lambda>x. x \<noteq> m) l)),
     list_del = (\<lambda>m l. filter (\<lambda>x. x \<noteq> m) l),
     list_add = (\<lambda>m p l. concat (map (\<lambda>x. if x = p then [p, m] else [x]) l))\<rparr>"

text \<open>Two windows: the second call dumps the first.\<close>

definition two_windows :: "(clock \<times> packet_info) list" where
  "two_windows = [
     (\<lparr>ck_ns_test = 20000000000, ck_seconds = 20, ck_ns_reset = 20000000001\<rparr>,
      \<lparr>pi_saddr = 1, pi_tot_len = 60, pi_is_tcp = 1, pi_is_syn = 1\<rparr>),
     (\<lparr>ck_ns_test = 40000000000, ck_seconds = 40, ck_ns_reset = 40000000001\<rparr>,
      \<lparr>pi_saddr = 2, pi_tot_len = 40, pi_is_tcp = 0, pi_is_syn = 0\<rparr>)]"

definition exposed :: "(nat, nat list) visibility" where
  "exposed = \<lparr>module_list = [1, 2, 7, 3], module_prev = None, flag_hidden = 0\<rparr>"

theorem cli_stats_prints_statistics_witness:
  "\<exists>s. run_all handle two_windows core_start = Some s \<and> length (sp_log (spec_run two_windows)) = 1 \<and>
     cli_main plain_ops 7 \<lparr>ce_opened = True, ce_left = \<lambda>_. 0\<rparr> [''cli'', ''stats'']
       \<lparr>km_second = second_tab s, km_visibility = exposed\<rparr> =
     Some (0, print_stats (stats_of (lastn 512 (sp_log (spec_run two_windows)))),
       \<lparr>km_second = second_tab s, km_visibility = exposed\<rparr>)"
proof -
  have seconds: "e \<in> set two_windows \<Longrightarrow> ck_seconds (fst e) \<noteq> 0" for e
    by (auto simp: two_windows_def)
  have "length (sp_log (spec_run two_windows)) = 1"
    by (simp add: spec_run_def two_windows_def spec_step_def spec_rotate_def spec_start_def
        dump_ns_periud_def log_slice_def Let_def word_less_nat_alt)
  with cli_stats_prints_statistics [where es = two_windows and ops = plain_ops and this = 7
      and prog = "''cli''" and v = exposed, OF seconds]
  show ?thesis by blast
qed

text \<open>the names \<open>cli\<close> prints for the kernel's properties are total and unambiguous: the
  kernel's enumeration, copied by value into the user's one, is printed with its own name.\<close>

theorem property_names_unambiguous:
  "get_property_name (l2_property_of p) = get_property_name (l2_property_of q) \<longleftrightarrow> p = q"
proof -
  have "property_names ! property_value p = property_names ! property_value q \<longleftrightarrow>
      property_value p = property_value q"
    using distinct_property_names property_value_bound by (simp add: nth_eq_iff_index_eq)
  then show ?thesis by (auto simp: get_property_name_kernel dest: property_value_inj)
qed

section \<open>Hiding, loading and unloading\<close>

text \<open>hiding is exact and reversible: for kernel list operations with the behaviour linux/list.h
  documents, any sequence of commands (repeated, unknown or unmatched ones too) keeps the module
  list intact but for the module's own entry; the module is out of the list exactly when the last
  effective command was a hide, and an unhide puts it back at the place it had.\<close>

theorem commands_hide_and_expose:
  assumes "list_laws ops ring" "flag_hidden v = 0" "ring (module_list v) = xs @ p # this # ys"
    "distinct (xs @ p # this # ys)"
  shows "\<exists>v'. run_commands ops this cmds v = Some v' \<and>
    (flag_hidden v' \<noteq> 0 \<longleftrightarrow> hidden_after cmds False) \<and>
    ring (module_list v') = (if hidden_after cmds False then xs @ p # ys else xs @ p # this # ys)"
proof -
  have "visible_at ring this xs p ys v" using assms by (simp add: visible_at_def)
  from run_commands_visible [OF assms(1) this, of cmds] assms(2) show ?thesis
    by (auto simp: visible_at_def)
qed

lemma concat_insert_after:
  "p \<notin> set xs \<Longrightarrow> concat (map (\<lambda>x. if x = p then [p, m] else [x]) xs) = xs"
  by (induction xs) auto

lemma filter_neq_id: "m \<notin> set xs \<Longrightarrow> filter (\<lambda>x. x \<noteq> m) xs = xs"
  by (induction xs) auto

lemma takeWhile_before: "m \<notin> set xs \<Longrightarrow> p \<noteq> m \<Longrightarrow> takeWhile (\<lambda>x. x \<noteq> m) (xs @ p # m # ys) = xs @ [p]"
  by (induction xs) auto

lemma plain_ops_laws: "list_laws plain_ops (\<lambda>l. l)"
  by (auto simp: list_laws_def plain_ops_def concat_insert_after filter_neq_id takeWhile_before)

theorem commands_hide_and_expose_witness:
  "\<exists>v'. run_commands plain_ops 7 [HIDE, HIDE, 5, UNHIDE, HIDE, UNHIDE, UNHIDE]
       exposed = Some v' \<and>
     module_list v' = [1, 2, 7, 3] \<and> flag_hidden v' = 0"
proof -
  have "\<not> hidden_after [HIDE, HIDE, 5, UNHIDE, HIDE, UNHIDE, UNHIDE] False"
    by (simp add: hidden_after_def HIDE_def UNHIDE_def)
  moreover have "flag_hidden exposed = 0" "module_list exposed = [1] @ 2 # 7 # [3]"
    "distinct ([1] @ 2 # 7 # [3::nat])"
    by (simp_all add: exposed_def)
  ultimately show ?thesis
    using commands_hide_and_expose [OF plain_ops_laws, of exposed "[1]" 2 7 "[3]"
        "[HIDE, HIDE, 5, UNHIDE, HIDE, UNHIDE, UNHIDE]"]
    by auto
qed

text \<open>loading and unloading are inverse when nothing fails: a successful \<open>my_module_init\<close>
  (which has registered the three devices) followed by \<open>my_module_exit\<close> leaves no registration
  of the module, whatever the result of the hook's registration was.\<close>

theorem init_then_exit_clean:
  "fst (my_module_init hooked 0 0 0 {}) = 0 \<and>
   {Dev_l2_data, Dev_stats, Dev_ctrl} \<subseteq> snd (my_module_init hooked 0 0 0 {}) \<and>
   my_module_exit (snd (my_module_init hooked 0 0 0 {})) = {}"
  by (auto simp: my_module_init_def my_module_exit_def Let_def)

text \<open>a failed \<open>my_module_init\<close> leaks: when the registration of a later device fails, the
  function returns the error while the netfilter hook and the earlier devices stay registered, for
  a module the kernel will unload.\<close>

theorem failed_init_leaks:
  assumes "rc_ctrl \<noteq> 0"
  shows "my_module_init True 0 0 rc_ctrl {} = (rc_ctrl, {Net_hook, Dev_l2_data, Dev_stats})"
  using assms by (auto simp: my_module_init_def Let_def)

theorem failed_init_leaks_witness:
  "my_module_init True 0 0 (- 16) {} = (- 16, {Net_hook, Dev_l2_data, Dev_stats})"
  by (rule failed_init_leaks) simp

end
