(* ===== verification/Transition_Systems.thy ===== *)
theory Transition_Systems
  imports Prelude
begin

text \<open>
  The interface between the concurrent programs and their correctness arguments. A program is
  a scheduler-driven machine: \<open>exec i s\<close> is the next step of process \<open>i\<close>, or
  \<open>None\<close> when the process is blocked or has exited. \<open>sched_step\<close> lets any
  process move. The locales state what a component proves of its own steps once (an invariant,
  enabledness, a decreasing rank) and what follows for all its runs.
\<close>

section \<open>Scheduled steps and runs\<close>

inductive sched_step :: "('i \<Rightarrow> 's \<Rightarrow> 's option) \<Rightarrow> 's \<Rightarrow> 's \<Rightarrow> bool"
  for exec :: "'i \<Rightarrow> 's \<Rightarrow> 's option" where
  sched: "exec i s = Some t \<Longrightarrow> sched_step exec s t"

inductive_simps sched_step_iff: "sched_step exec s t"

inductive_cases sched_stepE [elim!]: "sched_step exec s t"

text \<open>A run along a given schedule; it stops with \<open>None\<close> where the chosen process cannot move.\<close>

fun run_schedule :: "('i \<Rightarrow> 's \<Rightarrow> 's option) \<Rightarrow> 'i list \<Rightarrow> 's \<Rightarrow> 's option" where
  "run_schedule exec [] s = Some s"
| "run_schedule exec (i # is) s =
     (case exec i s of None \<Rightarrow> None | Some t \<Rightarrow> run_schedule exec is t)"

lemma run_schedule_append:
  "run_schedule exec (xs @ ys) s = Option.bind (run_schedule exec xs s) (run_schedule exec ys)"
  by (induction xs arbitrary: s) (simp_all split: option.splits)

lemma run_schedule_reaches:
  "run_schedule exec is s = Some t \<Longrightarrow> (sched_step exec)\<^sup>*\<^sup>* s t"
proof (induction "is" arbitrary: s)
  case Nil
  then show ?case by simp
next
  case (Cons i "is")
  then obtain u where u: "exec i s = Some u" "run_schedule exec is u = Some t"
    by (auto split: option.splits)
  then have "sched_step exec s u" by (auto intro: sched)
  moreover have "(sched_step exec)\<^sup>*\<^sup>* u t" using Cons.IH u(2) by blast
  ultimately show ?case by (rule converse_rtranclp_into_rtranclp)
qed

lemma run_schedule_relpow:
  "run_schedule exec is s = Some t \<Longrightarrow> (sched_step exec ^^ length is) s t"
proof (induction "is" arbitrary: s)
  case (Cons i "is")
  then obtain u where u: "exec i s = Some u" "run_schedule exec is u = Some t"
    by (auto split: option.splits)
  then have "sched_step exec s u" by (auto intro: sched)
  moreover have "(sched_step exec ^^ length is) u t" using Cons.IH u(2) by blast
  ultimately have "(sched_step exec ^^ Suc (length is)) s t" by (rule relpowp_Suc_I2)
  then show ?case by (simp only: length_Cons)
qed simp

lemma run_schedule_cycle:
  assumes "run_schedule exec (i # is) s = Some s"
  shows "(sched_step exec)\<^sup>+\<^sup>+ s s"
proof -
  from assms obtain u where u: "exec i s = Some u" "run_schedule exec is u = Some s"
    by (auto split: option.splits)
  then have "sched_step exec s u" by (auto intro: sched)
  with run_schedule_reaches [OF u(2)] show ?thesis by (rule rtranclp_into_tranclp2 [rotated])
qed

section \<open>What a component proves, and what follows\<close>

locale invariant_system =
  fixes init :: 's
    and step :: "'s \<Rightarrow> 's \<Rightarrow> bool"
    and inv :: "'s \<Rightarrow> bool"
  assumes inv_init: "inv init"
    and inv_step: "inv s \<Longrightarrow> step s t \<Longrightarrow> inv t"
begin

lemma inv_steps: "step\<^sup>*\<^sup>* s t \<Longrightarrow> inv s \<Longrightarrow> inv t"
  by (induction rule: rtranclp_induct) (auto intro: inv_step)

lemma reachable_inv: "step\<^sup>*\<^sup>* init t \<Longrightarrow> inv t"
  using inv_steps inv_init by blast

end

text \<open>Some process can always move until the program is done.\<close>

locale deadlock_free_system = invariant_system +
  fixes final :: "'s \<Rightarrow> bool"
  assumes enabled: "inv s \<Longrightarrow> \<not> final s \<Longrightarrow> \<exists>t. step s t"
begin

lemma reachable_enabled: "step\<^sup>*\<^sup>* init t \<Longrightarrow> final t \<or> (\<exists>u. step t u)"
  using reachable_inv enabled by blast

lemma stuck_final: "step\<^sup>*\<^sup>* init t \<Longrightarrow> (\<And>u. \<not> step t u) \<Longrightarrow> final t"
  using reachable_enabled by blast

end

text \<open>From every reachable state some schedule finishes the program.\<close>

locale attainable_system = invariant_system +
  fixes final :: "'s \<Rightarrow> bool" and rank :: "'s \<Rightarrow> nat"
  assumes closer: "inv s \<Longrightarrow> \<not> final s \<Longrightarrow> \<exists>t. step s t \<and> rank t < rank s"
begin

sublocale deadlock_free_system init step inv final
  by unfold_locales (use closer in blast)

lemma inv_can_finish: "inv s \<Longrightarrow> \<exists>t. step\<^sup>*\<^sup>* s t \<and> final t"
proof (induction "rank s" arbitrary: s rule: less_induct)
  case less
  show ?case
  proof (cases "final s")
    case True
    then show ?thesis by blast
  next
    case False
    with less.prems closer obtain t where t: "step s t" "rank t < rank s" by blast
    with less inv_step obtain u where "step\<^sup>*\<^sup>* t u" "final u" by blast
    with t show ?thesis by (meson converse_rtranclp_into_rtranclp)
  qed
qed

lemma reachable_can_finish: "step\<^sup>*\<^sup>* init s \<Longrightarrow> \<exists>t. step\<^sup>*\<^sup>* s t \<and> final t"
  using reachable_inv inv_can_finish by blast

end

text \<open>Every step brings the program closer to its end, so every schedule finishes it.\<close>

locale terminating_system = deadlock_free_system +
  fixes rank :: "'s \<Rightarrow> nat"
  assumes decreasing: "inv s \<Longrightarrow> step s t \<Longrightarrow> rank t < rank s"
begin

sublocale attainable_system init step inv final rank
  by unfold_locales (use enabled decreasing in blast)

lemma inv_run_bound: "(step ^^ n) s t \<Longrightarrow> inv s \<Longrightarrow> n + rank t \<le> rank s \<and> inv t"
proof (induction n arbitrary: t)
  case 0
  then show ?case by simp
next
  case (Suc n)
  then obtain u where u: "(step ^^ n) s u" "step u t" by auto
  with Suc have *: "n + rank u \<le> rank s" "inv u" by blast+
  with u decreasing have "rank t < rank u" by blast
  with * u inv_step show ?case by fastforce
qed

lemma run_bound: "(step ^^ n) init t \<Longrightarrow> n \<le> rank init"
  using inv_run_bound inv_init by fastforce

text \<open>So every run can be continued until nothing moves.\<close>

lemma maximal_run: "inv s \<Longrightarrow> \<exists>n t. (step ^^ n) s t \<and> (\<forall>u. \<not> step t u)"
proof (induction "rank s" arbitrary: s rule: less_induct)
  case less
  show ?case
  proof (cases "\<exists>u. step s u")
    case True
    then obtain u where u: "step s u" by blast
    with less.prems decreasing inv_step have "rank u < rank s" "inv u" by blast+
    with less.hyps obtain n t where "(step ^^ n) u t" "\<forall>v. \<not> step t v" by blast
    with u show ?thesis by (metis relpowp_Suc_I2)
  next
    case False
    then show ?thesis by (metis relpowp_0_I)
  qed
qed

lemma no_infinite_run: "f 0 = init \<Longrightarrow> \<exists>i. \<not> step (f i) (f (Suc i))"
proof (rule ccontr)
  assume f0: "f 0 = init" and "\<nexists>i. \<not> step (f i) (f (Suc i))"
  then have all: "\<And>i. step (f i) (f (Suc i))" by blast
  have "(step ^^ n) init (f n)" for n
    by (induction n) (use f0 all in auto)
  from run_bound [OF this [of "Suc (rank init)"]] show False by simp
qed

end

end
