(* ===== verification/Sysv_Processes.thy ===== *)
theory Sysv_Processes
  imports Transition_Systems
begin

text \<open>
  What the two programs of sem_05/lab_04 share: System V semaphore sets (\<open>semop\<close> with
  the semantics of semop(2)), the parent process that forks its children, waits for each of
  them and removes the semaphore set, and sums over a list of processes (\<open>tally\<close>), in
  which their invariants are stated.
\<close>

section \<open>Semaphore sets\<close>

record sembuf =
  sem_num :: nat
  sem_op :: int
  sem_flg :: nat

text \<open>The C initialiser \<open>{num, op, flg}\<close>.\<close>

definition sb :: "nat \<Rightarrow> int \<Rightarrow> nat \<Rightarrow> sembuf" where
  "sb n k f = \<lparr>sem_num = n, sem_op = k, sem_flg = f\<rparr>"

definition SEMVMX :: nat where
  "SEMVMX = 32767"

datatype semop_result = Sem_wait | Sem_fail | Sem_ok "nat list"

text \<open>
  The operations of one call are performed in array order and all or nothing: when one of them
  would have to wait (or fails), none has an effect. No operation of the sources sets
  \<open>IPC_NOWAIT\<close> or \<open>SEM_UNDO\<close>.
\<close>

fun semop :: "sembuf list \<Rightarrow> nat list \<Rightarrow> semop_result" where
  "semop [] v = Sem_ok v"
| "semop (b # bs) v =
     (if length v \<le> sem_num b then Sem_fail
      else if sem_op b = 0 then (if v ! sem_num b = 0 then semop bs v else Sem_wait)
      else if int (v ! sem_num b) + sem_op b < 0 then Sem_wait
      else if int SEMVMX < int (v ! sem_num b) + sem_op b then Sem_fail
      else semop bs (v[sem_num b := nat (int (v ! sem_num b) + sem_op b)]))"

text \<open>A call on a set that was removed fails.\<close>

definition semop_on :: "sembuf list \<Rightarrow> nat list option \<Rightarrow> semop_result" where
  "semop_on bs sems = (case sems of None \<Rightarrow> Sem_fail | Some v \<Rightarrow> semop bs v)"

lemma semop_on_simps [simp]:
  "semop_on bs None = Sem_fail" "semop_on bs (Some v) = semop bs v"
  by (simp_all add: semop_on_def)

lemma sb_simps [simp]: "sem_num (sb n k f) = n" "sem_op (sb n k f) = k" "sem_flg (sb n k f) = f"
  by (simp_all add: sb_def)

text \<open>What a call that returns has done: each value moved by the sum of its operations.\<close>

definition net_change :: "nat \<Rightarrow> sembuf list \<Rightarrow> int" where
  "net_change k bs = sum_list (map sem_op (filter (\<lambda>b. sem_num b = k) bs))"

lemma semop_length: "semop bs v = Sem_ok v' \<Longrightarrow> length v' = length v"
  by (induction bs arbitrary: v) (auto split: if_splits)

lemma semop_conserves:
  "semop bs v = Sem_ok v' \<Longrightarrow> k < length v \<Longrightarrow> int (v' ! k) = int (v ! k) + net_change k bs"
proof (induction bs v rule: semop.induct)
  case (1 v)
  then show ?case by (simp add: net_change_def)
next
  case (2 b bs v)
  then show ?case
    by (cases "sem_num b = k") (auto simp: net_change_def nth_list_update split: if_splits)
qed

section \<open>The parent process\<close>

text \<open>
  \<open>Forking k\<close>: about to fork child \<open>k\<close>; \<open>Waiting k\<close>: \<open>k\<close> calls of
  \<open>wait\<close> have returned; \<open>Removing\<close>: about to detach the segment and remove it and
  the semaphore set; \<open>Returned c\<close>: main has returned \<open>c\<close>. Every child ends by
  \<open>exit\<close>, so \<open>WIFEXITED\<close> holds whatever its status is.
\<close>

datatype parent_loc = Forking nat | Waiting nat | Removing | Returned int

fun parent_next :: "nat \<Rightarrow> nat \<Rightarrow> parent_loc \<Rightarrow> parent_loc option" where
  "parent_next n exited (Forking k) = Some (if k < n then Forking (Suc k) else Waiting 0)"
| "parent_next n exited (Waiting k) =
     (if k < n then (if k < exited then Some (Waiting (Suc k)) else None) else Some Removing)"
| "parent_next n exited Removing = Some (Returned 0)"
| "parent_next n exited (Returned c) = None"

text \<open>Progress of the parent, counted down.\<close>

fun parent_rank :: "nat \<Rightarrow> parent_loc \<Rightarrow> nat" where
  "parent_rank n (Forking k) = (n - k) + n + 3"
| "parent_rank n (Waiting k) = (n - k) + 2"
| "parent_rank n Removing = 1"
| "parent_rank n (Returned c) = 0"

lemma parent_rank_decreases:
  "parent_next n x p = Some q \<Longrightarrow> parent_rank n q < parent_rank n p"
  by (cases p) (auto split: if_splits)

section \<open>Sums over processes\<close>

definition tally :: "('a \<Rightarrow> nat) \<Rightarrow> 'a list \<Rightarrow> nat" where
  "tally f ws = sum_list (map f ws)"

lemma tally_simps [simp]:
  "tally f [] = 0" "tally f (w # ws) = f w + tally f ws" "tally f (us @ ws) = tally f us + tally f ws"
  by (simp_all add: tally_def)

lemma tally_update:
  "j < length ws \<Longrightarrow> tally f (ws[j := w]) + f (ws ! j) = tally f ws + f w"
proof (induction ws arbitrary: j)
  case (Cons v ws)
  then show ?case by (cases j) auto
qed simp

lemma tally_update_same:
  "j < length ws \<Longrightarrow> f w = f (ws ! j) \<Longrightarrow> tally f (ws[j := w]) = tally f ws"
  using tally_update [of j ws f w] by simp

lemma tally_elem: "j < length ws \<Longrightarrow> f (ws ! j) \<le> tally f ws"
  by (induction ws arbitrary: j) (auto simp: nth_Cons trans_le_add2 split: nat.splits)

lemma tally_mono: "(\<And>w. w \<in> set ws \<Longrightarrow> f w \<le> g w) \<Longrightarrow> tally f ws \<le> tally g ws"
  by (induction ws) (fastforce simp: add_mono)+

lemma tally_eq_0: "tally f ws = 0 \<longleftrightarrow> (\<forall>w\<in>set ws. f w = 0)"
  by (induction ws) auto

lemma tally_le: "(\<And>w. w \<in> set ws \<Longrightarrow> f w \<le> b) \<Longrightarrow> tally f ws \<le> b * length ws"
  by (induction ws) (fastforce simp: add_mono)+

text \<open>When only one process contributes to \<open>g\<close>, it is the only one that can contribute to
  anything below \<open>g\<close>.\<close>

lemma tally_two:
  assumes "j < length ws" "k < length ws" "j \<noteq> k"
  shows "g (ws ! j) + g (ws ! k) \<le> tally g ws"
  using assms
proof (induction ws arbitrary: j k)
  case (Cons w ws)
  show ?case
  proof (cases j)
    case 0
    with Cons.prems obtain m where "k = Suc m" "m < length ws" by (cases k) auto
    with 0 tally_elem [of m ws g] show ?thesis by simp
  next
    case (Suc i)
    show ?thesis
    proof (cases k)
      case 0
      with Suc Cons.prems tally_elem [of i ws g] show ?thesis by simp
    next
      case (Suc m)
      with \<open>j = Suc i\<close> Cons.prems Cons.IH [of i m] show ?thesis by simp
    qed
  qed
qed simp

lemma tally_alone:
  assumes j: "j < length ws" and one: "tally g ws \<le> 1" and "g (ws ! j) = 1"
    and le: "\<And>w. f w \<le> g w"
  shows "tally f ws = f (ws ! j)"
proof -
  have split: "ws = take j ws @ ws ! j # drop (Suc j) ws" using j by (rule id_take_nth_drop)
  have "tally g ws = tally g (take j ws) + g (ws ! j) + tally g (drop (Suc j) ws)"
    by (subst split) simp
  with one assms(3) have "tally g (take j ws) = 0" "tally g (drop (Suc j) ws) = 0" by auto
  moreover have "tally f us \<le> tally g us" for us by (rule tally_mono) (rule le)
  ultimately have "tally f (take j ws) = 0" "tally f (drop (Suc j) ws) = 0" by (metis le_zero_eq)+
  then show ?thesis by (subst split) simp
qed

lemma tally_pos: "0 < tally f ws \<Longrightarrow> \<exists>j<length ws. 0 < f (ws ! j)"
  by (metis tally_eq_0 in_set_conv_nth neq0_conv)

text \<open>A sum of zeros and ones as large as the list is long has only ones.\<close>

lemma tally_all_one:
  assumes le: "\<And>w. f w \<le> (1::nat)"
  shows "length ws \<le> tally f ws \<Longrightarrow> j < length ws \<Longrightarrow> f (ws ! j) = 1"
proof (induction ws arbitrary: j)
  case (Cons w ws)
  have "tally f ws \<le> length ws" using tally_le [of ws f 1] le by simp
  then have "f w = 1" "length ws \<le> tally f ws" using Cons.prems(1) le [of w] by auto
  with Cons show ?case by (cases j) simp_all
qed simp

lemma tally_all_one_conv:
  assumes "tally f ws < length ws"
  shows "\<exists>j<length ws. f (ws ! j) = 0"
proof (rule ccontr)
  assume "\<not> ?thesis"
  then have "1 \<le> f w" if "w \<in> set ws" for w
    using that by (auto simp: in_set_conv_nth Suc_le_eq)
  then have "tally (\<lambda>w. 1) ws \<le> tally f ws" by (intro tally_mono)
  moreover have "tally (\<lambda>w. 1) ws = length ws" by (induction ws) simp_all
  ultimately show False using assms by simp
qed

end
