(* ===== verification/Producer_Consumer.thy ===== *)
theory Producer_Consumer
  imports Sysv_Processes
begin

text \<open>
  sem_05/lab_04/pc: three producers and three consumers of eight items each, over a buffer of
  two shared pointers into one string, synchronised by three semaphores. A process is a program
  counter over the statements of \<open>producer_work\<close> or \<open>consumer_work\<close>; the increment
  of a shared pointer is a load and a store, so the model has the races that the semaphores
  exclude. Any interleaving of the six children and the parent is a run.

  The invariant \<open>pc_inv\<close> relates the semaphores, the pointers and the printed lines to the
  number of items each process has finished; mutual exclusion, the bound of the buffer, the
  order of the items, the absence of deadlock and termination all follow from it.
\<close>

section \<open>The buffer (src/buffer.c)\<close>

definition ALPHABET :: string where
  "ALPHABET = ''abcdefghijklmnopqrstuvwxyzabcdefghijklmnopqrstuvwxyz''"

text \<open>The bytes of the literal; a pointer is an offset into them.\<close>

definition alphabet_bytes :: string where
  "alphabet_bytes = ALPHABET @ [CHR 0x00]"

record buffer_s =
  cptr :: nat
  pptr :: nat

definition init_buffer :: buffer_s where
  "init_buffer = \<lparr>cptr = 0, pptr = 0\<rparr>"

text \<open>The stores of \<open>pptr++\<close> and \<open>*dest = *(cptr++)\<close>, given the pointer that was loaded.\<close>

definition write_buffer :: "nat \<Rightarrow> buffer_s \<Rightarrow> buffer_s" where
  "write_buffer loaded b = b\<lparr>pptr := loaded + 1\<rparr>"

definition read_buffer :: "nat \<Rightarrow> buffer_s \<Rightarrow> (char \<times> buffer_s) option" where
  "read_buffer loaded b =
     (case cell alphabet_bytes loaded of None \<Rightarrow> None | Some c \<Rightarrow> Some (c, b\<lparr>cptr := loaded + 1\<rparr>))"

text \<open>The argument \<open>*(buffer->pptr - 1)\<close> of the producer's line.\<close>

definition last_written :: "buffer_s \<Rightarrow> char option" where
  "last_written b = (case pptr b of 0 \<Rightarrow> None | Suc k \<Rightarrow> cell alphabet_bytes k)"

section \<open>Processes\<close>

datatype pc_role = Producer | Consumer

datatype pc_loc = P_unborn | P_begin | P_load | P_store | P_print | P_end | P_exited int | P_faulted

record pc_worker =
  wk_role :: pc_role
  wk_loc :: pc_loc
  wk_i :: nat
  wk_reg :: nat
  wk_ch :: char

datatype pc_line = Wrote nat char | Read nat char

record pc_state =
  pc_sems :: "nat list option"
  pc_buffer :: buffer_s
  pc_workers :: "pc_worker list"
  pc_parent :: parent_loc
  pc_out :: "pc_line list"

definition producer_begin :: "sembuf list" where
  "producer_begin = [sb 2 (-1) 0, sb 1 (-1) 0]"

definition producer_end :: "sembuf list" where
  "producer_end = [sb 1 1 0, sb 0 1 0]"

definition consume_begin :: "sembuf list" where
  "consume_begin = [sb 0 (-1) 0, sb 1 (-1) 0]"

definition consume_end :: "sembuf list" where
  "consume_end = [sb 1 1 0, sb 2 1 0]"

section \<open>Steps\<close>

definition put_worker :: "nat \<Rightarrow> pc_worker \<Rightarrow> pc_state \<Rightarrow> pc_state" where
  "put_worker j w s = s\<lparr>pc_workers := (pc_workers s)[j := w]\<rparr>"

text \<open>A \<open>semop\<close> statement: blocked, failed (the process exits with -1), or performed.\<close>

definition pc_semop ::
    "sembuf list \<Rightarrow> nat \<Rightarrow> pc_worker \<Rightarrow> pc_worker \<Rightarrow> pc_state \<Rightarrow> pc_state option" where
  "pc_semop ops j w w' s =
     (case semop_on ops (pc_sems s) of
        Sem_wait \<Rightarrow> None
      | Sem_fail \<Rightarrow> Some (put_worker j (w\<lparr>wk_loc := P_exited (-1)\<rparr>) s)
      | Sem_ok v \<Rightarrow> Some (put_worker j w' (s\<lparr>pc_sems := Some v\<rparr>)))"

text \<open>The end of an iteration: the loop counter moves and the child goes round or exits.\<close>

definition next_item :: "pc_worker \<Rightarrow> pc_worker" where
  "next_item w = w\<lparr>wk_i := wk_i w + 1, wk_loc := (if wk_i w + 1 < 8 then P_begin else P_exited 0)\<rparr>"

definition producer_work :: "nat \<Rightarrow> pc_worker \<Rightarrow> pc_state \<Rightarrow> pc_state option" where
  "producer_work j w s =
     (case wk_loc w of
        P_begin \<Rightarrow> pc_semop producer_begin j w (w\<lparr>wk_loc := P_load\<rparr>) s
      | P_load \<Rightarrow> Some (put_worker j (w\<lparr>wk_reg := pptr (pc_buffer s), wk_loc := P_store\<rparr>) s)
      | P_store \<Rightarrow> Some (put_worker j (w\<lparr>wk_loc := P_print\<rparr>)
                      (s\<lparr>pc_buffer := write_buffer (wk_reg w) (pc_buffer s)\<rparr>))
      | P_print \<Rightarrow>
          (case last_written (pc_buffer s) of
             None \<Rightarrow> Some (put_worker j (w\<lparr>wk_loc := P_faulted\<rparr>) s)
           | Some c \<Rightarrow> Some (put_worker j (w\<lparr>wk_loc := P_end\<rparr>)
                         (s\<lparr>pc_out := pc_out s @ [Wrote (j + 1) c]\<rparr>)))
      | P_end \<Rightarrow> pc_semop producer_end j w (next_item w) s
      | _ \<Rightarrow> None)"

definition consumer_work :: "nat \<Rightarrow> pc_worker \<Rightarrow> pc_state \<Rightarrow> pc_state option" where
  "consumer_work j w s =
     (case wk_loc w of
        P_begin \<Rightarrow> pc_semop consume_begin j w (w\<lparr>wk_loc := P_load\<rparr>) s
      | P_load \<Rightarrow> Some (put_worker j (w\<lparr>wk_reg := cptr (pc_buffer s), wk_loc := P_store\<rparr>) s)
      | P_store \<Rightarrow>
          (case read_buffer (wk_reg w) (pc_buffer s) of
             None \<Rightarrow> Some (put_worker j (w\<lparr>wk_loc := P_faulted\<rparr>) s)
           | Some (c, b) \<Rightarrow> Some (put_worker j (w\<lparr>wk_ch := c, wk_loc := P_print\<rparr>) (s\<lparr>pc_buffer := b\<rparr>)))
      | P_print \<Rightarrow> Some (put_worker j (w\<lparr>wk_loc := P_end\<rparr>)
                      (s\<lparr>pc_out := pc_out s @ [Read (j - 3 + 1) (wk_ch w)]\<rparr>))
      | P_end \<Rightarrow> pc_semop consume_end j w (next_item w) s
      | _ \<Rightarrow> None)"

definition worker_exec :: "nat \<Rightarrow> pc_state \<Rightarrow> pc_state option" where
  "worker_exec j s =
     (let w = pc_workers s ! j in
      case wk_role w of Producer \<Rightarrow> producer_work j w s | Consumer \<Rightarrow> consumer_work j w s)"

text \<open>The parent: \<open>producer_create\<close> three times, \<open>consumer_create\<close> three times, six
  \<open>wait\<close>s, and the removal of the set.\<close>

definition exited :: "pc_worker \<Rightarrow> nat" where
  "exited w = (case wk_loc w of P_exited c \<Rightarrow> 1 | _ \<Rightarrow> 0)"

definition pc_parent_exec :: "pc_state \<Rightarrow> pc_state option" where
  "pc_parent_exec s =
     (case parent_next 6 (tally exited (pc_workers s)) (pc_parent s) of
        None \<Rightarrow> None
      | Some p \<Rightarrow>
          Some (case pc_parent s of
            Forking k \<Rightarrow>
              (if k < 6 then put_worker k ((pc_workers s ! k)\<lparr>wk_loc := P_begin\<rparr>) s else s)\<lparr>pc_parent := p\<rparr>
          | Removing \<Rightarrow> s\<lparr>pc_parent := p, pc_sems := None\<rparr>
          | _ \<Rightarrow> s\<lparr>pc_parent := p\<rparr>))"

text \<open>A \<open>fork\<close> that fails: the parent exits with -1 and leaves its children and the set behind.\<close>

definition pc_fork_fails :: "pc_state \<Rightarrow> pc_state option" where
  "pc_fork_fails s =
     (case pc_parent s of Forking k \<Rightarrow> if k < 6 then Some (s\<lparr>pc_parent := Returned (-1)\<rparr>) else None | _ \<Rightarrow> None)"

text \<open>Process 6 is the parent; 7 stands for its \<open>fork\<close> when it fails.\<close>

definition pc_exec :: "nat \<Rightarrow> pc_state \<Rightarrow> pc_state option" where
  "pc_exec i s =
     (if i < 6 then worker_exec i s else if i = 6 then pc_parent_exec s else if i = 7 then pc_fork_fails s else None)"

definition pc_child :: "pc_role \<Rightarrow> pc_worker" where
  "pc_child r = \<lparr>wk_role = r, wk_loc = P_unborn, wk_i = 0, wk_reg = 0, wk_ch = CHR 0x00\<rparr>"

text \<open>The state when the semaphores are set up and the first child is about to be forked.\<close>

definition pc_init :: pc_state where
  "pc_init = \<lparr>pc_sems = Some [0, 1, 5], pc_buffer = init_buffer,
     pc_workers = replicate 3 (pc_child Producer) @ replicate 3 (pc_child Consumer),
     pc_parent = Forking 0, pc_out = []\<rparr>"

section \<open>The invariant\<close>

definition in_cs :: "pc_worker \<Rightarrow> nat" where
  "in_cs w = (if wk_loc w \<in> {P_load, P_store, P_print, P_end} then 1 else 0)"

text \<open>Contributions of one process, by role.\<close>

definition items :: "pc_role \<Rightarrow> pc_worker \<Rightarrow> nat" where
  "items r w = (if wk_role w = r then wk_i w else 0)"

definition inside :: "pc_role \<Rightarrow> pc_worker \<Rightarrow> nat" where
  "inside r w = (if wk_role w = r then in_cs w else 0)"

definition moved :: "pc_role \<Rightarrow> pc_worker \<Rightarrow> nat" where
  "moved r w = (if wk_role w = r \<and> wk_loc w \<in> {P_print, P_end} then 1 else 0)"

definition shown :: "pc_role \<Rightarrow> pc_worker \<Rightarrow> nat" where
  "shown r w = (if wk_role w = r \<and> wk_loc w = P_end then 1 else 0)"

definition produced_chars :: "pc_line list \<Rightarrow> string" where
  "produced_chars ls = concat (map (\<lambda>l. case l of Wrote _ c \<Rightarrow> [c] | Read _ _ \<Rightarrow> []) ls)"

definition consumed_chars :: "pc_line list \<Rightarrow> string" where
  "consumed_chars ls = concat (map (\<lambda>l. case l of Wrote _ _ \<Rightarrow> [] | Read _ c \<Rightarrow> [c]) ls)"

definition worker_ok :: "buffer_s \<Rightarrow> pc_worker \<Rightarrow> bool" where
  "worker_ok b w \<longleftrightarrow>
     (case wk_loc w of
        P_unborn \<Rightarrow> wk_i w = 0
      | P_exited c \<Rightarrow> c = 0 \<and> wk_i w = 8
      | P_faulted \<Rightarrow> False
      | P_begin \<Rightarrow> wk_i w < 8
      | P_load \<Rightarrow> wk_i w < 8
      | P_store \<Rightarrow> wk_i w < 8 \<and> wk_reg w = (case wk_role w of Producer \<Rightarrow> pptr b | Consumer \<Rightarrow> cptr b)
      | P_print \<Rightarrow> wk_i w < 8 \<and> (wk_role w = Consumer \<longrightarrow> wk_ch w = ALPHABET ! (cptr b - 1))
      | P_end \<Rightarrow> wk_i w < 8)"

definition sems_ok :: "nat list \<Rightarrow> pc_worker list \<Rightarrow> bool" where
  "sems_ok v ws \<longleftrightarrow> (\<exists>filled mutex vacant. v = [filled, mutex, vacant] \<and>
     mutex + tally in_cs ws = 1 \<and>
     vacant + tally (items Producer) ws + tally (inside Producer) ws = 5 + tally (items Consumer) ws \<and>
     filled + tally (items Consumer) ws + tally (inside Consumer) ws = tally (items Producer) ws)"

definition buffer_ok :: "buffer_s \<Rightarrow> pc_worker list \<Rightarrow> bool" where
  "buffer_ok b ws \<longleftrightarrow>
     pptr b = tally (items Producer) ws + tally (moved Producer) ws \<and>
     cptr b = tally (items Consumer) ws + tally (moved Consumer) ws"

definition out_ok :: "pc_line list \<Rightarrow> pc_worker list \<Rightarrow> bool" where
  "out_ok ls ws \<longleftrightarrow>
     produced_chars ls = take (tally (items Producer) ws + tally (shown Producer) ws) ALPHABET \<and>
     consumed_chars ls = take (tally (items Consumer) ws + tally (shown Consumer) ws) ALPHABET"

definition parent_ok :: "parent_loc \<Rightarrow> pc_worker list \<Rightarrow> bool" where
  "parent_ok p ws \<longleftrightarrow>
     (case p of
        Forking k \<Rightarrow> k \<le> 6 \<and> (\<forall>j<6. wk_loc (ws ! j) = P_unborn \<longleftrightarrow> k \<le> j)
      | Waiting k \<Rightarrow> k \<le> tally exited ws \<and> (\<forall>j<6. wk_loc (ws ! j) \<noteq> P_unborn)
      | Removing \<Rightarrow> (\<forall>j<6. exited (ws ! j) = 1)
      | Returned c \<Rightarrow> c = -1 \<or> c = 0 \<and> (\<forall>j<6. exited (ws ! j) = 1))"

definition crew :: "pc_role list" where
  "crew = replicate 3 Producer @ replicate 3 Consumer"

text \<open>Once the set is removed only the parent's facts matter: every child has exited.\<close>

definition pc_inv :: "pc_state \<Rightarrow> bool" where
  "pc_inv s \<longleftrightarrow>
     map wk_role (pc_workers s) = crew \<and>
     (\<forall>j<6. worker_ok (pc_buffer s) (pc_workers s ! j)) \<and>
     (case pc_sems s of Some v \<Rightarrow> sems_ok v (pc_workers s) | None \<Rightarrow> pc_parent s = Returned 0) \<and>
     (pc_parent s = Returned 0 \<longrightarrow> pc_sems s = None) \<and>
     buffer_ok (pc_buffer s) (pc_workers s) \<and>
     out_ok (pc_out s) (pc_workers s) \<and>
     parent_ok (pc_parent s) (pc_workers s)"

section \<open>Consequences of the invariant\<close>

definition active :: "pc_worker \<Rightarrow> bool" where
  "active w \<longleftrightarrow> wk_loc w \<in> {P_begin, P_load, P_store, P_print, P_end}"

lemma length_crew [simp]: "length crew = 6"
  by (simp add: crew_def)

lemma pc_inv_length: "pc_inv s \<Longrightarrow> length (pc_workers s) = 6"
  unfolding pc_inv_def by (metis length_map length_crew)

lemma pc_inv_worker: "pc_inv s \<Longrightarrow> j < 6 \<Longrightarrow> worker_ok (pc_buffer s) (pc_workers s ! j)"
  by (simp add: pc_inv_def)

text \<open>While some child can still run, the semaphores exist and the equations hold.\<close>

lemma pc_inv_live:
  assumes "pc_inv s" "j < 6" "exited (pc_workers s ! j) = 0"
  obtains filled mutex vacant where "pc_sems s = Some [filled, mutex, vacant]"
    "sems_ok [filled, mutex, vacant] (pc_workers s)"
proof -
  have "pc_parent s \<noteq> Returned 0"
    using assms by (auto simp: pc_inv_def parent_ok_def)
  then obtain v where "pc_sems s = Some v" "sems_ok v (pc_workers s)"
    using assms(1) by (auto simp: pc_inv_def split: option.splits)
  with that show thesis by (auto simp: sems_ok_def)
qed

lemma active_not_exited: "active w \<Longrightarrow> exited w = 0"
  by (auto simp: active_def exited_def)

text \<open>Six explicit workers, for sums over a whole crew.\<close>

lemma crew_explicit:
  assumes "map wk_role ws = crew"
  obtains a b c d e f where "ws = [a, b, c, d, e, f]"
    "wk_role a = Producer" "wk_role b = Producer" "wk_role c = Producer"
    "wk_role d = Consumer" "wk_role e = Consumer" "wk_role f = Consumer"
  using assms that unfolding crew_def
  by (auto simp: map_eq_append_conv map_eq_Cons_conv numeral_3_eq_3)

lemma items_bound:
  assumes "map wk_role ws = crew" "\<forall>j<6. worker_ok b (ws ! j)"
  shows "tally (items r) ws + tally (inside r) ws \<le> 24"
proof -
  have one: "items r w + inside r w \<le> 8" if "worker_ok b w" for w
    using that by (auto simp: worker_ok_def items_def inside_def in_cs_def split: pc_loc.splits)
  have zero: "items r w + inside r w = 0" if "wk_role w \<noteq> r" for w
    using that by (simp add: items_def inside_def)
  obtain a b' c d e f where ws: "ws = [a, b', c, d, e, f]"
    and roles: "wk_role a = Producer" "wk_role b' = Producer" "wk_role c = Producer"
    "wk_role d = Consumer" "wk_role e = Consumer" "wk_role f = Consumer"
    by (rule crew_explicit [OF assms(1)])
  have ok: "worker_ok b a" "worker_ok b b'" "worker_ok b c" "worker_ok b d" "worker_ok b e" "worker_ok b f"
    using assms(2) unfolding ws by (auto simp: nth_Cons' dest: spec [of _ 0] spec [of _ 1] spec [of _ 2]
      spec [of _ 3] spec [of _ 4] spec [of _ 5])
  show ?thesis
  proof (cases r)
    case Producer
    with ws roles zero [of d] zero [of e] zero [of f] one [OF ok(1)] one [OF ok(2)] one [OF ok(3)]
    show ?thesis by simp
  next
    case Consumer
    with ws roles zero [of a] zero [of b'] zero [of c] one [OF ok(4)] one [OF ok(5)] one [OF ok(6)]
    show ?thesis by simp
  qed
qed

lemma one_short:
  assumes "map wk_role ws = crew" "\<forall>j<6. worker_ok b (ws ! j)" "j < 6" "wk_i (ws ! j) < 8"
  shows "tally (items (wk_role (ws ! j))) ws < 24"
proof -
  let ?r = "wk_role (ws ! j)"
  have len: "j < length ws" using assms(1,3) by (metis length_map length_crew)
  have "worker_ok b ((ws ! j)\<lparr>wk_loc := P_load\<rparr>)" using assms(4) by (simp add: worker_ok_def)
  then have "\<forall>k<6. worker_ok b (ws[j := (ws ! j)\<lparr>wk_loc := P_load\<rparr>] ! k)"
    using assms(2) len by (simp add: nth_list_update)
  moreover have "map wk_role (ws[j := (ws ! j)\<lparr>wk_loc := P_load\<rparr>]) = crew"
    using assms(1) len by (simp add: map_update) (metis list_update_id nth_map)
  ultimately have "tally (items ?r) (ws[j := (ws ! j)\<lparr>wk_loc := P_load\<rparr>]) +
      tally (inside ?r) (ws[j := (ws ! j)\<lparr>wk_loc := P_load\<rparr>]) \<le> 24"
    by (intro items_bound)
  moreover have "0 < tally (inside ?r) (ws[j := (ws ! j)\<lparr>wk_loc := P_load\<rparr>])"
    using tally_update [OF len, of "inside ?r" "(ws ! j)\<lparr>wk_loc := P_load\<rparr>"]
      tally_elem [OF len, of "inside ?r"] by (simp add: inside_def in_cs_def)
  moreover have "tally (items ?r) (ws[j := (ws ! j)\<lparr>wk_loc := P_load\<rparr>]) = tally (items ?r) ws"
    by (rule tally_update_same [OF len]) (simp add: items_def)
  ultimately show ?thesis by simp
qed

lemma in_cs_le: "in_cs w \<le> 1" "inside r w \<le> in_cs w" "moved r w \<le> in_cs w" "shown r w \<le> in_cs w"
  by (auto simp: in_cs_def inside_def moved_def shown_def)

lemma in_cs_roles: "in_cs w = inside Producer w + inside Consumer w"
  by (cases "wk_role w") (simp_all add: inside_def)

lemma tally_in_cs_roles: "tally in_cs ws = tally (inside Producer) ws + tally (inside Consumer) ws"
  by (induction ws) (simp_all add: in_cs_roles)

lemma moved_le_inside: "tally (moved r) ws \<le> tally (inside r) ws"
  by (rule tally_mono) (auto simp: moved_def inside_def in_cs_def)

section \<open>Semaphore calls of the two roles\<close>

lemma producer_begin_sem:
  "vacant \<le> SEMVMX \<Longrightarrow> mutex \<le> SEMVMX \<Longrightarrow> semop producer_begin [filled, mutex, vacant] =
     (if vacant = 0 \<or> mutex = 0 then Sem_wait else Sem_ok [filled, mutex - 1, vacant - 1])"
  by (auto simp: producer_begin_def nat_diff_distrib')

lemma consume_begin_sem:
  "filled \<le> SEMVMX \<Longrightarrow> mutex \<le> SEMVMX \<Longrightarrow> semop consume_begin [filled, mutex, vacant] =
     (if filled = 0 \<or> mutex = 0 then Sem_wait else Sem_ok [filled - 1, mutex - 1, vacant])"
  by (auto simp: consume_begin_def nat_diff_distrib')

lemma producer_end_sem:
  "filled < SEMVMX \<Longrightarrow> mutex < SEMVMX \<Longrightarrow>
   semop producer_end [filled, mutex, vacant] = Sem_ok [filled + 1, mutex + 1, vacant]"
  by (auto simp: producer_end_def nat_add_distrib)

lemma consume_end_sem:
  "vacant < SEMVMX \<Longrightarrow> mutex < SEMVMX \<Longrightarrow>
   semop consume_end [filled, mutex, vacant] = Sem_ok [filled, mutex + 1, vacant + 1]"
  by (auto simp: consume_end_def nat_add_distrib)

lemma sems_bounds:
  assumes "map wk_role ws = crew" "\<forall>j<6. worker_ok b (ws ! j)" "sems_ok [filled, mutex, vacant] ws"
  shows "filled < SEMVMX" "mutex < SEMVMX" "vacant < SEMVMX"
  using items_bound [OF assms(1,2), of Producer] items_bound [OF assms(1,2), of Consumer] assms(3)
  by (auto simp: sems_ok_def SEMVMX_def)

section \<open>Every step keeps the invariant\<close>

text \<open>
  What a step of child \<open>j\<close> has to establish: the child stays in its role, the other
  children's facts about the pointers survive, and the equations hold with the child's new
  contributions.
\<close>

lemma pc_inv_put:
  assumes inv: "pc_inv s" and j: "j < 6" and act: "active (pc_workers s ! j)"
    and role: "wk_role w = wk_role (pc_workers s ! j)" and born: "wk_loc w \<noteq> P_unborn"
    and me: "worker_ok b w"
    and others: "\<And>k. k < 6 \<Longrightarrow> k \<noteq> j \<Longrightarrow> worker_ok b (pc_workers s ! k)"
    and sems: "sems_ok v ((pc_workers s)[j := w])"
    and buf: "buffer_ok b ((pc_workers s)[j := w])"
    and out: "out_ok ls ((pc_workers s)[j := w])"
  shows "pc_inv (put_worker j w (s\<lparr>pc_sems := Some v, pc_buffer := b, pc_out := ls\<rparr>))"
proof -
  let ?ws = "pc_workers s"
  have len: "length ?ws = 6" using inv by (rule pc_inv_length)
  have roles: "map wk_role (?ws[j := w]) = crew"
    using inv role j len by (simp add: pc_inv_def map_update) (metis list_update_id nth_map)
  have live: "exited (?ws ! j) = 0" using act by (rule active_not_exited)
  have parent: "parent_ok (pc_parent s) (?ws[j := w])" "pc_parent s \<noteq> Returned 0"
  proof -
    have old: "parent_ok (pc_parent s) ?ws" using inv by (simp add: pc_inv_def)
    have more: "tally exited ?ws \<le> tally exited (?ws[j := w])"
      using tally_update [of j ?ws exited w] j len live by simp
    have loc: "wk_loc (?ws ! j) \<noteq> P_unborn" using act by (auto simp: active_def)
    show "parent_ok (pc_parent s) (?ws[j := w])"
      using old more loc born j len live
      by (auto simp: parent_ok_def nth_list_update split: parent_loc.splits)
    show "pc_parent s \<noteq> Returned 0"
      using old live j by (auto simp: parent_ok_def)
  qed
  have "\<forall>k<6. worker_ok b (?ws[j := w] ! k)"
    using me others j len by (auto simp: nth_list_update)
  with roles parent sems buf out show ?thesis
    by (simp add: pc_inv_def put_worker_def)
qed

text \<open>The contributions after the step, from the ones before.\<close>

lemma tally_changes:
  assumes "j < length ws"
  shows "tally in_cs (ws[j := w]) + in_cs (ws ! j) = tally in_cs ws + in_cs w"
    "tally (items r) (ws[j := w]) + items r (ws ! j) = tally (items r) ws + items r w"
    "tally (inside r) (ws[j := w]) + inside r (ws ! j) = tally (inside r) ws + inside r w"
    "tally (moved r) (ws[j := w]) + moved r (ws ! j) = tally (moved r) ws + moved r w"
    "tally (shown r) (ws[j := w]) + shown r (ws ! j) = tally (shown r) ws + shown r w"
  using assms by (simp_all add: tally_update)

lemmas contribution_defs = in_cs_def items_def inside_def moved_def shown_def

text \<open>Inside the critical section a child is alone, and its contributions are the totals.\<close>

lemma alone:
  assumes "sems_ok v ws" "j < length ws" "in_cs (ws ! j) = 1"
  shows "tally in_cs ws = 1" "tally (inside r) ws = inside r (ws ! j)"
    "tally (moved r) ws = moved r (ws ! j)" "tally (shown r) ws = shown r (ws ! j)"
proof -
  have "tally in_cs ws \<le> 1" using assms(1) by (auto simp: sems_ok_def)
  note only = tally_alone [OF assms(2) this assms(3)]
  show "tally in_cs ws = 1" using only [of in_cs] assms(3) by simp
  show "tally (inside r) ws = inside r (ws ! j)" by (rule only) (rule in_cs_le)
  show "tally (moved r) ws = moved r (ws ! j)" by (rule only) (rule in_cs_le)
  show "tally (shown r) ws = shown r (ws ! j)" by (rule only) (rule in_cs_le)
qed

lemma others_outside:
  assumes "sems_ok v ws" "j < length ws" "in_cs (ws ! j) = 1" "k < length ws" "k \<noteq> j"
  shows "in_cs (ws ! k) = 0"
  using tally_two [of j ws k in_cs] alone(1) [OF assms(1-3)] assms by simp

lemma worker_ok_outside: "in_cs w = 0 \<Longrightarrow> worker_ok b w = worker_ok b' w"
  by (auto simp: worker_ok_def in_cs_def split: pc_loc.splits if_splits)

text \<open>Begin and end: the equations move with the semaphores.\<close>

lemma pc_inv_begin:
  assumes inv: "pc_inv s" and j: "j < 6" and w: "w = pc_workers s ! j" and loc: "wk_loc w = P_begin"
    and run: "pc_semop (case wk_role w of Producer \<Rightarrow> producer_begin | Consumer \<Rightarrow> consume_begin)
      j w (w\<lparr>wk_loc := P_load\<rparr>) s = Some t"
  shows "pc_inv t"
proof -
  have len: "length (pc_workers s) = 6" using inv by (rule pc_inv_length)
  have act: "active (pc_workers s ! j)" using loc w by (simp add: active_def)
  obtain filled mutex vacant where S: "pc_sems s = Some [filled, mutex, vacant]"
    "sems_ok [filled, mutex, vacant] (pc_workers s)"
    using pc_inv_live [OF inv j active_not_exited [OF act]] .
  have W: "map wk_role (pc_workers s) = crew" "\<forall>j<6. worker_ok (pc_buffer s) (pc_workers s ! j)"
    using inv by (simp_all add: pc_inv_def)
  note B = sems_bounds [OF W S(2)]
  obtain v where v: "semop (case wk_role w of Producer \<Rightarrow> producer_begin | Consumer \<Rightarrow> consume_begin)
      [filled, mutex, vacant] = Sem_ok v" and
    t: "t = put_worker j (w\<lparr>wk_loc := P_load\<rparr>) (s\<lparr>pc_sems := Some v\<rparr>)"
    using run S B by (cases "wk_role w") (auto simp: pc_semop_def producer_begin_sem consume_begin_sem
      split: if_splits)
  note change = tally_changes [where j = j and ws = "pc_workers s" and w = "w\<lparr>wk_loc := P_load\<rparr>",
    OF j [folded len]]
  have "pc_inv (put_worker j (w\<lparr>wk_loc := P_load\<rparr>)
      (s\<lparr>pc_sems := Some v, pc_buffer := pc_buffer s, pc_out := pc_out s\<rparr>))"
  proof (rule pc_inv_put [OF inv j act])
    show "worker_ok (pc_buffer s) (w\<lparr>wk_loc := P_load\<rparr>)"
      using pc_inv_worker [OF inv j] loc w by (simp add: worker_ok_def)
    show "sems_ok v ((pc_workers s)[j := w\<lparr>wk_loc := P_load\<rparr>])"
      using v S(2) B loc w change(1) change(2,3) [of Producer] change(2,3) [of Consumer]
      by (cases "wk_role w") (auto simp: sems_ok_def producer_begin_sem consume_begin_sem
        contribution_defs split: if_splits)
    show "buffer_ok (pc_buffer s) ((pc_workers s)[j := w\<lparr>wk_loc := P_load\<rparr>])"
      using inv loc w change(2,4) [of Producer] change(2,4) [of Consumer]
      by (cases "wk_role w") (simp_all add: pc_inv_def buffer_ok_def contribution_defs)
    show "out_ok (pc_out s) ((pc_workers s)[j := w\<lparr>wk_loc := P_load\<rparr>])"
      using inv loc w change(2,5) [of Producer] change(2,5) [of Consumer]
      by (cases "wk_role w") (simp_all add: pc_inv_def out_ok_def contribution_defs)
  qed (use w pc_inv_worker [OF inv] in simp_all)
  then show ?thesis by (simp add: t)
qed

text \<open>What holds while child \<open>j\<close> is inside.\<close>

lemma inside_facts:
  assumes inv: "pc_inv s" and j: "j < 6" and cs: "in_cs (pc_workers s ! j) = 1"
  obtains filled mutex vacant where "pc_sems s = Some [filled, mutex, vacant]"
    "sems_ok [filled, mutex, vacant] (pc_workers s)"
    "filled < SEMVMX" "mutex < SEMVMX" "vacant < SEMVMX" "active (pc_workers s ! j)"
    "\<And>k. k < 6 \<Longrightarrow> k \<noteq> j \<Longrightarrow> in_cs (pc_workers s ! k) = 0"
proof -
  have len: "length (pc_workers s) = 6" using inv by (rule pc_inv_length)
  have act: "active (pc_workers s ! j)" using cs by (auto simp: active_def in_cs_def split: if_splits)
  obtain filled mutex vacant where S: "pc_sems s = Some [filled, mutex, vacant]"
    "sems_ok [filled, mutex, vacant] (pc_workers s)"
    using pc_inv_live [OF inv j active_not_exited [OF act]] .
  have W: "map wk_role (pc_workers s) = crew" "\<forall>j<6. worker_ok (pc_buffer s) (pc_workers s ! j)"
    using inv by (simp_all add: pc_inv_def)
  have out: "in_cs (pc_workers s ! k) = 0" if "k < 6" "k \<noteq> j" for k
    using others_outside [OF S(2) _ cs _ that(2)] len j that(1) by simp
  show thesis by (rule that [OF S sems_bounds [OF W S(2)] act]) (simp_all add: out)
qed

text \<open>A step inside the critical section that leaves the semaphores alone.\<close>

lemma pc_inv_inside:
  assumes inv: "pc_inv s" and j: "j < 6" and cs: "in_cs (pc_workers s ! j) = 1"
    and role: "wk_role w = wk_role (pc_workers s ! j)" and cs': "in_cs w = 1"
    and i: "wk_i w = wk_i (pc_workers s ! j)"
    and me: "worker_ok b w"
    and ptrs: "\<And>r. (case r of Producer \<Rightarrow> pptr b | Consumer \<Rightarrow> cptr b) =
      tally (items r) (pc_workers s) + moved r w"
    and out: "produced_chars ls = take (tally (items Producer) (pc_workers s) + shown Producer w) ALPHABET"
      "consumed_chars ls = take (tally (items Consumer) (pc_workers s) + shown Consumer w) ALPHABET"
  shows "pc_inv (put_worker j w (s\<lparr>pc_buffer := b, pc_out := ls\<rparr>))"
proof -
  have len: "length (pc_workers s) = 6" using inv by (rule pc_inv_length)
  obtain filled mutex vacant where S: "pc_sems s = Some [filled, mutex, vacant]"
    and S2: "sems_ok [filled, mutex, vacant] (pc_workers s)" and act: "active (pc_workers s ! j)"
    and outside: "\<And>k. k < 6 \<Longrightarrow> k \<noteq> j \<Longrightarrow> in_cs (pc_workers s ! k) = 0"
    using inside_facts [OF inv j cs] by metis
  note change = tally_changes [where j = j and ws = "pc_workers s" and w = w, OF j [folded len]]
  note only = alone [OF S2 j [folded len] cs]
  have items: "tally (items r) ((pc_workers s)[j := w]) = tally (items r) (pc_workers s)" for r
    using change(2) [of r] role i by (auto simp: items_def split: if_splits)
  have inside': "tally (inside r) ((pc_workers s)[j := w]) = tally (inside r) (pc_workers s)" for r
    using change(3) [of r] role cs cs' by (auto simp: inside_def split: if_splits)
  have in_cs': "tally in_cs ((pc_workers s)[j := w]) = tally in_cs (pc_workers s)"
    using change(1) cs cs' by simp
  have moved': "tally (moved r) ((pc_workers s)[j := w]) = moved r w" for r
    using change(4) [of r] only(3) [of r] by simp
  have shown': "tally (shown r) ((pc_workers s)[j := w]) = shown r w" for r
    using change(5) [of r] only(4) [of r] by simp
  have "pc_inv (put_worker j w
      (s\<lparr>pc_sems := Some [filled, mutex, vacant], pc_buffer := b, pc_out := ls\<rparr>))"
  proof (rule pc_inv_put [OF inv j act role _ me])
    show "wk_loc w \<noteq> P_unborn" using cs' by (auto simp: in_cs_def)
    show "worker_ok b (pc_workers s ! k)" if "k < 6" "k \<noteq> j" for k
      using worker_ok_outside [OF outside [OF that]] pc_inv_worker [OF inv that(1)] by metis
    show "sems_ok [filled, mutex, vacant] ((pc_workers s)[j := w])"
      using S2 by (simp add: sems_ok_def items inside' in_cs')
    show "buffer_ok b ((pc_workers s)[j := w])"
      using ptrs [of Producer] ptrs [of Consumer] by (simp add: buffer_ok_def items moved')
    show "out_ok ls ((pc_workers s)[j := w])"
      using out by (simp add: out_ok_def items shown')
  qed
  then show ?thesis by (simp flip: S)
qed

text \<open>The pointers and the output while child \<open>j\<close> is inside.\<close>

lemma inside_values:
  assumes inv: "pc_inv s" and j: "j < 6" and cs: "in_cs (pc_workers s ! j) = 1"
  shows "pptr (pc_buffer s) = tally (items Producer) (pc_workers s) + moved Producer (pc_workers s ! j)"
    "cptr (pc_buffer s) = tally (items Consumer) (pc_workers s) + moved Consumer (pc_workers s ! j)"
    "produced_chars (pc_out s) =
      take (tally (items Producer) (pc_workers s) + shown Producer (pc_workers s ! j)) ALPHABET"
    "consumed_chars (pc_out s) =
      take (tally (items Consumer) (pc_workers s) + shown Consumer (pc_workers s ! j)) ALPHABET"
    "tally (items Producer) (pc_workers s) < 52" "tally (items Consumer) (pc_workers s) < 52"
proof -
  have len: "length (pc_workers s) = 6" using inv by (rule pc_inv_length)
  obtain v where "sems_ok v (pc_workers s)"
    using inside_facts [OF inv j cs] by metis
  note only = alone [OF this j [folded len] cs]
  show "pptr (pc_buffer s) = tally (items Producer) (pc_workers s) + moved Producer (pc_workers s ! j)"
    "cptr (pc_buffer s) = tally (items Consumer) (pc_workers s) + moved Consumer (pc_workers s ! j)"
    using inv only(3) by (simp_all add: pc_inv_def buffer_ok_def)
  show "produced_chars (pc_out s) =
      take (tally (items Producer) (pc_workers s) + shown Producer (pc_workers s ! j)) ALPHABET"
    "consumed_chars (pc_out s) =
      take (tally (items Consumer) (pc_workers s) + shown Consumer (pc_workers s ! j)) ALPHABET"
    using inv only(4) by (simp_all add: pc_inv_def out_ok_def)
  have W: "map wk_role (pc_workers s) = crew" "\<forall>j<6. worker_ok (pc_buffer s) (pc_workers s ! j)"
    using inv by (simp_all add: pc_inv_def)
  from items_bound [OF W, of Producer] items_bound [OF W, of Consumer]
  show "tally (items Producer) (pc_workers s) < 52" "tally (items Consumer) (pc_workers s) < 52" by simp_all
qed

lemma length_alphabet: "length ALPHABET = 52"
  by (simp add: ALPHABET_def)

lemma alphabet_cell: "k < 52 \<Longrightarrow> cell alphabet_bytes k = Some (ALPHABET ! k)"
  by (simp add: cell_def alphabet_bytes_def length_alphabet nth_append)

lemma chars_snoc [simp]:
  "produced_chars (ls @ [Wrote i c]) = produced_chars ls @ [c]"
  "produced_chars (ls @ [Read i c]) = produced_chars ls"
  "consumed_chars (ls @ [Wrote i c]) = consumed_chars ls"
  "consumed_chars (ls @ [Read i c]) = consumed_chars ls @ [c]"
  by (simp_all add: produced_chars_def consumed_chars_def)

lemma take_alphabet_snoc: "k < 52 \<Longrightarrow> take k ALPHABET @ [ALPHABET ! k] = take (Suc k) ALPHABET"
  by (simp add: take_Suc_conv_app_nth length_alphabet)

section \<open>The statements of the two workers\<close>

lemma worker_load:
  assumes inv: "pc_inv s" and j: "j < 6" and w: "w = pc_workers s ! j" and loc: "wk_loc w = P_load"
    and p: "p = (case wk_role w of Producer \<Rightarrow> pptr (pc_buffer s) | Consumer \<Rightarrow> cptr (pc_buffer s))"
  shows "pc_inv (put_worker j (w\<lparr>wk_reg := p, wk_loc := P_store\<rparr>) s)"
proof -
  have cs: "in_cs (pc_workers s ! j) = 1" using w loc by (simp add: in_cs_def)
  have "pc_inv (put_worker j (w\<lparr>wk_reg := p, wk_loc := P_store\<rparr>)
      (s\<lparr>pc_buffer := pc_buffer s, pc_out := pc_out s\<rparr>))"
    by (rule pc_inv_inside [OF inv j cs])
      (use loc w p pc_inv_worker [OF inv j] inside_values [OF inv j cs] in
        \<open>auto simp: worker_ok_def in_cs_def moved_def shown_def split: pc_role.splits\<close>)
  then show ?thesis by simp
qed

lemma producer_store:
  assumes inv: "pc_inv s" and j: "j < 6" and w: "w = pc_workers s ! j" and loc: "wk_loc w = P_store"
    and role: "wk_role w = Producer"
  shows "pc_inv (put_worker j (w\<lparr>wk_loc := P_print\<rparr>)
    (s\<lparr>pc_buffer := write_buffer (wk_reg w) (pc_buffer s)\<rparr>))"
proof -
  have cs: "in_cs (pc_workers s ! j) = 1" using w loc by (simp add: in_cs_def)
  have reg: "wk_reg w = pptr (pc_buffer s)" "wk_i w < 8"
    using pc_inv_worker [OF inv j] w loc role by (auto simp: worker_ok_def)
  have "pc_inv (put_worker j (w\<lparr>wk_loc := P_print\<rparr>)
      (s\<lparr>pc_buffer := write_buffer (wk_reg w) (pc_buffer s), pc_out := pc_out s\<rparr>))"
    by (rule pc_inv_inside [OF inv j cs])
      (use loc w role reg inside_values [OF inv j cs] in
        \<open>auto simp: worker_ok_def in_cs_def moved_def shown_def write_buffer_def split: pc_role.splits\<close>)
  then show ?thesis by simp
qed

lemma producer_print:
  assumes inv: "pc_inv s" and j: "j < 6" and w: "w = pc_workers s ! j" and loc: "wk_loc w = P_print"
    and role: "wk_role w = Producer"
  shows "\<exists>c. last_written (pc_buffer s) = Some c \<and>
    pc_inv (put_worker j (w\<lparr>wk_loc := P_end\<rparr>) (s\<lparr>pc_out := pc_out s @ [Wrote n c]\<rparr>))"
proof -
  have cs: "in_cs (pc_workers s ! j) = 1" using w loc by (simp add: in_cs_def)
  let ?k = "tally (items Producer) (pc_workers s)"
  note v = inside_values [OF inv j cs]
  have char: "last_written (pc_buffer s) = Some (ALPHABET ! ?k)"
    using v w loc role by (simp add: last_written_def alphabet_cell moved_def)
  have shown0: "shown r w = 0" for r using loc by (simp add: shown_def)
  have "pc_inv (put_worker j (w\<lparr>wk_loc := P_end\<rparr>)
      (s\<lparr>pc_buffer := pc_buffer s, pc_out := pc_out s @ [Wrote n (ALPHABET ! ?k)]\<rparr>))"
    by (rule pc_inv_inside [OF inv j cs])
      (use loc w role pc_inv_worker [OF inv j] v shown0 in
        \<open>auto simp: worker_ok_def in_cs_def moved_def shown_def take_alphabet_snoc split: pc_role.splits\<close>)
  with char show ?thesis by simp
qed

lemma consumer_store:
  assumes inv: "pc_inv s" and j: "j < 6" and w: "w = pc_workers s ! j" and loc: "wk_loc w = P_store"
    and role: "wk_role w = Consumer"
  shows "\<exists>c b. read_buffer (wk_reg w) (pc_buffer s) = Some (c, b) \<and>
    pc_inv (put_worker j (w\<lparr>wk_ch := c, wk_loc := P_print\<rparr>) (s\<lparr>pc_buffer := b\<rparr>))"
proof -
  have cs: "in_cs (pc_workers s ! j) = 1" using w loc by (simp add: in_cs_def)
  let ?k = "tally (items Consumer) (pc_workers s)" and ?b = "pc_buffer s"
  note v = inside_values [OF inv j cs]
  have reg: "wk_reg w = cptr ?b" "wk_i w < 8"
    using pc_inv_worker [OF inv j] w loc role by (auto simp: worker_ok_def)
  have k: "cptr ?b = ?k" using v w loc by (simp add: moved_def)
  have read: "read_buffer (wk_reg w) ?b = Some (ALPHABET ! ?k, ?b\<lparr>cptr := ?k + 1\<rparr>)"
    using v(6) reg k by (simp add: read_buffer_def alphabet_cell)
  have "pc_inv (put_worker j (w\<lparr>wk_ch := ALPHABET ! ?k, wk_loc := P_print\<rparr>)
      (s\<lparr>pc_buffer := ?b\<lparr>cptr := ?k + 1\<rparr>, pc_out := pc_out s\<rparr>))"
    by (rule pc_inv_inside [OF inv j cs])
      (use loc w role reg v in
        \<open>auto simp: worker_ok_def in_cs_def moved_def shown_def split: pc_role.splits\<close>)
  with read show ?thesis by simp
qed

lemma consumer_print:
  assumes inv: "pc_inv s" and j: "j < 6" and w: "w = pc_workers s ! j" and loc: "wk_loc w = P_print"
    and role: "wk_role w = Consumer"
  shows "pc_inv (put_worker j (w\<lparr>wk_loc := P_end\<rparr>) (s\<lparr>pc_out := pc_out s @ [Read n (wk_ch w)]\<rparr>))"
proof -
  have cs: "in_cs (pc_workers s ! j) = 1" using w loc by (simp add: in_cs_def)
  note v = inside_values [OF inv j cs]
  have ch: "wk_ch w = ALPHABET ! tally (items Consumer) (pc_workers s)" "wk_i w < 8"
    using pc_inv_worker [OF inv j] w loc role v by (auto simp: worker_ok_def moved_def)
  have "pc_inv (put_worker j (w\<lparr>wk_loc := P_end\<rparr>)
      (s\<lparr>pc_buffer := pc_buffer s, pc_out := pc_out s @ [Read n (wk_ch w)]\<rparr>))"
    by (rule pc_inv_inside [OF inv j cs])
      (use loc w role ch v in
        \<open>auto simp: worker_ok_def in_cs_def moved_def shown_def take_alphabet_snoc split: pc_role.splits\<close>)
  then show ?thesis by simp
qed

lemma pc_inv_end:
  assumes inv: "pc_inv s" and j: "j < 6" and w: "w = pc_workers s ! j" and loc: "wk_loc w = P_end"
    and run: "pc_semop (case wk_role w of Producer \<Rightarrow> producer_end | Consumer \<Rightarrow> consume_end)
      j w (next_item w) s = Some t"
  shows "pc_inv t"
proof -
  have len: "length (pc_workers s) = 6" using inv by (rule pc_inv_length)
  have cs: "in_cs (pc_workers s ! j) = 1" using w loc by (simp add: in_cs_def)
  obtain filled mutex vacant where S: "pc_sems s = Some [filled, mutex, vacant]"
    "sems_ok [filled, mutex, vacant] (pc_workers s)"
    and B: "filled < SEMVMX" "mutex < SEMVMX" "vacant < SEMVMX" and act: "active (pc_workers s ! j)"
    and outside: "\<And>k. k < 6 \<Longrightarrow> k \<noteq> j \<Longrightarrow> in_cs (pc_workers s ! k) = 0"
    using inside_facts [OF inv j cs] by metis
  obtain v where v: "semop (case wk_role w of Producer \<Rightarrow> producer_end | Consumer \<Rightarrow> consume_end)
      [filled, mutex, vacant] = Sem_ok v" and t: "t = put_worker j (next_item w) (s\<lparr>pc_sems := Some v\<rparr>)"
    using run S B by (cases "wk_role w") (auto simp: pc_semop_def producer_end_sem consume_end_sem)
  have i: "wk_i w < 8" using pc_inv_worker [OF inv j] loc w by (simp add: worker_ok_def)
  note change = tally_changes [where j = j and ws = "pc_workers s" and w = "next_item w", OF j [folded len]]
  have "pc_inv (put_worker j (next_item w)
      (s\<lparr>pc_sems := Some v, pc_buffer := pc_buffer s, pc_out := pc_out s\<rparr>))"
  proof (rule pc_inv_put [OF inv j act])
    show "worker_ok (pc_buffer s) (next_item w)"
      using i by (auto simp: worker_ok_def next_item_def)
    show "worker_ok (pc_buffer s) (pc_workers s ! k)" if "k < 6" "k \<noteq> j" for k
      using pc_inv_worker [OF inv that(1)] .
    show "sems_ok v ((pc_workers s)[j := next_item w])"
      using v S(2) B loc w change(1) change(2,3) [of Producer] change(2,3) [of Consumer]
      by (cases "wk_role w") (auto simp: sems_ok_def producer_end_sem consume_end_sem
        contribution_defs next_item_def)
    show "buffer_ok (pc_buffer s) ((pc_workers s)[j := next_item w])"
      using inv loc w change(2,4) [of Producer] change(2,4) [of Consumer]
      by (cases "wk_role w") (auto simp: pc_inv_def buffer_ok_def contribution_defs next_item_def)
    show "out_ok (pc_out s) ((pc_workers s)[j := next_item w])"
    proof -
      have "tally (items r) ((pc_workers s)[j := next_item w]) +
          tally (shown r) ((pc_workers s)[j := next_item w]) =
        tally (items r) (pc_workers s) + tally (shown r) (pc_workers s)" for r
        using loc w change(2,5) [of r]
        by (cases "wk_role w = r") (auto simp: contribution_defs next_item_def)
      with inv show ?thesis by (simp add: pc_inv_def out_ok_def)
    qed
  qed (use w in \<open>simp_all add: next_item_def\<close>)
  then show ?thesis by (simp add: t)
qed

section \<open>Progress\<close>

text \<open>Five steps an item; each step of a child takes one off.\<close>

definition worker_rank :: "pc_worker \<Rightarrow> nat" where
  "worker_rank w =
     (case wk_loc w of
        P_unborn \<Rightarrow> 40
      | P_begin \<Rightarrow> 5 * (8 - wk_i w)
      | P_load \<Rightarrow> 5 * (8 - wk_i w) - 1
      | P_store \<Rightarrow> 5 * (8 - wk_i w) - 2
      | P_print \<Rightarrow> 5 * (8 - wk_i w) - 3
      | P_end \<Rightarrow> 5 * (8 - wk_i w) - 4
      | _ \<Rightarrow> 0)"

definition pc_rank :: "pc_state \<Rightarrow> nat" where
  "pc_rank s = parent_rank 6 (pc_parent s) + tally worker_rank (pc_workers s)"

definition pc_final :: "pc_state \<Rightarrow> bool" where
  "pc_final s \<longleftrightarrow> pc_parent s = Returned 0 \<or> pc_parent s = Returned (-1)"

lemma pc_rank_put:
  assumes "j < length (pc_workers s)" "worker_rank w < worker_rank (pc_workers s ! j)"
    "pc_workers s' = pc_workers s" "pc_parent s' = pc_parent s"
  shows "pc_rank (put_worker j w s') < pc_rank s"
  using tally_update [OF assms(1), of worker_rank w] assms
  by (simp add: pc_rank_def put_worker_def)

lemma pc_rank_semop:
  assumes "pc_semop ops j w w' s = Some t" "j < length (pc_workers s)" "w = pc_workers s ! j"
    "worker_rank w' < worker_rank w"
  shows "pc_rank t < pc_rank s"
  using assms
  by (auto simp: pc_semop_def worker_rank_def split: semop_result.splits intro!: pc_rank_put)

lemma next_item_rank:
  "worker_ok b w \<Longrightarrow> wk_loc w = P_end \<Longrightarrow> worker_rank (next_item w) < worker_rank w"
  by (simp add: worker_rank_def worker_ok_def next_item_def) arith

lemma producer_work_step:
  assumes inv: "pc_inv s" and j: "j < 6" and w: "w = pc_workers s ! j" and role: "wk_role w = Producer"
    and run: "producer_work j w s = Some t"
  shows "pc_inv t \<and> pc_rank t < pc_rank s"
proof -
  have len: "j < length (pc_workers s)" using j pc_inv_length [OF inv] by simp
  have ok: "worker_ok (pc_buffer s) w" using pc_inv_worker [OF inv j] w by simp
  show ?thesis
  proof (cases "wk_loc w")
    case P_begin
    then have "worker_rank (w\<lparr>wk_loc := P_load\<rparr>) < worker_rank w"
      using ok by (simp add: worker_rank_def worker_ok_def)
    with P_begin run role pc_inv_begin [OF inv j w P_begin] pc_rank_semop [OF _ len w] show ?thesis
      by (auto simp: producer_work_def)
  next
    case P_load
    with run have "t = put_worker j (w\<lparr>wk_reg := pptr (pc_buffer s), wk_loc := P_store\<rparr>) s"
      by (simp add: producer_work_def)
    with worker_load [OF inv j w P_load, of "pptr (pc_buffer s)"] P_load ok role w
    show ?thesis by (auto simp: worker_rank_def worker_ok_def intro!: pc_rank_put [OF len])
  next
    case P_store
    with run producer_store [OF inv j w P_store role] ok w show ?thesis
      by (auto simp: producer_work_def worker_rank_def worker_ok_def intro!: pc_rank_put [OF len])
  next
    case P_print
    with run producer_print [OF inv j w P_print role, of "j + 1"] ok w show ?thesis
      by (auto simp: producer_work_def worker_rank_def worker_ok_def intro!: pc_rank_put [OF len])
  next
    case P_end
    then have "worker_rank (next_item w) < worker_rank w"
      using ok by (rule next_item_rank [rotated])
    with P_end run role pc_inv_end [OF inv j w P_end] pc_rank_semop [OF _ len w] show ?thesis
      by (auto simp: producer_work_def)
  qed (use run in \<open>simp_all add: producer_work_def\<close>)
qed

lemma consumer_work_step:
  assumes inv: "pc_inv s" and j: "j < 6" and w: "w = pc_workers s ! j" and role: "wk_role w = Consumer"
    and run: "consumer_work j w s = Some t"
  shows "pc_inv t \<and> pc_rank t < pc_rank s"
proof -
  have len: "j < length (pc_workers s)" using j pc_inv_length [OF inv] by simp
  have ok: "worker_ok (pc_buffer s) w" using pc_inv_worker [OF inv j] w by simp
  show ?thesis
  proof (cases "wk_loc w")
    case P_begin
    then have "worker_rank (w\<lparr>wk_loc := P_load\<rparr>) < worker_rank w"
      using ok by (simp add: worker_rank_def worker_ok_def)
    with P_begin run role pc_inv_begin [OF inv j w P_begin] pc_rank_semop [OF _ len w] show ?thesis
      by (auto simp: consumer_work_def)
  next
    case P_load
    with run have "t = put_worker j (w\<lparr>wk_reg := cptr (pc_buffer s), wk_loc := P_store\<rparr>) s"
      by (simp add: consumer_work_def)
    with worker_load [OF inv j w P_load, of "cptr (pc_buffer s)"] P_load ok role w
    show ?thesis by (auto simp: worker_rank_def worker_ok_def intro!: pc_rank_put [OF len])
  next
    case P_store
    with run consumer_store [OF inv j w P_store role] ok w show ?thesis
      by (auto simp: consumer_work_def worker_rank_def worker_ok_def intro!: pc_rank_put [OF len])
  next
    case P_print
    with run consumer_print [OF inv j w P_print role, of "j - 3 + 1"] ok w show ?thesis
      by (auto simp: consumer_work_def worker_rank_def worker_ok_def intro!: pc_rank_put [OF len])
  next
    case P_end
    then have "worker_rank (next_item w) < worker_rank w"
      using ok by (rule next_item_rank [rotated])
    with P_end run role pc_inv_end [OF inv j w P_end] pc_rank_semop [OF _ len w] show ?thesis
      by (auto simp: consumer_work_def)
  qed (use run in \<open>simp_all add: consumer_work_def\<close>)
qed

section \<open>The parent\<close>

text \<open>Forking a child and reaping one change no contribution.\<close>

lemma pc_forks:
  assumes inv: "pc_inv s" and Forking: "pc_parent s = Forking k" and True: "k < 6"
  shows "pc_inv ((put_worker k ((pc_workers s ! k)\<lparr>wk_loc := P_begin\<rparr>) s)\<lparr>pc_parent := Forking (Suc k)\<rparr>) \<and>
    tally worker_rank ((pc_workers s)[k := (pc_workers s ! k)\<lparr>wk_loc := P_begin\<rparr>]) \<le> tally worker_rank (pc_workers s)"
proof -
  let ?ws = "pc_workers s"
  have len: "length ?ws = 6" using inv by (rule pc_inv_length)
  have par: "parent_ok (pc_parent s) ?ws" using inv by (simp add: pc_inv_def)
  let ?w = "(?ws ! k)\<lparr>wk_loc := P_begin\<rparr>"
  have unborn: "wk_loc (?ws ! k) = P_unborn" "wk_i (?ws ! k) = 0"
    using par Forking True pc_inv_worker [OF inv True] by (auto simp: parent_ok_def worker_ok_def)
  have same: "tally in_cs (?ws[k := ?w]) = tally in_cs ?ws"
    "tally (items r) (?ws[k := ?w]) = tally (items r) ?ws"
    "tally (inside r) (?ws[k := ?w]) = tally (inside r) ?ws"
    "tally (moved r) (?ws[k := ?w]) = tally (moved r) ?ws"
    "tally (shown r) (?ws[k := ?w]) = tally (shown r) ?ws" for r
    by (rule tally_update_same; use True len unborn in \<open>simp add: contribution_defs\<close>)+
  have roles: "map wk_role (?ws[k := ?w]) = crew"
    using inv len True by (simp add: pc_inv_def map_update) (metis list_update_id nth_map)
  have "worker_ok (pc_buffer s) ?w" using unborn by (simp add: worker_ok_def)
  then have ok: "\<forall>j<6. worker_ok (pc_buffer s) (?ws[k := ?w] ! j)"
    using pc_inv_worker [OF inv] len True by (simp add: nth_list_update)
  have par': "parent_ok (Forking (Suc k)) (?ws[k := ?w])"
    using par Forking True len by (auto simp: parent_ok_def nth_list_update)
  have "pc_inv ((put_worker k ?w s)\<lparr>pc_parent := Forking (Suc k)\<rparr>)"
    using inv roles ok par' Forking
    by (auto simp: pc_inv_def put_worker_def sems_ok_def buffer_ok_def out_ok_def same
      split: option.splits)
  moreover have "tally worker_rank (?ws[k := ?w]) \<le> tally worker_rank ?ws"
    using tally_update [of k ?ws worker_rank ?w] len True unborn by (simp add: worker_rank_def)
  ultimately show ?thesis ..
qed

lemma pc_parent_step:
  assumes inv: "pc_inv s" and run: "pc_parent_exec s = Some t"
  shows "pc_inv t \<and> pc_rank t < pc_rank s"
proof -
  let ?ws = "pc_workers s"
  have len: "length ?ws = 6" using inv by (rule pc_inv_length)
  have par: "parent_ok (pc_parent s) ?ws" using inv by (simp add: pc_inv_def)
  have less: "parent_rank 6 (pc_parent t) < parent_rank 6 (pc_parent s)"
    using run parent_rank_decreases by (fastforce simp: pc_parent_exec_def put_worker_def
      split: option.splits parent_loc.splits if_splits)
  show ?thesis
  proof (cases "pc_parent s")
    case (Forking k)
    show ?thesis
    proof (cases "k < 6")
      case True
      then have t: "t = (put_worker k ((?ws ! k)\<lparr>wk_loc := P_begin\<rparr>) s)\<lparr>pc_parent := Forking (Suc k)\<rparr>"
        using run Forking by (simp add: pc_parent_exec_def)
      show ?thesis
        using conjunct1 [OF pc_forks [OF inv Forking True]] conjunct2 [OF pc_forks [OF inv Forking True]] Forking True
        by (simp add: t pc_rank_def put_worker_def)
    next
      case False
      with run Forking have t: "t = s\<lparr>pc_parent := Waiting 0\<rparr>" by (simp add: pc_parent_exec_def)
      have "parent_ok (Waiting 0) ?ws"
        using par Forking False by (auto simp: parent_ok_def)
      with inv Forking less show ?thesis
        by (auto simp: t pc_inv_def pc_rank_def split: option.splits)
    qed
  next
    case (Waiting k)
    with run have "if k < 6 then k < tally exited ?ws \<and> t = s\<lparr>pc_parent := Waiting (Suc k)\<rparr>
        else t = s\<lparr>pc_parent := Removing\<rparr>"
      by (auto simp: pc_parent_exec_def split: if_splits option.splits)
    moreover have "\<forall>j<6. exited (?ws ! j) = 1" if "6 \<le> tally exited ?ws"
      using that tally_all_one [of exited ?ws] len by (simp add: exited_def split: pc_loc.splits)
    ultimately have "parent_ok (pc_parent t) ?ws" "pc_parent t \<noteq> Returned 0"
        "t = s\<lparr>pc_parent := pc_parent t\<rparr>"
      using par Waiting by (auto simp: parent_ok_def split: if_splits)
    with inv Waiting less show ?thesis
      by (cases t) (auto simp: pc_inv_def pc_rank_def split: option.splits)
  next
    case Removing
    with run have t: "t = s\<lparr>pc_parent := Returned 0, pc_sems := None\<rparr>" by (simp add: pc_parent_exec_def)
    with inv Removing less show ?thesis by (simp add: pc_inv_def pc_rank_def parent_ok_def)
  next
    case (Returned c)
    with run show ?thesis by (simp add: pc_parent_exec_def)
  qed
qed

lemma pc_fork_fails_step:
  assumes inv: "pc_inv s" and run: "pc_fork_fails s = Some t"
  shows "pc_inv t \<and> pc_rank t < pc_rank s"
proof -
  obtain k where k: "pc_parent s = Forking k" "k < 6" "t = s\<lparr>pc_parent := Returned (-1)\<rparr>"
    using run by (auto simp: pc_fork_fails_def split: parent_loc.splits if_splits)
  then obtain v where "pc_sems s = Some v" using inv by (cases "pc_sems s") (auto simp: pc_inv_def)
  then show ?thesis using inv k by (simp add: pc_inv_def pc_rank_def parent_ok_def)
qed

lemma pc_inv_step: "pc_inv s \<Longrightarrow> sched_step pc_exec s t \<Longrightarrow> pc_inv t \<and> pc_rank t < pc_rank s"
proof -
  assume inv: "pc_inv s" and "sched_step pc_exec s t"
  then obtain i where i: "pc_exec i s = Some t" by blast
  show ?thesis
  proof (cases "i < 6")
    case True
    with i inv producer_work_step [OF inv True refl] consumer_work_step [OF inv True refl] show ?thesis
      by (cases "wk_role (pc_workers s ! i)") (simp_all add: pc_exec_def worker_exec_def Let_def)
  next
    case False
    with i have "pc_parent_exec s = Some t \<or> pc_fork_fails s = Some t" by (simp add: pc_exec_def split: if_splits)
    then show ?thesis using pc_parent_step [OF inv] pc_fork_fails_step [OF inv] by blast
  qed
qed

lemma pc_inv_init: "pc_inv pc_init"
proof -
  have nth: "pc_workers pc_init ! j = pc_child (if j < 3 then Producer else Consumer)" if "j < 6" for j
    using that by (auto simp: pc_init_def nth_append)
  have child: "wk_loc (pc_child r) = P_unborn" "wk_i (pc_child r) = 0" "wk_role (pc_child r) = r" for r
    by (simp_all add: pc_child_def)
  have "tally f (pc_workers pc_init) = 0" if "\<And>r. f (pc_child r) = 0" for f
    using that by (simp add: pc_init_def numeral_3_eq_3)
  note zero = this [of in_cs] this [of "items r" for r] this [of "inside r" for r]
    this [of "moved r" for r] this [of "shown r" for r]
  have z: "tally in_cs (pc_workers pc_init) = 0" "tally (items r) (pc_workers pc_init) = 0"
    "tally (inside r) (pc_workers pc_init) = 0" "tally (moved r) (pc_workers pc_init) = 0"
    "tally (shown r) (pc_workers pc_init) = 0" for r
    by (rule zero; simp add: contribution_defs child)+
  have rest: "pc_sems pc_init = Some [0, 1, 5]" "pc_buffer pc_init = init_buffer"
    "pc_parent pc_init = Forking 0" "pc_out pc_init = []" "map wk_role (pc_workers pc_init) = crew"
    by (simp_all add: pc_init_def crew_def child)
  show ?thesis
    unfolding pc_inv_def rest
    by (simp add: worker_ok_def nth child sems_ok_def buffer_ok_def out_ok_def parent_ok_def z
      init_buffer_def produced_chars_def consumed_chars_def)
qed

section \<open>Some process can always move\<close>

lemma inside_enabled:
  assumes inv: "pc_inv s" and j: "j < 6" and cs: "in_cs (pc_workers s ! j) = 1"
  shows "\<exists>t. pc_exec j s = Some t"
proof -
  let ?w = "pc_workers s ! j"
  obtain filled mutex vacant where S: "pc_sems s = Some [filled, mutex, vacant]"
    and B: "filled < SEMVMX" "mutex < SEMVMX" "vacant < SEMVMX"
    using inside_facts [OF inv j cs] by metis
  have loc: "wk_loc ?w \<in> {P_load, P_store, P_print, P_end}" using cs by (auto simp: in_cs_def split: if_splits)
  have exec: "pc_exec j s = (case wk_role ?w of Producer \<Rightarrow> producer_work j ?w s
      | Consumer \<Rightarrow> consumer_work j ?w s)"
    using j by (simp add: pc_exec_def worker_exec_def Let_def)
  show ?thesis
  proof (cases "wk_role ?w")
    case Producer
    with exec loc S B show ?thesis
      by (auto simp: producer_work_def pc_semop_def producer_end_sem split: option.splits)
  next
    case Consumer
    with exec loc S B show ?thesis
      by (auto simp: consumer_work_def pc_semop_def consume_end_sem split: option.splits)
  qed
qed

lemma begin_enabled:
  assumes inv: "pc_inv s" and j: "j < 6" and loc: "wk_loc (pc_workers s ! j) = P_begin"
    and S: "pc_sems s = Some [filled, mutex, vacant]" "0 < mutex" "mutex \<le> SEMVMX"
      "filled \<le> SEMVMX" "vacant \<le> SEMVMX"
    and room: "case wk_role (pc_workers s ! j) of Producer \<Rightarrow> 0 < vacant | Consumer \<Rightarrow> 0 < filled"
  shows "\<exists>t. pc_exec j s = Some t"
  using assms by (cases "wk_role (pc_workers s ! j)")
    (simp_all add: pc_exec_def worker_exec_def producer_work_def consumer_work_def pc_semop_def
      producer_begin_sem consume_begin_sem Let_def)

text \<open>A role that has not finished its 24 items has a child that has not finished its eight.\<close>

lemma unfinished:
  assumes "map wk_role ws = crew" "tally (items r) ws < 24"
  shows "\<exists>j<6. wk_role (ws ! j) = r \<and> wk_i (ws ! j) < 8"
proof (rule ccontr)
  assume none: "\<not> ?thesis"
  obtain a b c d e f where ws: "ws = [a, b, c, d, e, f]"
    and roles: "wk_role a = Producer" "wk_role b = Producer" "wk_role c = Producer"
    "wk_role d = Consumer" "wk_role e = Consumer" "wk_role f = Consumer"
    by (rule crew_explicit [OF assms(1)])
  have i: "8 \<le> wk_i w" if "w \<in> set ws" "wk_role w = r" for w
  proof -
    have "length ws = 6" by (simp add: ws)
    with that(1) obtain j where "j < 6" "w = ws ! j" by (metis in_set_conv_nth)
    with none that(2) show ?thesis by (metis not_le)
  qed
  show False
  proof (cases r)
    case Producer
    with roles i [of a] i [of b] i [of c] assms(2) show ?thesis by (simp add: ws items_def)
  next
    case Consumer
    with roles i [of d] i [of e] i [of f] assms(2) show ?thesis by (simp add: ws items_def)
  qed
qed

lemma waiting_worker:
  assumes ok: "worker_ok b w" and "wk_i w < 8" "wk_loc w \<noteq> P_unborn" "in_cs w = 0"
  shows "wk_loc w = P_begin"
  using assms by (auto simp: worker_ok_def in_cs_def split: pc_loc.splits if_splits)

text \<open>While a child is at work the consumers have not taken everything, when nobody is inside.\<close>

lemma consumers_unfinished:
  assumes inv: "pc_inv s" and j: "j < 6" and live: "exited (pc_workers s ! j) = 0"
    and all_in: "tally (items Consumer) (pc_workers s) \<le> tally (items Producer) (pc_workers s)"
  shows "tally (items Consumer) (pc_workers s) < 24"
proof (rule ccontr)
  have W: "map wk_role (pc_workers s) = crew" "\<forall>j<6. worker_ok (pc_buffer s) (pc_workers s ! j)"
    using inv by (simp_all add: pc_inv_def)
  assume "\<not> ?thesis"
  with all_in items_bound [OF W, of Producer] items_bound [OF W, of Consumer]
  have all: "tally (items Producer) (pc_workers s) = 24" "tally (items Consumer) (pc_workers s) = 24" by auto
  have "wk_i (pc_workers s ! j) < 8"
    using pc_inv_worker [OF inv j] live by (auto simp: worker_ok_def exited_def split: pc_loc.splits)
  from all one_short [OF W j this] show False by (cases "wk_role (pc_workers s ! j)") auto
qed

lemma worker_enabled:
  assumes inv: "pc_inv s" and born: "\<And>j. j < 6 \<Longrightarrow> wk_loc (pc_workers s ! j) \<noteq> P_unborn"
    and j: "j < 6" and live: "exited (pc_workers s ! j) = 0"
  shows "\<exists>k<6. \<exists>t. pc_exec k s = Some t"
proof (cases "\<exists>k<6. in_cs (pc_workers s ! k) = 1")
  case True
  with inside_enabled [OF inv] show ?thesis by blast
next
  case False
  let ?ws = "pc_workers s"
  have len: "length ?ws = 6" using inv by (rule pc_inv_length)
  obtain filled mutex vacant where S: "pc_sems s = Some [filled, mutex, vacant]"
    "sems_ok [filled, mutex, vacant] ?ws"
    using pc_inv_live [OF inv j live] .
  have W: "map wk_role ?ws = crew" "\<forall>j<6. worker_ok (pc_buffer s) (?ws ! j)"
    using inv by (simp_all add: pc_inv_def)
  note B = sems_bounds [OF W S(2)]
  have out: "in_cs (?ws ! k) = 0" if "k < 6" for k
    using False that in_cs_le(1) [of "?ws ! k"] by (auto simp: le_Suc_eq)
  then have "tally in_cs ?ws = 0" using len by (auto simp: tally_eq_0 in_set_conv_nth)
  then have eqs: "mutex = 1" "vacant + tally (items Producer) ?ws = 5 + tally (items Consumer) ?ws"
    "filled + tally (items Consumer) ?ws = tally (items Producer) ?ws"
    using S(2) tally_in_cs_roles [of ?ws] by (auto simp: sems_ok_def)
  have go: "\<exists>k<6. \<exists>t. pc_exec k s = Some t"
    if few: "tally (items r) ?ws < 24"
      and room: "case r of Producer \<Rightarrow> 0 < vacant | Consumer \<Rightarrow> 0 < filled" for r
  proof -
    obtain k where k: "k < 6" "wk_role (?ws ! k) = r" "wk_i (?ws ! k) < 8"
      using unfinished [OF W(1) few] by blast
    have "wk_loc (?ws ! k) = P_begin"
      using waiting_worker [OF pc_inv_worker [OF inv k(1)] k(3) born [OF k(1)] out [OF k(1)]] .
    from begin_enabled [OF inv k(1) this S(1)] eqs(1) B room k show ?thesis by auto
  qed
  have some: "tally (items Consumer) ?ws < 24"
    using consumers_unfinished [OF inv j live] eqs(3) by linarith
  show ?thesis
  proof (cases "filled = 0")
    case True
    with eqs some have "0 < vacant" "tally (items Producer) ?ws < 24" by auto
    then show ?thesis by (intro go [of Producer]) auto
  next
    case False
    with some show ?thesis by (intro go [of Consumer]) auto
  qed
qed

lemma pc_enabled: "pc_inv s \<Longrightarrow> \<not> pc_final s \<Longrightarrow> \<exists>t. sched_step pc_exec s t"
proof -
  assume inv: "pc_inv s" and going: "\<not> pc_final s"
  let ?ws = "pc_workers s"
  have len: "length ?ws = 6" using inv by (rule pc_inv_length)
  have par: "parent_ok (pc_parent s) ?ws" using inv by (simp add: pc_inv_def)
  have parent: ?thesis if "parent_next 6 (tally exited ?ws) (pc_parent s) = Some p" for p
    using that by (intro exI sched [of pc_exec 6]) (auto simp: pc_exec_def pc_parent_exec_def)
  show ?thesis
  proof (cases "pc_parent s")
    case (Waiting k)
    show ?thesis
    proof (cases "k < 6 \<and> tally exited ?ws \<le> k")
      case True
      then obtain j where j: "j < 6" "exited (?ws ! j) = 0"
        using tally_all_one_conv [of exited ?ws] len by auto
      have "\<And>j. j < 6 \<Longrightarrow> wk_loc (?ws ! j) \<noteq> P_unborn" using par Waiting by (simp add: parent_ok_def)
      with worker_enabled [OF inv _ j] obtain i t where "pc_exec i s = Some t" by blast
      then show ?thesis by (blast intro: sched)
    next
      case False
      with Waiting parent show ?thesis by (cases "k < 6") auto
    qed
  qed (use parent par going in \<open>auto simp: pc_final_def parent_ok_def\<close>)
qed

interpretation pc: terminating_system pc_init "sched_step pc_exec" pc_inv pc_final pc_rank
  by unfold_locales (metis pc_inv_init pc_inv_step pc_enabled)+

section \<open>Properties\<close>

abbreviation pc_reachable :: "pc_state \<Rightarrow> bool" where
  "pc_reachable s \<equiv> (sched_step pc_exec)\<^sup>*\<^sup>* pc_init s"

lemma reachable_facts:
  assumes "pc_reachable s"
  shows "pc_inv s" "length (pc_workers s) = 6" "map wk_role (pc_workers s) = crew"
    "\<forall>j<6. worker_ok (pc_buffer s) (pc_workers s ! j)"
  using pc.reachable_inv [OF assms] pc_inv_length by (auto simp: pc_inv_def)

text \<open>The equations between finished items survive the removal of the set: all is finished then.\<close>

lemma exited_ok: "worker_ok b w \<Longrightarrow> exited w = 1 \<Longrightarrow> wk_loc w = P_exited 0 \<and> wk_i w = 8"
  by (auto simp: worker_ok_def exited_def split: pc_loc.splits)

lemma item_equations:
  assumes "pc_inv s"
  shows "tally (items Producer) (pc_workers s) + tally (inside Producer) (pc_workers s)
      \<le> 5 + tally (items Consumer) (pc_workers s)"
    "tally (items Consumer) (pc_workers s) + tally (inside Consumer) (pc_workers s)
      \<le> tally (items Producer) (pc_workers s)"
    "tally in_cs (pc_workers s) \<le> 1"
proof -
  let ?ws = "pc_workers s"
  have "tally (items Producer) ?ws + tally (inside Producer) ?ws \<le> 5 + tally (items Consumer) ?ws \<and>
    tally (items Consumer) ?ws + tally (inside Consumer) ?ws \<le> tally (items Producer) ?ws \<and>
    tally in_cs ?ws \<le> 1"
  proof (cases "pc_sems s")
    case (Some v)
    with assms show ?thesis by (auto simp: pc_inv_def sems_ok_def)
  next
    case None
    with assms have all: "\<forall>j<6. exited (?ws ! j) = 1" "map wk_role ?ws = crew"
      "\<forall>j<6. worker_ok (pc_buffer s) (?ws ! j)" and len: "length ?ws = 6"
      using pc_inv_length by (auto simp: pc_inv_def parent_ok_def)
    have "w \<in> set ?ws \<Longrightarrow> in_cs w = 0" for w
      using all(1) len by (auto simp: in_set_conv_nth in_cs_def exited_def)
    then have zero: "tally in_cs ?ws = 0" by (simp add: tally_eq_0)
    have i8: "wk_i (?ws ! j) = 8" if "j < 6" for j
      using all(1,3) that exited_ok by blast
    have "\<not> tally (items r) ?ws < 24" for r
      using unfinished [OF all(2), of r] i8 by auto
    with items_bound [OF all(2,3)] have "tally (items r) ?ws = 24" for r
      by (meson add_leE le_antisym not_less)
    with zero tally_in_cs_roles [of ?ws] show ?thesis by simp
  qed
  then show "tally (items Producer) ?ws + tally (inside Producer) ?ws \<le> 5 + tally (items Consumer) ?ws"
    "tally (items Consumer) ?ws + tally (inside Consumer) ?ws \<le> tally (items Producer) ?ws"
    "tally in_cs ?ws \<le> 1" by blast+
qed

text \<open>Concrete runs, for the witnesses: an item of one process takes five steps.\<close>

lemmas pc_run_simps = pc_exec_def worker_exec_def producer_work_def consumer_work_def pc_semop_def
  next_item_def put_worker_def pc_parent_exec_def exited_def producer_begin_def producer_end_def
  consume_begin_def consume_end_def write_buffer_def read_buffer_def last_written_def init_buffer_def
  SEMVMX_def pc_child_def Let_def pc_init_def cell_def alphabet_bytes_def ALPHABET_def numeral_3_eq_3

abbreviation fork_all :: "nat list" where
  "fork_all \<equiv> [6, 6, 6, 6, 6, 6, 6]"

abbreviation item :: "nat \<Rightarrow> nat list" where
  "item k \<equiv> [k, k, k, k, k]"

abbreviation item_round :: "nat list" where
  "item_round \<equiv> item 0 @ item 1 @ item 3 @ item 4 @ item 2 @ item 5"

text \<open>C11: mutual exclusion in sem_05/lab_04/pc: in no reachable state of any interleaving are two
  different children between their first and their second \<open>semop\<close>.\<close>

theorem pc_mutual_exclusion:
  assumes "pc_reachable s" "j < 6" "k < 6" "j \<noteq> k"
  shows "in_cs (pc_workers s ! j) + in_cs (pc_workers s ! k) \<le> 1"
  using tally_two [of j "pc_workers s" k in_cs] item_equations(3) [OF reachable_facts(1)]
    reachable_facts(2) assms by (metis le_trans)

theorem pc_mutual_exclusion_witness:
  "\<exists>s. run_schedule pc_exec (fork_all @ [1, 1, 1]) pc_init = Some s \<and>
     in_cs (pc_workers s ! 1) = 1 \<and> in_cs (pc_workers s ! 0) = 0"
proof -
  have "case run_schedule pc_exec (fork_all @ [1, 1, 1]) pc_init of None \<Rightarrow> False
      | Some s \<Rightarrow> in_cs (pc_workers s ! 1) = 1" by (simp add: pc_run_simps in_cs_def)
  then obtain s where s: "run_schedule pc_exec (fork_all @ [1, 1, 1]) pc_init = Some s"
    "in_cs (pc_workers s ! 1) = 1" by (cases "run_schedule pc_exec (fork_all @ [1, 1, 1]) pc_init") auto
  have "in_cs (pc_workers s ! 1) + in_cs (pc_workers s ! 0) \<le> 1"
    by (rule pc_mutual_exclusion [OF run_schedule_reaches [OF s(1)]]) simp_all
  with s show ?thesis by auto
qed

text \<open>the buffer bound of sem_05/lab_04/pc: in every reachable state the consumers' pointer has
  not passed the producers' pointer, the producers are at most five items ahead, and both stay
  within the first 24 of the 52 letters of the shared string.\<close>

theorem pc_buffer_bounds:
  assumes "pc_reachable s"
  shows "cptr (pc_buffer s) \<le> pptr (pc_buffer s) \<and>
    pptr (pc_buffer s) \<le> cptr (pc_buffer s) + 5 \<and> pptr (pc_buffer s) \<le> 24"
proof -
  note R = reachable_facts [OF assms]
  note E = item_equations [OF R(1)]
  have "buffer_ok (pc_buffer s) (pc_workers s)" using R(1) by (simp add: pc_inv_def)
  with E moved_le_inside [of Producer "pc_workers s"] moved_le_inside [of Consumer "pc_workers s"]
    items_bound [OF R(3,4), of Producer]
  show ?thesis by (simp add: buffer_ok_def)
qed

theorem pc_buffer_bounds_witness:
  "\<exists>s. run_schedule pc_exec (fork_all @ item 0 @ item 0 @ item 0 @ item 0 @ item 0) pc_init = Some s \<and>
     pptr (pc_buffer s) = 5 \<and> pc_exec 1 s = None \<and> pptr (pc_buffer s) \<le> cptr (pc_buffer s) + 5"
proof -
  let ?run = "run_schedule pc_exec (fork_all @ item 0 @ item 0 @ item 0 @ item 0 @ item 0) pc_init"
  have "case ?run of None \<Rightarrow> False | Some s \<Rightarrow> pptr (pc_buffer s) = 5 \<and> pc_exec 1 s = None"
    by (simp add: pc_run_simps)
  then obtain s where s: "?run = Some s" "pptr (pc_buffer s) = 5 \<and> pc_exec 1 s = None"
    by (cases ?run) auto
  from pc_buffer_bounds [OF run_schedule_reaches [OF s(1)]] s show ?thesis by blast
qed

lemma shown_le_inside: "tally (shown r) ws \<le> tally (inside r) ws"
  by (rule tally_mono) (auto simp: shown_def inside_def in_cs_def)

text \<open>C9: the order of the items in sem_05/lab_04/pc: in every reachable state the letters the
  producers have printed and the letters the consumers have printed are both prefixes of the
  alphabet string (no letter is lost, repeated or overtaken), and no consumer prints a letter
  before a producer has printed it.\<close>

theorem pc_fifo:
  assumes "pc_reachable s"
  shows "\<exists>n m. n \<le> m \<and> m \<le> n + 5 \<and> produced_chars (pc_out s) = take m ALPHABET \<and>
    consumed_chars (pc_out s) = take n ALPHABET"
proof -
  note R = reachable_facts [OF assms]
  note E = item_equations [OF R(1)]
  have "out_ok (pc_out s) (pc_workers s)" using R(1) by (simp add: pc_inv_def)
  then show ?thesis
    unfolding out_ok_def
    using E shown_le_inside [of Producer "pc_workers s"] shown_le_inside [of Consumer "pc_workers s"]
    by (intro exI [of _ "tally (items Consumer) (pc_workers s) + tally (shown Consumer) (pc_workers s)"]
        exI [of _ "tally (items Producer) (pc_workers s) + tally (shown Producer) (pc_workers s)"]) auto
qed

theorem pc_fifo_witness:
  "\<exists>s n. run_schedule pc_exec (fork_all @ item 0 @ item 1 @ item 3 @ [4, 4, 4, 4]) pc_init = Some s \<and>
     consumed_chars (pc_out s) = ''ab'' \<and> consumed_chars (pc_out s) = take n ALPHABET"
proof -
  let ?run = "run_schedule pc_exec (fork_all @ item 0 @ item 1 @ item 3 @ [4, 4, 4, 4]) pc_init"
  have "case ?run of None \<Rightarrow> False | Some s \<Rightarrow> consumed_chars (pc_out s) = ''ab''"
    by (simp add: pc_run_simps consumed_chars_def)
  then obtain s where s: "?run = Some s" "consumed_chars (pc_out s) = ''ab''"
    by (cases ?run) auto
  from pc_fifo [OF run_schedule_reaches [OF s(1)]] s show ?thesis by metis
qed

text \<open>C14: sem_05/lab_04/pc neither deadlocks nor runs on: a run of the children and the parent has
  at most 255 steps, and as long as \<open>main\<close> has not returned, or exited after a \<open>fork\<close> that failed,
  some process can move.\<close>

theorem pc_terminates:
  assumes "((sched_step pc_exec) ^^ n) pc_init s"
  shows "n \<le> 255 \<and> (pc_parent s = Returned 0 \<or> pc_parent s = Returned (-1) \<or> (\<exists>t. sched_step pc_exec s t))"
proof -
  have "pc_rank pc_init = 255"
    by (simp add: pc_rank_def pc_init_def pc_child_def worker_rank_def numeral_3_eq_3)
  with pc.run_bound [OF assms] pc.reachable_enabled [OF relpowp_imp_rtranclp [OF assms]]
  show ?thesis by (auto simp: pc_final_def)
qed

theorem pc_terminates_witness:
  "\<exists>s. ((sched_step pc_exec) ^^ 2) pc_init s \<and> wk_loc (pc_workers s ! 0) = P_load \<and>
     (\<exists>t. sched_step pc_exec s t)"
proof -
  have "case pc_exec 6 pc_init of None \<Rightarrow> False | Some u \<Rightarrow> (case pc_exec 0 u of None \<Rightarrow> False
      | Some s \<Rightarrow> wk_loc (pc_workers s ! 0) = P_load \<and> pc_parent s = Forking 1)"
    by (simp add: pc_run_simps)
  then obtain u s where us: "pc_exec 6 pc_init = Some u" "pc_exec 0 u = Some s"
    "wk_loc (pc_workers s ! 0) = P_load" "pc_parent s = Forking 1"
    by (auto split: option.splits)
  have two: "((sched_step pc_exec) ^^ 2) pc_init s"
    unfolding numeral_2_eq_2 using sched [of pc_exec 6, OF us(1)] sched [of pc_exec 0, OF us(2)]
    by (meson relpowp_0_I relpowp_Suc_I)
  have "pc_parent s \<noteq> Returned 0" "pc_parent s \<noteq> Returned (-1)" using us(4) by simp_all
  with us pc_terminates [OF two] two show ?thesis by metis
qed

lemma pc_all_done:
  assumes "pc_reachable s" "pc_parent s = Returned 0"
  shows "pc_sems s = None \<and> map wk_loc (pc_workers s) = replicate 6 (P_exited 0) \<and>
    produced_chars (pc_out s) = take 24 ALPHABET \<and> consumed_chars (pc_out s) = take 24 ALPHABET"
proof -
  note R = reachable_facts [OF assms(1)]
  let ?ws = "pc_workers s"
  have final: "pc_sems s = None" and all: "\<forall>j<6. exited (?ws ! j) = 1"
    using assms(2) R(1) by (auto simp: pc_inv_def parent_ok_def)
  have done_: "wk_loc (?ws ! j) = P_exited 0 \<and> wk_i (?ws ! j) = 8" if "j < 6" for j
    using all R(4) that exited_ok by blast
  have locs: "map wk_loc ?ws = replicate 6 (P_exited 0)"
    by (rule nth_equalityI) (use R(2) done_ in auto)
  have "shown r w = 0" if "w \<in> set ?ws" for r w
    using that R(2) done_ by (auto simp: in_set_conv_nth shown_def)
  then have "tally (shown r) ?ws = 0" for r by (simp add: tally_eq_0)
  moreover have "\<not> tally (items r) ?ws < 24" for r
    using unfinished [OF R(3), of r] done_ by auto
  with items_bound [OF R(3,4)] have "tally (items r) ?ws = 24" for r
    by (meson add_leE le_antisym not_less)
  ultimately have "produced_chars (pc_out s) = take 24 ALPHABET" "consumed_chars (pc_out s) = take 24 ALPHABET"
    using R(1) by (auto simp: pc_inv_def out_ok_def)
  with final locs show ?thesis by blast
qed

text \<open>the result of sem_05/lab_04/pc: when \<open>main\<close> returns, it has exited with -1 because a
  \<open>fork\<close> failed, and the semaphore set is still there; or it returns 0, every child has
  exited with 0 after eight items, the consumers have printed exactly the 24 letters the producers
  printed, in order, and the semaphore set has been removed; it is removed only then.\<close>

theorem pc_result:
  assumes "pc_reachable s" "pc_sems s = None \<or> pc_parent s = Returned c"
  shows "c = -1 \<and> pc_parent s = Returned (-1) \<and> pc_sems s \<noteq> None \<or>
    pc_parent s = Returned 0 \<and> pc_sems s = None \<and>
    map wk_loc (pc_workers s) = replicate 6 (P_exited 0) \<and>
    produced_chars (pc_out s) = take 24 ALPHABET \<and> consumed_chars (pc_out s) = take 24 ALPHABET"
proof (cases "pc_parent s = Returned 0")
  case True
  with pc_all_done [OF assms(1)] show ?thesis by blast
next
  case False
  moreover have inv: "pc_inv s" by (rule reachable_facts(1) [OF assms(1)])
  ultimately have "pc_sems s \<noteq> None" by (cases "pc_sems s") (auto simp: pc_inv_def)
  with assms(2) inv False show ?thesis by (auto simp: pc_inv_def parent_ok_def)
qed

abbreviation whole_run :: "nat list" where
  "whole_run \<equiv> fork_all @ item_round @ item_round @ item_round @ item_round @ item_round @
     item_round @ item_round @ item_round @ [6, 6, 6, 6, 6, 6, 6, 6]"

theorem pc_result_witness:
  "\<exists>s. run_schedule pc_exec whole_run pc_init = Some s \<and> length whole_run = 255 \<and>
     consumed_chars (pc_out s) = ''abcdefghijklmnopqrstuvwx''"
proof -
  have "case run_schedule pc_exec whole_run pc_init of None \<Rightarrow> False
      | Some s \<Rightarrow> pc_parent s = Returned 0" by (simp add: pc_run_simps)
  then obtain s where s: "run_schedule pc_exec whole_run pc_init = Some s" "pc_parent s = Returned 0"
    by (cases "run_schedule pc_exec whole_run pc_init") auto
  from pc_result [OF run_schedule_reaches [OF s(1)], of 0] s show ?thesis by (simp add: ALPHABET_def)
qed

end
