(* ===== verification/Readers_Writers.thy ===== *)
theory Readers_Writers
  imports Sysv_Processes
begin

text \<open>
  sem_05/lab_04/rw: five readers and three writers over one shared counter, synchronised by two
  semaphores that count the active writers and the active readers. Each child loops while the
  counter is below 20; the test of the loop is outside the critical section, so the counter can
  pass 20. The increment \<open>(*counter)++\<close> is a load and a store.

  Of the printed lines the model keeps the values in the writers' lines, in order; a reader's line
  is the value it has seen (\<open>rw_seen\<close>).
\<close>

section \<open>Data\<close>

datatype rw_role = Reader | Writer

datatype rw_loc =
  R_unborn | R_test | R_begin | R_load | R_store | R_print | R_end | R_exited int

record rw_worker =
  rw_role :: rw_role
  rw_loc :: rw_loc
  rw_reg :: int
  rw_seen :: int

record rw_state =
  rw_sems :: "nat list option"
  counter :: int
  rw_workers :: "rw_worker list"
  rw_parent :: parent_loc
  rw_lines :: "int list"

definition start_write :: "sembuf list" where
  "start_write = [sb 1 0 0, sb 0 0 0, sb 0 1 0]"

definition stop_write :: "sembuf list" where
  "stop_write = [sb 0 (-1) 0]"

definition start_read :: "sembuf list" where
  "start_read = [sb 0 0 0, sb 1 1 0]"

definition stop_read :: "sembuf list" where
  "stop_read = [sb 1 (-1) 0]"

section \<open>Steps\<close>

definition rw_put :: "nat \<Rightarrow> rw_worker \<Rightarrow> rw_state \<Rightarrow> rw_state" where
  "rw_put j w s = s\<lparr>rw_workers := (rw_workers s)[j := w]\<rparr>"

definition rw_semop ::
    "sembuf list \<Rightarrow> nat \<Rightarrow> rw_worker \<Rightarrow> rw_worker \<Rightarrow> rw_state \<Rightarrow> rw_state option" where
  "rw_semop ops j w w' s =
     (case semop_on ops (rw_sems s) of
        Sem_wait \<Rightarrow> None
      | Sem_fail \<Rightarrow> Some (rw_put j (w\<lparr>rw_loc := R_exited (-1)\<rparr>) s)
      | Sem_ok v \<Rightarrow> Some (rw_put j w' (s\<lparr>rw_sems := Some v\<rparr>)))"

text \<open>\<open>while (*counter < 20)\<close>, in \<open>reader_create\<close> and \<open>writer_create\<close>.\<close>

definition rw_test :: "nat \<Rightarrow> rw_worker \<Rightarrow> rw_state \<Rightarrow> rw_state option" where
  "rw_test j w s =
     Some (rw_put j (w\<lparr>rw_loc := (if counter s < 20 then R_begin else R_exited 0)\<rparr>) s)"

definition writer_work :: "nat \<Rightarrow> rw_worker \<Rightarrow> rw_state \<Rightarrow> rw_state option" where
  "writer_work j w s =
     (case rw_loc w of
        R_test \<Rightarrow> rw_test j w s
      | R_begin \<Rightarrow> rw_semop start_write j w (w\<lparr>rw_loc := R_load\<rparr>) s
      | R_load \<Rightarrow> Some (rw_put j (w\<lparr>rw_reg := counter s, rw_loc := R_store\<rparr>) s)
      | R_store \<Rightarrow> Some (rw_put j (w\<lparr>rw_loc := R_print\<rparr>) (s\<lparr>counter := rw_reg w + 1\<rparr>))
      | R_print \<Rightarrow> Some (rw_put j (w\<lparr>rw_seen := counter s, rw_loc := R_end\<rparr>)
                      (s\<lparr>rw_lines := rw_lines s @ [counter s]\<rparr>))
      | R_end \<Rightarrow> rw_semop stop_write j w (w\<lparr>rw_loc := R_test\<rparr>) s
      | _ \<Rightarrow> None)"

definition reader_run :: "nat \<Rightarrow> rw_worker \<Rightarrow> rw_state \<Rightarrow> rw_state option" where
  "reader_run j w s =
     (case rw_loc w of
        R_test \<Rightarrow> rw_test j w s
      | R_begin \<Rightarrow> rw_semop start_read j w (w\<lparr>rw_loc := R_print\<rparr>) s
      | R_print \<Rightarrow> Some (rw_put j (w\<lparr>rw_seen := counter s, rw_loc := R_end\<rparr>) s)
      | R_end \<Rightarrow> rw_semop stop_read j w (w\<lparr>rw_loc := R_test\<rparr>) s
      | _ \<Rightarrow> None)"

definition rw_worker_exec :: "nat \<Rightarrow> rw_state \<Rightarrow> rw_state option" where
  "rw_worker_exec j s =
     (let w = rw_workers s ! j in
      case rw_role w of Reader \<Rightarrow> reader_run j w s | Writer \<Rightarrow> writer_work j w s)"

text \<open>The parent: five \<open>reader_create\<close>, three \<open>writer_create\<close>, eight \<open>wait\<close>s.\<close>

definition rw_exited :: "rw_worker \<Rightarrow> nat" where
  "rw_exited w = (case rw_loc w of R_exited c \<Rightarrow> 1 | _ \<Rightarrow> 0)"

definition rw_parent_exec :: "rw_state \<Rightarrow> rw_state option" where
  "rw_parent_exec s =
     (case parent_next 8 (tally rw_exited (rw_workers s)) (rw_parent s) of
        None \<Rightarrow> None
      | Some p \<Rightarrow>
          Some (case rw_parent s of
            Forking k \<Rightarrow>
              (if k < 8 then rw_put k ((rw_workers s ! k)\<lparr>rw_loc := R_test\<rparr>) s else s)\<lparr>rw_parent := p\<rparr>
          | Removing \<Rightarrow> s\<lparr>rw_parent := p, rw_sems := None\<rparr>
          | _ \<Rightarrow> s\<lparr>rw_parent := p\<rparr>))"

text \<open>A \<open>fork\<close> that fails: the parent exits with -1 and leaves its children and the set behind.\<close>

definition rw_fork_fails :: "rw_state \<Rightarrow> rw_state option" where
  "rw_fork_fails s =
     (case rw_parent s of Forking k \<Rightarrow> if k < 8 then Some (s\<lparr>rw_parent := Returned (-1)\<rparr>) else None | _ \<Rightarrow> None)"

text \<open>Processes 0 to 4 are the readers, 5 to 7 the writers, 8 is the parent; 9 stands for its \<open>fork\<close> when
  it fails.\<close>

definition rw_exec :: "nat \<Rightarrow> rw_state \<Rightarrow> rw_state option" where
  "rw_exec i s =
     (if i < 8 then rw_worker_exec i s else if i = 8 then rw_parent_exec s else if i = 9 then rw_fork_fails s else None)"

definition rw_child :: "rw_role \<Rightarrow> rw_worker" where
  "rw_child r = \<lparr>rw_role = r, rw_loc = R_unborn, rw_reg = 0, rw_seen = 0\<rparr>"

definition rw_init :: rw_state where
  "rw_init = \<lparr>rw_sems = Some [0, 0], counter = 0,
     rw_workers = replicate 5 (rw_child Reader) @ replicate 3 (rw_child Writer),
     rw_parent = Forking 0, rw_lines = []\<rparr>"

section \<open>The invariant\<close>

definition rw_inside :: "rw_role \<Rightarrow> rw_worker \<Rightarrow> nat" where
  "rw_inside r w = (if rw_role w = r \<and> rw_loc w \<in> {R_load, R_store, R_print, R_end} then 1 else 0)"

text \<open>Writers that have passed the test and will still increment the counter.\<close>

definition pending :: "rw_worker \<Rightarrow> nat" where
  "pending w = (if rw_role w = Writer \<and> rw_loc w \<in> {R_begin, R_load, R_store} then 1 else 0)"

text \<open>Writers that have incremented the counter and not yet printed their line.\<close>

definition unprinted :: "rw_worker \<Rightarrow> nat" where
  "unprinted w = (if rw_role w = Writer \<and> rw_loc w = R_print then 1 else 0)"

definition rw_worker_ok :: "int \<Rightarrow> rw_worker \<Rightarrow> bool" where
  "rw_worker_ok n w \<longleftrightarrow>
     (case rw_loc w of
        R_load \<Rightarrow> rw_role w = Writer
      | R_store \<Rightarrow> rw_role w = Writer \<and> rw_reg w = n
      | R_print \<Rightarrow> (rw_role w = Writer \<longrightarrow> n = rw_reg w + 1)
      | R_end \<Rightarrow> rw_seen w = n
      | R_exited c \<Rightarrow> c = 0 \<and> 20 \<le> n
      | _ \<Rightarrow> True)"

definition rw_sems_ok :: "nat list \<Rightarrow> rw_worker list \<Rightarrow> bool" where
  "rw_sems_ok v ws \<longleftrightarrow>
     v = [tally (rw_inside Writer) ws, tally (rw_inside Reader) ws] \<and>
     tally (rw_inside Writer) ws \<le> 1 \<and>
     (tally (rw_inside Writer) ws = 0 \<or> tally (rw_inside Reader) ws = 0)"

definition rw_counter_ok :: "int \<Rightarrow> int list \<Rightarrow> rw_worker list \<Rightarrow> bool" where
  "rw_counter_ok n ls ws \<longleftrightarrow>
     0 \<le> n \<and> n + int (tally pending ws) \<le> 22 \<and>
     int (tally unprinted ws) \<le> n \<and> ls = [1..n - int (tally unprinted ws)]"

definition rw_parent_ok :: "parent_loc \<Rightarrow> rw_worker list \<Rightarrow> bool" where
  "rw_parent_ok p ws \<longleftrightarrow>
     (case p of
        Forking k \<Rightarrow> k \<le> 8 \<and> (\<forall>j<8. rw_loc (ws ! j) = R_unborn \<longleftrightarrow> k \<le> j)
      | Waiting k \<Rightarrow> k \<le> tally rw_exited ws \<and> (\<forall>j<8. rw_loc (ws ! j) \<noteq> R_unborn)
      | Removing \<Rightarrow> (\<forall>j<8. rw_exited (ws ! j) = 1)
      | Returned c \<Rightarrow> c = -1 \<or> c = 0 \<and> (\<forall>j<8. rw_exited (ws ! j) = 1))"

definition rw_crew :: "rw_role list" where
  "rw_crew = replicate 5 Reader @ replicate 3 Writer"

definition rw_inv :: "rw_state \<Rightarrow> bool" where
  "rw_inv s \<longleftrightarrow>
     map rw_role (rw_workers s) = rw_crew \<and>
     (\<forall>j<8. rw_worker_ok (counter s) (rw_workers s ! j)) \<and>
     (case rw_sems s of Some v \<Rightarrow> rw_sems_ok v (rw_workers s) | None \<Rightarrow> rw_parent s = Returned 0) \<and>
     (rw_parent s = Returned 0 \<longrightarrow> rw_sems s = None) \<and>
     rw_counter_ok (counter s) (rw_lines s) (rw_workers s) \<and>
     rw_parent_ok (rw_parent s) (rw_workers s)"

section \<open>Consequences of the invariant\<close>

definition rw_active :: "rw_worker \<Rightarrow> bool" where
  "rw_active w \<longleftrightarrow> rw_loc w \<in> {R_test, R_begin, R_load, R_store, R_print, R_end}"

lemma length_rw_crew [simp]: "length rw_crew = 8"
  by (simp add: rw_crew_def)

lemma rw_inv_length: "rw_inv s \<Longrightarrow> length (rw_workers s) = 8"
  unfolding rw_inv_def by (metis length_map length_rw_crew)

lemma rw_inv_worker: "rw_inv s \<Longrightarrow> j < 8 \<Longrightarrow> rw_worker_ok (counter s) (rw_workers s ! j)"
  by (simp add: rw_inv_def)

lemma rw_active_exited: "rw_active w \<Longrightarrow> rw_exited w = 0"
  by (auto simp: rw_active_def rw_exited_def)

lemma rw_inv_live:
  assumes "rw_inv s" "j < 8" "rw_exited (rw_workers s ! j) = 0"
  shows "rw_sems s = Some [tally (rw_inside Writer) (rw_workers s), tally (rw_inside Reader) (rw_workers s)]"
    "rw_sems_ok [tally (rw_inside Writer) (rw_workers s), tally (rw_inside Reader) (rw_workers s)]
      (rw_workers s)"
proof -
  have "rw_parent s \<noteq> Returned 0"
    using assms by (auto simp: rw_inv_def rw_parent_ok_def)
  then obtain v where "rw_sems s = Some v" "rw_sems_ok v (rw_workers s)"
    using assms(1) by (auto simp: rw_inv_def split: option.splits)
  then show "rw_sems s = Some [tally (rw_inside Writer) (rw_workers s), tally (rw_inside Reader) (rw_workers s)]"
    "rw_sems_ok [tally (rw_inside Writer) (rw_workers s), tally (rw_inside Reader) (rw_workers s)]
      (rw_workers s)"
    by (auto simp: rw_sems_ok_def)
qed

text \<open>There are three writers, so at most three pending increments; and eight children.\<close>

lemma pending_bound: "map rw_role ws = rw_crew \<Longrightarrow> tally pending ws \<le> 3"
proof -
  assume roles: "map rw_role ws = rw_crew"
  have "tally pending ws \<le> tally (\<lambda>w. if rw_role w = Writer then 1 else 0) ws"
    by (rule tally_mono) (simp add: pending_def)
  also have "\<dots> = tally (\<lambda>r. if r = Writer then 1 else 0) (map rw_role ws)"
    by (simp add: tally_def comp_def)
  also have "\<dots> = 3" by (simp add: roles rw_crew_def numeral_eq_Suc)
  finally show ?thesis .
qed

lemma rw_inside_bound: "map rw_role ws = rw_crew \<Longrightarrow> tally (rw_inside r) ws \<le> 8"
proof -
  assume "map rw_role ws = rw_crew"
  then have "length ws = 8" by (metis length_map length_rw_crew)
  with tally_le [of ws "rw_inside r" 1] show ?thesis by (simp add: rw_inside_def)
qed

section \<open>Semaphore calls\<close>

lemma start_write_sem:
  "semop start_write [nw, nr] = (if nr = 0 \<and> nw = 0 then Sem_ok [1, 0] else Sem_wait)"
  by (simp add: start_write_def SEMVMX_def)

lemma stop_write_sem:
  "nw \<le> SEMVMX \<Longrightarrow> semop stop_write [nw, nr] = (if nw = 0 then Sem_wait else Sem_ok [nw - 1, nr])"
  by (auto simp: stop_write_def nat_diff_distrib')

lemma start_read_sem:
  "nr < SEMVMX \<Longrightarrow> semop start_read [nw, nr] = (if nw = 0 then Sem_ok [nw, nr + 1] else Sem_wait)"
  by (auto simp: start_read_def nat_add_distrib)

lemma stop_read_sem:
  "nr \<le> SEMVMX \<Longrightarrow> semop stop_read [nw, nr] = (if nr = 0 then Sem_wait else Sem_ok [nw, nr - 1])"
  by (auto simp: stop_read_def nat_diff_distrib')

section \<open>Every step keeps the invariant\<close>

lemma rw_inv_put:
  assumes inv: "rw_inv s" and j: "j < 8" and act: "rw_active (rw_workers s ! j)"
    and role: "rw_role w = rw_role (rw_workers s ! j)" and born: "rw_loc w \<noteq> R_unborn"
    and me: "rw_worker_ok n w"
    and others: "\<And>k. k < 8 \<Longrightarrow> k \<noteq> j \<Longrightarrow> rw_worker_ok n (rw_workers s ! k)"
    and sems: "rw_sems_ok v ((rw_workers s)[j := w])"
    and cnt: "rw_counter_ok n ls ((rw_workers s)[j := w])"
  shows "rw_inv (rw_put j w (s\<lparr>rw_sems := Some v, counter := n, rw_lines := ls\<rparr>))"
proof -
  let ?ws = "rw_workers s"
  have len: "length ?ws = 8" using inv by (rule rw_inv_length)
  have roles: "map rw_role (?ws[j := w]) = rw_crew"
    using inv role j len by (simp add: rw_inv_def map_update) (metis list_update_id nth_map)
  have live: "rw_exited (?ws ! j) = 0" using act by (rule rw_active_exited)
  have old: "rw_parent_ok (rw_parent s) ?ws" using inv by (simp add: rw_inv_def)
  have more: "tally rw_exited ?ws \<le> tally rw_exited (?ws[j := w])"
    using tally_update [of j ?ws rw_exited w] j len live by simp
  have loc: "rw_loc (?ws ! j) \<noteq> R_unborn" using act by (auto simp: rw_active_def)
  have parent: "rw_parent_ok (rw_parent s) (?ws[j := w])"
    using old more loc born j len live
    by (auto simp: rw_parent_ok_def nth_list_update split: parent_loc.splits)
  have running: "rw_parent s \<noteq> Returned 0"
    using old live j by (auto simp: rw_parent_ok_def)
  have "\<forall>k<8. rw_worker_ok n (?ws[j := w] ! k)"
    using me others j len by (auto simp: nth_list_update)
  with roles parent running sems cnt show ?thesis
    by (simp add: rw_inv_def rw_put_def)
qed

lemma rw_tally_changes:
  assumes "j < length ws"
  shows "tally (rw_inside r) (ws[j := w]) + rw_inside r (ws ! j) = tally (rw_inside r) ws + rw_inside r w"
    "tally pending (ws[j := w]) + pending (ws ! j) = tally pending ws + pending w"
    "tally unprinted (ws[j := w]) + unprinted (ws ! j) = tally unprinted ws + unprinted w"
  using assms by (simp_all add: tally_update)

lemmas rw_contribution_defs = rw_inside_def pending_def unprinted_def

text \<open>A step that changes neither the counter nor the lines.\<close>

lemma rw_inv_quiet:
  assumes inv: "rw_inv s" and j: "j < 8" and act: "rw_active (rw_workers s ! j)"
    and role: "rw_role w = rw_role (rw_workers s ! j)" and born: "rw_loc w \<noteq> R_unborn"
    and me: "rw_worker_ok (counter s) w"
    and sems: "rw_sems_ok v ((rw_workers s)[j := w])"
    and pend: "pending w \<le> pending (rw_workers s ! j)"
    and unp: "unprinted w = unprinted (rw_workers s ! j)"
  shows "rw_inv (rw_put j w (s\<lparr>rw_sems := Some v\<rparr>))"
proof -
  have len: "j < length (rw_workers s)" using inv j by (simp add: rw_inv_length)
  note change = rw_tally_changes [where j = j and ws = "rw_workers s" and w = w, OF len]
  have "rw_counter_ok (counter s) (rw_lines s) ((rw_workers s)[j := w])"
    using inv change(2,3) pend unp by (auto simp: rw_inv_def rw_counter_ok_def)
  from rw_inv_put [OF inv j act role born me _ sems this] rw_inv_worker [OF inv] show ?thesis by simp
qed

text \<open>The same, with the semaphores and the child's place as they are.\<close>

lemma rw_inv_still:
  assumes inv: "rw_inv s" and j: "j < 8" and act: "rw_active (rw_workers s ! j)"
    and role: "rw_role w = rw_role (rw_workers s ! j)" and born: "rw_loc w \<noteq> R_unborn"
    and me: "rw_worker_ok (counter s) w"
    and place: "\<And>r. rw_inside r w = rw_inside r (rw_workers s ! j)"
    and pend: "pending w \<le> pending (rw_workers s ! j)"
    and unp: "unprinted w = unprinted (rw_workers s ! j)"
  shows "rw_inv (rw_put j w s)"
proof -
  have len: "j < length (rw_workers s)" using inv j by (simp add: rw_inv_length)
  note live = rw_inv_live [OF inv j rw_active_exited [OF act]]
  have "tally (rw_inside r) ((rw_workers s)[j := w]) = tally (rw_inside r) (rw_workers s)" for r
    by (rule tally_update_same [OF len place])
  then have "rw_sems_ok [tally (rw_inside Writer) (rw_workers s), tally (rw_inside Reader) (rw_workers s)]
      ((rw_workers s)[j := w])"
    using live(2) by (simp add: rw_sems_ok_def)
  from rw_inv_quiet [OF inv j act role born me this pend unp] show ?thesis
    by (simp flip: live(1))
qed

lemma rw_test_inv:
  assumes inv: "rw_inv s" and j: "j < 8" and w: "w = rw_workers s ! j" and loc: "rw_loc w = R_test"
    and run: "rw_test j w s = Some t"
  shows "rw_inv t"
proof (cases "counter s < 20")
  case False
  have act: "rw_active (rw_workers s ! j)" using w loc by (simp add: rw_active_def)
  from False run have t: "t = rw_put j (w\<lparr>rw_loc := R_exited 0\<rparr>) s" by (simp add: rw_test_def)
  show ?thesis
    unfolding t by (rule rw_inv_still [OF inv j act])
      (use False loc w in \<open>simp_all add: rw_contribution_defs rw_worker_ok_def\<close>)
next
  case True
  have act: "rw_active (rw_workers s ! j)" using w loc by (simp add: rw_active_def)
  let ?w = "w\<lparr>rw_loc := R_begin\<rparr>" and ?ws = "rw_workers s"
  from True run have t: "t = rw_put j ?w s" by (simp add: rw_test_def)
  have len: "j < length ?ws" using inv j by (simp add: rw_inv_length)
  note live = rw_inv_live [OF inv j rw_active_exited [OF act]]
  note change = rw_tally_changes [where j = j and ws = ?ws and w = ?w, OF len]
  have same: "tally (rw_inside r) (?ws[j := ?w]) = tally (rw_inside r) ?ws"
    "tally unprinted (?ws[j := ?w]) = tally unprinted ?ws" for r
    using change(1) [of r] change(3) loc w by (simp_all add: rw_contribution_defs)
  have "map rw_role (?ws[j := ?w]) = rw_crew"
    using inv w len by (simp add: rw_inv_def map_update) (metis list_update_id nth_map)
  then have "tally pending (?ws[j := ?w]) \<le> 3" by (rule pending_bound)
  with True inv have cnt: "rw_counter_ok (counter s) (rw_lines s) (?ws[j := ?w])"
    by (simp add: rw_inv_def rw_counter_ok_def same)
  have "rw_sems_ok [tally (rw_inside Writer) ?ws, tally (rw_inside Reader) ?ws] (?ws[j := ?w])"
    using live(2) by (simp add: rw_sems_ok_def same)
  from rw_inv_put [OF inv j act _ _ _ _ this cnt] rw_inv_worker [OF inv] w show ?thesis
    by (simp add: t rw_worker_ok_def flip: live(1))
qed

lemma writer_begin_inv:
  assumes inv: "rw_inv s" and j: "j < 8" and w: "w = rw_workers s ! j" and loc: "rw_loc w = R_begin"
    and role: "rw_role w = Writer"
    and run: "rw_semop start_write j w (w\<lparr>rw_loc := R_load\<rparr>) s = Some t"
  shows "rw_inv t"
proof -
  let ?w = "w\<lparr>rw_loc := R_load\<rparr>" and ?ws = "rw_workers s"
  have act: "rw_active (rw_workers s ! j)" using w loc by (simp add: rw_active_def)
  have len: "j < length ?ws" using inv j by (simp add: rw_inv_length)
  note live = rw_inv_live [OF inv j rw_active_exited [OF act]]
  from run live(1) have none: "tally (rw_inside Writer) ?ws = 0" "tally (rw_inside Reader) ?ws = 0"
    and t: "t = rw_put j ?w (s\<lparr>rw_sems := Some [1, 0]\<rparr>)"
    by (auto simp: rw_semop_def start_write_sem split: if_splits)
  note change = rw_tally_changes [where j = j and ws = ?ws and w = ?w, OF len]
  have "rw_sems_ok [1, 0] (?ws[j := ?w])"
    using change(1) [of Writer] change(1) [of Reader] none loc role w
    by (simp add: rw_sems_ok_def rw_inside_def)
  then show ?thesis
    unfolding t by (intro rw_inv_quiet [OF inv j act])
      (use loc role w in \<open>simp_all add: rw_worker_ok_def rw_contribution_defs\<close>)
qed

lemma reader_begin_inv:
  assumes inv: "rw_inv s" and j: "j < 8" and w: "w = rw_workers s ! j" and loc: "rw_loc w = R_begin"
    and role: "rw_role w = Reader"
    and run: "rw_semop start_read j w (w\<lparr>rw_loc := R_print\<rparr>) s = Some t"
  shows "rw_inv t"
proof -
  let ?w = "w\<lparr>rw_loc := R_print\<rparr>" and ?ws = "rw_workers s"
  have act: "rw_active (rw_workers s ! j)" using w loc by (simp add: rw_active_def)
  have len: "j < length ?ws" using inv j by (simp add: rw_inv_length)
  note live = rw_inv_live [OF inv j rw_active_exited [OF act]]
  have "tally (rw_inside Reader) ?ws < SEMVMX"
    using rw_inside_bound [of ?ws Reader] inv by (simp add: rw_inv_def SEMVMX_def)
  with run live(1) have none: "tally (rw_inside Writer) ?ws = 0"
    and t: "t = rw_put j ?w (s\<lparr>rw_sems := Some [0, tally (rw_inside Reader) ?ws + 1]\<rparr>)"
    by (auto simp: rw_semop_def start_read_sem split: if_splits)
  note change = rw_tally_changes [where j = j and ws = ?ws and w = ?w, OF len]
  have "rw_sems_ok [0, tally (rw_inside Reader) ?ws + 1] (?ws[j := ?w])"
    using change(1) [of Writer] change(1) [of Reader] none loc role w
    by (simp add: rw_sems_ok_def rw_inside_def)
  then show ?thesis
    unfolding t by (intro rw_inv_quiet [OF inv j act])
      (use loc role w in \<open>simp_all add: rw_worker_ok_def rw_contribution_defs\<close>)
qed

text \<open>A writer that is inside is alone inside.\<close>

lemma writer_alone:
  assumes inv: "rw_inv s" and j: "j < 8" and me: "rw_inside Writer (rw_workers s ! j) = 1"
  shows "tally (rw_inside Writer) (rw_workers s) = 1" "tally (rw_inside Reader) (rw_workers s) = 0"
    "tally unprinted (rw_workers s) = unprinted (rw_workers s ! j)"
    "\<And>k r. k < 8 \<Longrightarrow> k \<noteq> j \<Longrightarrow> rw_inside r (rw_workers s ! k) = 0"
    "rw_active (rw_workers s ! j)"
proof -
  let ?ws = "rw_workers s"
  have len: "length ?ws = 8" using inv by (rule rw_inv_length)
  show act: "rw_active (?ws ! j)" using me by (auto simp: rw_inside_def rw_active_def split: if_splits)
  have pos: "1 \<le> tally (rw_inside Writer) ?ws"
    using tally_elem [of j ?ws "rw_inside Writer"] j len me by simp
  with rw_inv_live(2) [OF inv j rw_active_exited [OF act]]
  have one: "tally (rw_inside Writer) ?ws = 1" and none: "tally (rw_inside Reader) ?ws = 0"
    by (auto simp: rw_sems_ok_def)
  show "tally (rw_inside Writer) ?ws = 1" "tally (rw_inside Reader) ?ws = 0" by (fact one none)+
  show "tally unprinted ?ws = unprinted (?ws ! j)"
    by (rule tally_alone [of j ?ws "rw_inside Writer"]) (use j len one me in \<open>auto simp: unprinted_def rw_inside_def\<close>)
  show "rw_inside r (?ws ! k) = 0" if "k < 8" "k \<noteq> j" for k r
  proof (cases r)
    case Reader
    with none that len show ?thesis by (simp add: tally_eq_0)
  next
    case Writer
    with tally_two [of j ?ws k "rw_inside Writer"] one me that j len show ?thesis by simp
  qed
qed

lemma rw_worker_ok_outside:
  "rw_inside Reader w = 0 \<Longrightarrow> rw_inside Writer w = 0 \<Longrightarrow> n \<le> m \<Longrightarrow> rw_worker_ok n w \<Longrightarrow>
   rw_worker_ok m w"
  by (cases "rw_role w") (auto simp: rw_worker_ok_def rw_inside_def split: rw_loc.splits)

lemma writer_load_inv:
  assumes inv: "rw_inv s" and j: "j < 8" and w: "w = rw_workers s ! j" and loc: "rw_loc w = R_load"
    and role: "rw_role w = Writer"
  shows "rw_inv (rw_put j (w\<lparr>rw_reg := counter s, rw_loc := R_store\<rparr>) s)"
  by (rule rw_inv_still [OF inv j])
    (use loc role w in \<open>simp_all add: rw_active_def rw_contribution_defs rw_worker_ok_def\<close>)

lemma writer_store_inv:
  assumes inv: "rw_inv s" and j: "j < 8" and w: "w = rw_workers s ! j" and loc: "rw_loc w = R_store"
    and role: "rw_role w = Writer"
  shows "rw_inv (rw_put j (w\<lparr>rw_loc := R_print\<rparr>) (s\<lparr>counter := rw_reg w + 1\<rparr>)) \<and> rw_reg w = counter s"
proof -
  let ?w = "w\<lparr>rw_loc := R_print\<rparr>" and ?ws = "rw_workers s"
  have me: "rw_inside Writer (?ws ! j) = 1" using w loc role by (simp add: rw_inside_def)
  note alone = writer_alone [OF inv j me]
  note live = rw_inv_live [OF inv j rw_active_exited [OF alone(5)]]
  have len: "j < length ?ws" using inv j by (simp add: rw_inv_length)
  note change = rw_tally_changes [where j = j and ws = ?ws and w = ?w, OF len]
  have reg: "rw_reg w = counter s" using rw_inv_worker [OF inv j] w loc by (simp add: rw_worker_ok_def)
  have same: "tally (rw_inside r) (?ws[j := ?w]) = tally (rw_inside r) ?ws" for r
    using change(1) [of r] loc role w by (simp add: rw_inside_def)
  have cnt: "rw_counter_ok (counter s + 1) (rw_lines s) (?ws[j := ?w])"
    using inv change(2,3) alone(3) loc role w
    by (simp add: rw_inv_def rw_counter_ok_def pending_def unprinted_def)
  have others: "rw_worker_ok (counter s + 1) (?ws ! k)" if "k < 8" "k \<noteq> j" for k
    using rw_worker_ok_outside [OF alone(4) [OF that] alone(4) [OF that] _ rw_inv_worker [OF inv that(1)]]
    by simp
  have sems: "rw_sems_ok [tally (rw_inside Writer) ?ws, tally (rw_inside Reader) ?ws] (?ws[j := ?w])"
    using live(2) by (simp add: rw_sems_ok_def same)
  from rw_inv_put [OF inv j alone(5) _ _ _ others sems cnt] w reg show ?thesis
    by (simp add: rw_worker_ok_def flip: live(1))
qed

lemma upto_snoc_int: "1 \<le> n \<Longrightarrow> [1..n - 1] @ [n] = [1..n::int]"
  by (simp add: upto_rec2)

lemma writer_print_inv:
  assumes inv: "rw_inv s" and j: "j < 8" and w: "w = rw_workers s ! j" and loc: "rw_loc w = R_print"
    and role: "rw_role w = Writer"
  shows "rw_inv (rw_put j (w\<lparr>rw_seen := counter s, rw_loc := R_end\<rparr>)
    (s\<lparr>rw_lines := rw_lines s @ [counter s]\<rparr>))"
proof -
  let ?w = "w\<lparr>rw_seen := counter s, rw_loc := R_end\<rparr>" and ?ws = "rw_workers s"
  have me: "rw_inside Writer (?ws ! j) = 1" using w loc role by (simp add: rw_inside_def)
  note alone = writer_alone [OF inv j me]
  note live = rw_inv_live [OF inv j rw_active_exited [OF alone(5)]]
  have len: "j < length ?ws" using inv j by (simp add: rw_inv_length)
  note change = rw_tally_changes [where j = j and ws = ?ws and w = ?w, OF len]
  have same: "tally (rw_inside r) (?ws[j := ?w]) = tally (rw_inside r) ?ws" for r
    using change(1) [of r] loc role w by (simp add: rw_inside_def)
  have cnt: "rw_counter_ok (counter s) (rw_lines s @ [counter s]) (?ws[j := ?w])"
    using inv change(2,3) alone(3) loc role w upto_snoc_int [of "counter s"]
    by (simp add: rw_inv_def rw_counter_ok_def pending_def unprinted_def)
  have sems: "rw_sems_ok [tally (rw_inside Writer) ?ws, tally (rw_inside Reader) ?ws] (?ws[j := ?w])"
    using live(2) by (simp add: rw_sems_ok_def same)
  from rw_inv_put [OF inv j alone(5) _ _ _ _ sems cnt] w rw_inv_worker [OF inv] show ?thesis
    by (simp add: rw_worker_ok_def flip: live(1))
qed

lemma reader_print_inv:
  assumes inv: "rw_inv s" and j: "j < 8" and w: "w = rw_workers s ! j" and loc: "rw_loc w = R_print"
    and role: "rw_role w = Reader"
  shows "rw_inv (rw_put j (w\<lparr>rw_seen := counter s, rw_loc := R_end\<rparr>) s)"
  by (rule rw_inv_still [OF inv j])
    (use loc role w in \<open>simp_all add: rw_active_def rw_contribution_defs rw_worker_ok_def\<close>)

lemma rw_end_inv:
  assumes inv: "rw_inv s" and j: "j < 8" and w: "w = rw_workers s ! j" and loc: "rw_loc w = R_end"
    and run: "rw_semop (case rw_role w of Writer \<Rightarrow> stop_write | Reader \<Rightarrow> stop_read)
      j w (w\<lparr>rw_loc := R_test\<rparr>) s = Some t"
  shows "rw_inv t"
proof -
  let ?w = "w\<lparr>rw_loc := R_test\<rparr>" and ?ws = "rw_workers s"
  have act: "rw_active (rw_workers s ! j)" using w loc by (simp add: rw_active_def)
  have len: "j < length ?ws" using inv j by (simp add: rw_inv_length)
  note live = rw_inv_live [OF inv j rw_active_exited [OF act]]
  have B: "tally (rw_inside r) ?ws \<le> SEMVMX" for r
    using rw_inside_bound [of ?ws r] inv by (simp add: rw_inv_def SEMVMX_def)
  note change = rw_tally_changes [where j = j and ws = ?ws and w = ?w, OF len]
  have mine: "rw_inside r (?ws ! j) = (if r = rw_role w then 1 else 0)" "rw_inside r ?w = 0" for r
    using loc w by (simp_all add: rw_inside_def eq_commute)
  let ?v = "[tally (rw_inside Writer) (?ws[j := ?w]), tally (rw_inside Reader) (?ws[j := ?w])]"
  have old: "tally (rw_inside r) ?ws = tally (rw_inside r) (?ws[j := ?w]) + (if r = rw_role w then 1 else 0)" for r
    using change(1) [of r] by (simp add: mine)
  have "semop (case rw_role w of Writer \<Rightarrow> stop_write | Reader \<Rightarrow> stop_read)
      [tally (rw_inside Writer) ?ws, tally (rw_inside Reader) ?ws] = Sem_ok ?v"
    using B [of Writer] B [of Reader] old [of Writer] old [of Reader]
    by (cases "rw_role w") (simp_all add: stop_write_sem stop_read_sem)
  with run live(1) have t: "t = rw_put j ?w (s\<lparr>rw_sems := Some ?v\<rparr>)" by (simp add: rw_semop_def)
  have v: "rw_sems_ok ?v (?ws[j := ?w])"
    using live(2) old [of Writer] old [of Reader] by (auto simp: rw_sems_ok_def)
  show ?thesis
    unfolding t by (rule rw_inv_quiet [OF inv j act])
      (use v loc w in \<open>simp_all add: rw_worker_ok_def rw_contribution_defs\<close>)
qed

lemma rw_worker_step:
  assumes inv: "rw_inv s" and j: "j < 8" and run: "rw_worker_exec j s = Some t"
  shows "rw_inv t"
proof -
  let ?w = "rw_workers s ! j"
  show ?thesis
  proof (cases "rw_role ?w")
    case Reader
    with run have r: "reader_run j ?w s = Some t" by (simp add: rw_worker_exec_def Let_def)
    then show ?thesis
      using rw_test_inv [OF inv j refl] reader_begin_inv [OF inv j refl _ Reader]
        reader_print_inv [OF inv j refl _ Reader] rw_end_inv [OF inv j refl] Reader
      by (cases "rw_loc ?w") (auto simp: reader_run_def)
  next
    case Writer
    with run have r: "writer_work j ?w s = Some t" by (simp add: rw_worker_exec_def Let_def)
    then show ?thesis
      using rw_test_inv [OF inv j refl] writer_begin_inv [OF inv j refl _ Writer]
        writer_load_inv [OF inv j refl _ Writer] writer_store_inv [OF inv j refl _ Writer]
        writer_print_inv [OF inv j refl _ Writer] rw_end_inv [OF inv j refl] Writer
      by (cases "rw_loc ?w") (auto simp: writer_work_def)
  qed
qed

lemma rw_fork_inv:
  assumes inv: "rw_inv s" and p: "rw_parent s = Forking k" and k: "k < 8"
  shows "rw_loc (rw_workers s ! k) = R_unborn"
    "rw_inv ((rw_put k ((rw_workers s ! k)\<lparr>rw_loc := R_test\<rparr>) s)\<lparr>rw_parent := Forking (Suc k)\<rparr>)"
proof -
  let ?ws = "rw_workers s"
  let ?w = "(?ws ! k)\<lparr>rw_loc := R_test\<rparr>"
  have len: "length ?ws = 8" using inv by (rule rw_inv_length)
  have par: "rw_parent_ok (Forking k) ?ws" using inv by (simp add: rw_inv_def p)
  then show unborn: "rw_loc (?ws ! k) = R_unborn" using k by (simp add: rw_parent_ok_def)
  have same: "tally (rw_inside r) (?ws[k := ?w]) = tally (rw_inside r) ?ws"
    "tally pending (?ws[k := ?w]) = tally pending ?ws"
    "tally unprinted (?ws[k := ?w]) = tally unprinted ?ws" for r
    by (rule tally_update_same; use k len unborn in \<open>simp add: rw_contribution_defs\<close>)+
  have roles: "map rw_role (?ws[k := ?w]) = rw_crew"
    using inv len k by (simp add: rw_inv_def map_update) (metis list_update_id nth_map)
  have "rw_worker_ok (counter s) ?w" by (simp add: rw_worker_ok_def)
  then have ok: "\<forall>j<8. rw_worker_ok (counter s) (?ws[k := ?w] ! j)"
    using rw_inv_worker [OF inv] len k by (simp add: nth_list_update)
  have par': "rw_parent_ok (Forking (Suc k)) (?ws[k := ?w])"
    using par k len by (auto simp: rw_parent_ok_def nth_list_update)
  show "rw_inv ((rw_put k ?w s)\<lparr>rw_parent := Forking (Suc k)\<rparr>)"
    using inv roles ok par' p
    by (auto simp: rw_inv_def rw_put_def rw_sems_ok_def rw_counter_ok_def same split: option.splits)
qed

lemma rw_worker_parent:
  assumes "rw_worker_exec i s = Some t"
  shows "rw_parent t = rw_parent s"
  using assms by (auto simp: rw_worker_exec_def reader_run_def writer_work_def rw_semop_def rw_test_def rw_put_def Let_def
      split: rw_role.splits rw_loc.splits semop_result.splits if_splits)

lemma rw_parent_step:
  assumes inv: "rw_inv s" and run: "rw_parent_exec s = Some t"
  shows "rw_inv t"
proof -
  let ?ws = "rw_workers s"
  have len: "length ?ws = 8" using inv by (rule rw_inv_length)
  have par: "rw_parent_ok (rw_parent s) ?ws" using inv by (simp add: rw_inv_def)
  show ?thesis
  proof (cases "rw_parent s")
    case (Forking k)
    show ?thesis
    proof (cases "k < 8")
      case True
      with run Forking rw_fork_inv(2) [OF inv Forking True] show ?thesis
        by (simp add: rw_parent_exec_def)
    next
      case False
      with run Forking have t: "t = s\<lparr>rw_parent := Waiting 0\<rparr>" by (simp add: rw_parent_exec_def)
      have "rw_parent_ok (Waiting 0) ?ws"
        using par Forking False by (auto simp: rw_parent_ok_def)
      with inv Forking show ?thesis by (auto simp: t rw_inv_def split: option.splits)
    qed
  next
    case (Waiting k)
    with run have "if k < 8 then k < tally rw_exited ?ws \<and> t = s\<lparr>rw_parent := Waiting (Suc k)\<rparr>
        else t = s\<lparr>rw_parent := Removing\<rparr>"
      by (auto simp: rw_parent_exec_def split: if_splits option.splits)
    moreover have "\<forall>j<8. rw_exited (?ws ! j) = 1" if "8 \<le> tally rw_exited ?ws"
      using that tally_all_one [of rw_exited ?ws] len by (simp add: rw_exited_def split: rw_loc.splits)
    ultimately have "rw_parent_ok (rw_parent t) ?ws" "rw_parent t \<noteq> Returned 0"
        "t = s\<lparr>rw_parent := rw_parent t\<rparr>"
      using par Waiting by (auto simp: rw_parent_ok_def split: if_splits)
    with inv Waiting show ?thesis
      by (cases t) (auto simp: rw_inv_def split: option.splits)
  next
    case Removing
    with run have t: "t = s\<lparr>rw_parent := Returned 0, rw_sems := None\<rparr>" by (simp add: rw_parent_exec_def)
    with inv Removing show ?thesis by (simp add: rw_inv_def rw_parent_ok_def)
  next
    case (Returned c)
    with run show ?thesis by (simp add: rw_parent_exec_def)
  qed
qed

lemma rw_fork_fails_step:
  assumes inv: "rw_inv s" and run: "rw_fork_fails s = Some t"
  shows "rw_inv t"
proof -
  obtain k where k: "rw_parent s = Forking k" "k < 8" "t = s\<lparr>rw_parent := Returned (-1)\<rparr>"
    using run by (auto simp: rw_fork_fails_def split: parent_loc.splits if_splits)
  then obtain v where "rw_sems s = Some v" using inv by (cases "rw_sems s") (auto simp: rw_inv_def)
  then show ?thesis using inv k by (simp add: rw_inv_def rw_parent_ok_def)
qed

lemma rw_inv_step: "rw_inv s \<Longrightarrow> sched_step rw_exec s t \<Longrightarrow> rw_inv t"
proof -
  assume inv: "rw_inv s" and "sched_step rw_exec s t"
  then obtain i where i: "rw_exec i s = Some t" by blast
  show ?thesis
  proof (cases "i < 8")
    case True
    with i have "rw_worker_exec i s = Some t" by (simp add: rw_exec_def)
    then show ?thesis by (rule rw_worker_step [OF inv True])
  next
    case False
    with i have "rw_parent_exec s = Some t \<or> rw_fork_fails s = Some t" by (simp add: rw_exec_def split: if_splits)
    then show ?thesis using rw_parent_step [OF inv] rw_fork_fails_step [OF inv] by blast
  qed
qed

lemma rw_inv_init: "rw_inv rw_init"
proof -
  have nth: "rw_workers rw_init ! j = rw_child (if j < 5 then Reader else Writer)" if "j < 8" for j
    using that by (auto simp: rw_init_def nth_append)
  have child: "rw_loc (rw_child r) = R_unborn" "rw_role (rw_child r) = r" for r
    by (simp_all add: rw_child_def)
  have zero: "tally f (rw_workers rw_init) = 0" if "\<And>r. f (rw_child r) = 0" for f
    using that by (simp add: rw_init_def numeral_eq_Suc)
  have z: "tally (rw_inside r) (rw_workers rw_init) = 0" "tally pending (rw_workers rw_init) = 0"
    "tally unprinted (rw_workers rw_init) = 0" for r
    by (rule zero; simp add: rw_contribution_defs child)+
  have rest: "rw_sems rw_init = Some [0, 0]" "counter rw_init = 0" "rw_parent rw_init = Forking 0"
    "rw_lines rw_init = []" "map rw_role (rw_workers rw_init) = rw_crew"
    by (simp_all add: rw_init_def rw_crew_def child)
  show ?thesis
    unfolding rw_inv_def rest
    by (simp add: rw_worker_ok_def nth child rw_sems_ok_def rw_counter_ok_def rw_parent_ok_def z)
qed

section \<open>Progress\<close>

text \<open>
  The readers can keep the semaphore of the active readers above zero for ever, so no rank
  decreases along every run. The rank below decreases along a well chosen step: while the counter
  is below 20 a reader that is inside leaves and a writer goes round once, which moves the
  counter; from 20 on every child goes to its exit.
\<close>

definition rw_worker_rank :: "int \<Rightarrow> rw_worker \<Rightarrow> nat" where
  "rw_worker_rank n w =
     (if rw_loc w = R_unborn then 12
      else if 20 \<le> n then
        (case rw_loc w of R_begin \<Rightarrow> 6 | R_load \<Rightarrow> 5 | R_store \<Rightarrow> 4 | R_print \<Rightarrow> 3 | R_end \<Rightarrow> 2
           | R_test \<Rightarrow> 1 | _ \<Rightarrow> 0)
      else
        (case rw_role w of
           Reader \<Rightarrow> (case rw_loc w of R_print \<Rightarrow> 2 | R_end \<Rightarrow> 1 | _ \<Rightarrow> 0)
         | Writer \<Rightarrow> (case rw_loc w of R_print \<Rightarrow> 6 | R_end \<Rightarrow> 5 | R_test \<Rightarrow> 4 | R_begin \<Rightarrow> 3
             | R_load \<Rightarrow> 2 | R_store \<Rightarrow> 1 | _ \<Rightarrow> 0)))"

definition rw_rank :: "rw_state \<Rightarrow> nat" where
  "rw_rank s = parent_rank 8 (rw_parent s) + tally (rw_worker_rank (counter s)) (rw_workers s)
     + 100 * nat (22 - counter s)"

definition rw_final :: "rw_state \<Rightarrow> bool" where
  "rw_final s \<longleftrightarrow> rw_parent s = Returned 0 \<or> rw_parent s = Returned (-1)"

lemma rw_rank_put:
  assumes "j < length (rw_workers s)"
    "rw_worker_rank (counter s) w < rw_worker_rank (counter s) (rw_workers s ! j)"
    "rw_workers s' = rw_workers s" "rw_parent s' = rw_parent s" "counter s' = counter s"
  shows "rw_rank (rw_put j w s') < rw_rank s"
  using tally_update [OF assms(1), of "rw_worker_rank (counter s)" w] assms
  by (simp add: rw_rank_def rw_put_def)

text \<open>Moving the counter outweighs anything else.\<close>

lemma rw_rank_store:
  assumes "length (rw_workers s) = 8" "counter s < 22" "counter s' = counter s + 1"
    "rw_workers s' = rw_workers s" "rw_parent s' = rw_parent s"
  shows "rw_rank (rw_put j w s') < rw_rank s"
proof -
  have le: "rw_worker_rank n w \<le> 12" for n w
    by (auto simp: rw_worker_rank_def split: rw_loc.splits rw_role.splits)
  have "tally (rw_worker_rank (counter s')) ((rw_workers s)[j := w]) \<le> 12 * 8"
    using tally_le [of "(rw_workers s)[j := w]" "rw_worker_rank (counter s')" 12] le assms(1) by simp
  moreover have "nat (22 - counter s) = Suc (nat (22 - counter s'))"
    using assms(2,3) by simp
  ultimately show ?thesis using assms(4,5) by (simp add: rw_rank_def rw_put_def)
qed

lemma rw_semop_ok:
  "semop_on ops (rw_sems s) = Sem_ok v \<Longrightarrow> rw_semop ops j w w' s = Some (rw_put j w' (s\<lparr>rw_sems := Some v\<rparr>))"
  by (simp add: rw_semop_def)

text \<open>A child that is inside can take a step, and it is a step towards the end.\<close>

lemma inside_closer:
  assumes inv: "rw_inv s" and j: "j < 8" and me: "rw_inside r (rw_workers s ! j) = 1"
  shows "\<exists>t. rw_exec j s = Some t \<and> rw_rank t < rw_rank s"
proof -
  let ?ws = "rw_workers s" and ?w = "rw_workers s ! j"
  have len: "j < length ?ws" "length ?ws = 8" using inv j by (simp_all add: rw_inv_length)
  have role: "rw_role ?w = r" and act: "rw_active ?w"
    using me by (auto simp: rw_inside_def rw_active_def split: if_splits)
  note live = rw_inv_live(1) [OF inv j rw_active_exited [OF act]]
  have B: "tally (rw_inside q) ?ws \<le> SEMVMX" for q
    using rw_inside_bound [of ?ws q] inv by (simp add: rw_inv_def SEMVMX_def)
  have pos: "tally (rw_inside r) ?ws \<noteq> 0" using tally_elem [OF len(1), of "rw_inside r"] me by simp
  have ok: "rw_worker_ok (counter s) ?w" by (rule rw_inv_worker [OF inv j])
  note puts = rw_rank_put [OF len(1)]
  have exec: "rw_exec j s = (case r of Reader \<Rightarrow> reader_run j ?w s | Writer \<Rightarrow> writer_work j ?w s)"
    using j role by (simp add: rw_exec_def rw_worker_exec_def Let_def)
  show ?thesis
  proof (cases "rw_loc ?w")
    case R_load
    with ok role have "r = Writer" by (simp add: rw_worker_ok_def)
    with R_load exec role show ?thesis
      by (auto simp: writer_work_def rw_worker_rank_def intro!: puts)
  next
    case R_store
    with ok role have r: "r = Writer" by (simp add: rw_worker_ok_def)
    have "0 < tally pending ?ws"
      using tally_elem [OF len(1), of pending] R_store role r by (simp add: pending_def)
    with inv have "counter s < 22" by (simp add: rw_inv_def rw_counter_ok_def)
    with R_store exec r ok show ?thesis
      by (auto simp: writer_work_def rw_worker_ok_def intro!: rw_rank_store [OF len(2)])
  next
    case R_print
    with exec role show ?thesis
      by (cases r) (auto simp: writer_work_def reader_run_def rw_worker_rank_def intro!: puts)
  next
    case R_end
    have "rw_exec j s = Some (rw_put j (?w\<lparr>rw_loc := R_test\<rparr>) (s\<lparr>rw_sems := Some
        [tally (rw_inside Writer) ?ws - (if r = Writer then 1 else 0),
         tally (rw_inside Reader) ?ws - (if r = Reader then 1 else 0)]\<rparr>))"
      using exec R_end pos B [of r] live
      by (cases r) (simp_all add: writer_work_def reader_run_def rw_semop_def stop_write_sem stop_read_sem)
    with R_end role show ?thesis by (cases r) (auto simp: rw_worker_rank_def intro!: puts)
  qed (use me in \<open>simp_all add: rw_inside_def\<close>)
qed

text \<open>With nobody inside, a writer (below 20) or any child (from 20 on) can.\<close>

lemma outside_closer:
  assumes inv: "rw_inv s" and j: "j < 8" and act: "rw_active (rw_workers s ! j)"
    and out: "\<And>k r. k < 8 \<Longrightarrow> rw_inside r (rw_workers s ! k) = 0"
    and who: "counter s < 20 \<Longrightarrow> rw_role (rw_workers s ! j) = Writer"
  shows "\<exists>t. rw_exec j s = Some t \<and> rw_rank t < rw_rank s"
proof -
  let ?ws = "rw_workers s" and ?w = "rw_workers s ! j"
  have len: "j < length ?ws" "length ?ws = 8" using inv j by (simp_all add: rw_inv_length)
  have none: "tally (rw_inside r) ?ws = 0" for r
    using out len by (auto simp: tally_eq_0 in_set_conv_nth)
  note live = rw_inv_live(1) [OF inv j rw_active_exited [OF act], unfolded none]
  have loc: "rw_loc ?w = R_test \<or> rw_loc ?w = R_begin"
    using act out [OF j, of "rw_role ?w"] by (auto simp: rw_active_def rw_inside_def split: if_splits)
  have exec: "rw_exec j s = (case rw_role ?w of Reader \<Rightarrow> reader_run j ?w s | Writer \<Rightarrow> writer_work j ?w s)"
    using j by (simp add: rw_exec_def rw_worker_exec_def Let_def)
  note puts = rw_rank_put [OF len(1)]
  show ?thesis
  proof (cases "rw_loc ?w = R_test")
    case True
    then have "rw_exec j s = rw_test j ?w s"
      using exec by (cases "rw_role ?w") (simp_all add: reader_run_def writer_work_def)
    with True who show ?thesis
      by (auto simp: rw_test_def rw_worker_rank_def intro!: puts split: rw_role.splits)
  next
    case False
    with loc have "rw_loc ?w = R_begin" by simp
    moreover have "20 \<le> counter s \<or> rw_role ?w = Writer" using who by linarith
    ultimately show ?thesis
      using exec live
      by (cases "rw_role ?w")
        (auto simp: reader_run_def writer_work_def rw_semop_def start_read_sem start_write_sem SEMVMX_def
          rw_worker_rank_def intro!: puts)
  qed
qed

lemma rw_worker_closer:
  assumes inv: "rw_inv s" and born: "\<And>k. k < 8 \<Longrightarrow> rw_loc (rw_workers s ! k) \<noteq> R_unborn"
    and j: "j < 8" "rw_exited (rw_workers s ! j) = 0"
  shows "\<exists>i t. rw_exec i s = Some t \<and> rw_rank t < rw_rank s"
proof (cases "\<exists>k<8. \<exists>r. rw_inside r (rw_workers s ! k) = 1")
  case True
  with inside_closer [OF inv] show ?thesis by blast
next
  case False
  have out: "rw_inside r (rw_workers s ! k) = 0" if "k < 8" for k r
  proof -
    have "rw_inside r (rw_workers s ! k) \<noteq> 1" using False that by blast
    then show ?thesis by (auto simp: rw_inside_def split: if_splits)
  qed
  have act: "rw_active (rw_workers s ! k)" if "k < 8" "rw_exited (rw_workers s ! k) = 0" for k
    using born [OF that(1)] that(2)
    by (cases "rw_loc (rw_workers s ! k)") (auto simp: rw_active_def rw_exited_def)
  have len: "length (rw_workers s) = 8" using inv by (rule rw_inv_length)
  show ?thesis
  proof (cases "counter s < 20")
    case True
    have "rw_role (rw_workers s ! 7) = rw_crew ! 7"
      using inv len nth_map [of 7 "rw_workers s" rw_role] by (simp add: rw_inv_def)
    then have writer: "rw_role (rw_workers s ! 7) = Writer" by (simp add: rw_crew_def nth_append)
    have "rw_exited (rw_workers s ! 7) = 0"
      using rw_inv_worker [OF inv, of 7] True by (auto simp: rw_worker_ok_def rw_exited_def split: rw_loc.splits)
    with outside_closer [OF inv, of 7] act [of 7] out writer show ?thesis by auto
  next
    case False
    with outside_closer [OF inv j(1) act [OF j] out] show ?thesis by blast
  qed
qed

text \<open>The runs in which every \<open>fork\<close> succeeds.\<close>

definition rw_grants :: "nat \<Rightarrow> rw_state \<Rightarrow> rw_state option" where
  "rw_grants i s = (if i = 9 then None else rw_exec i s)"

lemma rw_grants_exec: "sched_step rw_grants s t \<Longrightarrow> sched_step rw_exec s t"
  by (auto simp: rw_grants_def intro: sched split: if_splits)

lemma rw_forks_closer:
  assumes inv: "rw_inv s" and Forking: "rw_parent s = Forking k" and True: "k < 8"
  shows "rw_exec 8 s = Some ((rw_put k ((rw_workers s ! k)\<lparr>rw_loc := R_test\<rparr>) s)\<lparr>rw_parent := Forking (Suc k)\<rparr>) \<and>
    rw_rank ((rw_put k ((rw_workers s ! k)\<lparr>rw_loc := R_test\<rparr>) s)\<lparr>rw_parent := Forking (Suc k)\<rparr>) < rw_rank s"
proof -
  let ?ws = "rw_workers s"
  have len: "length ?ws = 8" using inv by (rule rw_inv_length)
  let ?t = "(rw_put k ((?ws ! k)\<lparr>rw_loc := R_test\<rparr>) s)\<lparr>rw_parent := Forking (Suc k)\<rparr>"
  have exec: "rw_exec 8 s = Some ?t" using Forking True by (simp add: rw_exec_def rw_parent_exec_def)
  have "rw_rank (rw_put k ((?ws ! k)\<lparr>rw_loc := R_test\<rparr>) s) < rw_rank s"
    using rw_fork_inv(1) [OF inv Forking True] True len
    by (intro rw_rank_put) (auto simp: rw_worker_rank_def split: rw_role.splits)
  moreover have "rw_rank ?t \<le> rw_rank (rw_put k ((?ws ! k)\<lparr>rw_loc := R_test\<rparr>) s)"
    using Forking by (simp add: rw_rank_def rw_put_def)
  ultimately show ?thesis using exec by simp
qed

lemma rw_closer:
  assumes inv: "rw_inv s" and going: "\<not> rw_final s"
  shows "\<exists>t. sched_step rw_grants s t \<and> rw_rank t < rw_rank s"
proof -
  let ?ws = "rw_workers s"
  have len: "length ?ws = 8" using inv by (rule rw_inv_length)
  have par: "rw_parent_ok (rw_parent s) ?ws" using inv by (simp add: rw_inv_def)
  have step: ?thesis if "rw_exec i s = Some t" "rw_rank t < rw_rank s" "i \<noteq> 9" for i t
    using that sched [of rw_grants i s t] by (metis rw_grants_def)
  have parent: ?thesis if "parent_next 8 (tally rw_exited ?ws) (rw_parent s) = Some p"
      "\<nexists>k. rw_parent s = Forking k \<and> k < 8" for p
  proof -
    let ?t = "s\<lparr>rw_parent := p, rw_sems := (if rw_parent s = Removing then None else rw_sems s)\<rparr>"
    have "rw_exec 8 s = Some ?t"
      using that(2) by (simp add: rw_exec_def rw_parent_exec_def that(1) split: parent_loc.split)
    with parent_rank_decreases [OF that(1)] show ?thesis by (intro step) (auto simp: rw_rank_def)
  qed
  show ?thesis
  proof (cases "rw_parent s")
    case (Forking k)
    show ?thesis
    proof (cases "k < 8")
      case True
      note forks = rw_forks_closer [OF inv Forking this]
      show ?thesis by (rule step [OF conjunct1 [OF forks] conjunct2 [OF forks]]) simp
    qed (use parent Forking in auto)
  next
    case (Waiting k)
    show ?thesis
    proof (cases "k < 8 \<and> tally rw_exited ?ws \<le> k")
      case True
      then obtain j where j: "j < 8" "rw_exited (?ws ! j) = 0"
        using tally_all_one_conv [of rw_exited ?ws] len by auto
      have "\<And>j. j < 8 \<Longrightarrow> rw_loc (?ws ! j) \<noteq> R_unborn" using par Waiting by (simp add: rw_parent_ok_def)
      with rw_worker_closer [OF inv _ j] obtain i t where "rw_exec i s = Some t" "rw_rank t < rw_rank s"
        by blast
      moreover have "rw_exec 9 s = None" using Waiting by (simp add: rw_exec_def rw_fork_fails_def)
      ultimately show ?thesis by (intro step) auto
    next
      case False
      with Waiting parent show ?thesis by (cases "k < 8") auto
    qed
  qed (use parent par going in \<open>auto simp: rw_final_def rw_parent_ok_def\<close>)
qed

interpretation rw: attainable_system rw_init "sched_step rw_exec" rw_inv rw_final rw_rank
  by unfold_locales (metis rw_inv_init rw_inv_step rw_closer rw_grants_exec)+

definition rw_unbroken :: "rw_state \<Rightarrow> bool" where
  "rw_unbroken s \<longleftrightarrow> rw_inv s \<and> rw_parent s \<noteq> Returned (-1)"

lemma rw_unbroken_step: "rw_unbroken s \<Longrightarrow> sched_step rw_grants s t \<Longrightarrow> rw_unbroken t"
proof -
  assume s: "rw_unbroken s" and step: "sched_step rw_grants s t"
  then obtain i where i: "i \<noteq> 9" "rw_exec i s = Some t" by (auto simp: rw_grants_def split: if_splits)
  have "rw_parent t \<noteq> Returned (-1)"
  proof (cases "i < 8")
    case True
    then have "rw_worker_exec i s = Some t" using i by (simp add: rw_exec_def)
    then show ?thesis using s rw_worker_parent [of i s t] by (simp add: rw_unbroken_def)
  next
    case False
    then have "rw_parent_exec s = Some t" using i by (simp add: rw_exec_def split: if_splits)
    then show ?thesis
      by (auto simp: rw_parent_exec_def rw_put_def split: option.splits parent_loc.splits if_splits)
  qed
  moreover have "rw_inv t" using s rw_inv_step [OF _ rw_grants_exec [OF step]] by (simp add: rw_unbroken_def)
  ultimately show ?thesis by (simp add: rw_unbroken_def)
qed

interpretation rw_granted: attainable_system rw_init "sched_step rw_grants" rw_unbroken "\<lambda>s. rw_parent s = Returned 0" rw_rank
proof
  show "rw_unbroken rw_init" using rw_inv_init by (simp add: rw_unbroken_def rw_init_def)
  show "rw_unbroken t" if "rw_unbroken s" "sched_step rw_grants s t" for s t by (rule rw_unbroken_step [OF that])
  show "\<exists>t. sched_step rw_grants s t \<and> rw_rank t < rw_rank s" if "rw_unbroken s" "rw_parent s \<noteq> Returned 0" for s
    using rw_closer that by (simp add: rw_unbroken_def rw_final_def)
qed

section \<open>Properties\<close>

abbreviation rw_reachable :: "rw_state \<Rightarrow> bool" where
  "rw_reachable s \<equiv> (sched_step rw_exec)\<^sup>*\<^sup>* rw_init s"

lemma rw_all_exited:
  assumes "rw_inv s" "rw_sems s = None \<or> rw_parent s = Returned 0"
  shows "rw_parent s = Returned 0" "rw_sems s = None" "map rw_loc (rw_workers s) = replicate 8 (R_exited 0)"
    "20 \<le> counter s" "tally (rw_inside r) (rw_workers s) = 0" "tally unprinted (rw_workers s) = 0"
proof -
  let ?ws = "rw_workers s"
  have len: "length ?ws = 8" using assms(1) by (rule rw_inv_length)
  show p: "rw_parent s = Returned 0" and "rw_sems s = None"
    using assms by (auto simp: rw_inv_def rw_parent_ok_def)
  then have all: "rw_exited (?ws ! j) = 1" if "j < 8" for j
    using assms(1) that by (auto simp: rw_inv_def rw_parent_ok_def)
  have loc: "rw_loc (?ws ! j) = R_exited 0 \<and> 20 \<le> counter s" if "j < 8" for j
    using all [OF that] rw_inv_worker [OF assms(1) that]
    by (auto simp: rw_worker_ok_def rw_exited_def split: rw_loc.splits)
  show "map rw_loc ?ws = replicate 8 (R_exited 0)" by (rule nth_equalityI) (use len loc in auto)
  show "20 \<le> counter s" using loc [of 0] by simp
  show "tally (rw_inside r) ?ws = 0" "tally unprinted ?ws = 0"
    using loc len by (auto simp: tally_eq_0 in_set_conv_nth rw_inside_def unprinted_def)
qed

lemma rw_inside_facts:
  assumes "rw_inv s"
  shows "tally (rw_inside Writer) (rw_workers s) \<le> 1"
    "tally (rw_inside Writer) (rw_workers s) = 0 \<or> tally (rw_inside Reader) (rw_workers s) = 0"
proof -
  have "tally (rw_inside Writer) (rw_workers s) \<le> 1 \<and>
    (tally (rw_inside Writer) (rw_workers s) = 0 \<or> tally (rw_inside Reader) (rw_workers s) = 0)"
  proof (cases "rw_sems s")
    case None
    then have "tally (rw_inside r) (rw_workers s) = 0" for r by (intro rw_all_exited(5) [OF assms]) simp
    then show ?thesis by simp
  next
    case (Some v)
    then have "rw_sems_ok v (rw_workers s)" using assms by (simp add: rw_inv_def)
    then show ?thesis by (simp only: rw_sems_ok_def)
  qed
  then show "tally (rw_inside Writer) (rw_workers s) \<le> 1"
    "tally (rw_inside Writer) (rw_workers s) = 0 \<or> tally (rw_inside Reader) (rw_workers s) = 0"
    by simp_all
qed

text \<open>Concrete runs, for the witnesses.\<close>

lemma replicate_five: "replicate 5 x = [x, x, x, x, x]"
  by (simp add: numeral_eq_Suc)

lemmas rw_run_simps = rw_exec_def rw_worker_exec_def reader_run_def writer_work_def rw_semop_def
  rw_test_def rw_put_def rw_parent_exec_def rw_exited_def start_write_def stop_write_def
  start_read_def stop_read_def SEMVMX_def rw_child_def Let_def rw_init_def numeral_3_eq_3
  replicate_five

abbreviation rw_fork_all :: "nat list" where
  "rw_fork_all \<equiv> [8, 8, 8, 8, 8, 8, 8, 8, 8]"

abbreviation write_once :: "nat \<Rightarrow> nat list" where
  "write_once j \<equiv> [j, j, j, j, j, j]"

text \<open>C12: exclusion in sem_05/lab_04/rw: in every reachable state of any interleaving at most one
  writer is active, and a writer and a reader are never active together.\<close>

theorem rw_exclusion:
  assumes "rw_reachable s"
  shows "tally (rw_inside Writer) (rw_workers s) \<le> 1 \<and>
    (tally (rw_inside Writer) (rw_workers s) = 0 \<or> tally (rw_inside Reader) (rw_workers s) = 0)"
  using rw_inside_facts [OF rw.reachable_inv [OF assms]] by blast

theorem rw_exclusion_witness:
  "\<exists>s. run_schedule rw_exec (rw_fork_all @ [5, 5, 0]) rw_init = Some s \<and>
     rw_loc (rw_workers s ! 5) = R_load \<and> rw_exec 0 s = None \<and>
     tally (rw_inside Reader) (rw_workers s) = 0"
proof -
  let ?run = "run_schedule rw_exec (rw_fork_all @ [5, 5, 0]) rw_init"
  have "case ?run of None \<Rightarrow> False | Some s \<Rightarrow> rw_loc (rw_workers s ! 5) = R_load \<and>
      rw_role (rw_workers s ! 5) = Writer \<and> length (rw_workers s) = 8 \<and> rw_exec 0 s = None"
    by (simp add: rw_run_simps)
  then obtain s where s: "?run = Some s" "rw_loc (rw_workers s ! 5) = R_load"
    "rw_role (rw_workers s ! 5) = Writer" "length (rw_workers s) = 8" "rw_exec 0 s = None"
    by (cases ?run) auto
  then have "tally (rw_inside Writer) (rw_workers s) \<noteq> 0"
    using tally_elem [of 5 "rw_workers s" "rw_inside Writer"] by (simp add: rw_inside_def)
  with rw_exclusion [OF run_schedule_reaches [OF s(1)]] s show ?thesis by auto
qed

text \<open>C10: no lost update in sem_05/lab_04/rw: in every reachable state the writers have printed the
  values 1, 2, 3, ... without gap or repetition, the counter is the last printed value or one more
  (a writer is about to print), it is exactly the last printed value while a reader is active, and
  it never passes 22, so the C \<open>int\<close> does not overflow.\<close>

theorem rw_no_lost_update:
  assumes "rw_reachable s"
  shows "\<exists>n. rw_lines s = [1..n] \<and> 0 \<le> n \<and> (counter s = n \<or> counter s = n + 1) \<and> counter s \<le> 22 \<and>
    (tally (rw_inside Reader) (rw_workers s) > 0 \<longrightarrow> counter s = n)"
proof -
  let ?ws = "rw_workers s"
  note inv = rw.reachable_inv [OF assms]
  have cnt: "rw_counter_ok (counter s) (rw_lines s) ?ws" using inv by (simp add: rw_inv_def)
  have "tally unprinted ?ws \<le> tally (rw_inside Writer) ?ws"
    by (rule tally_mono) (simp add: unprinted_def rw_inside_def)
  with cnt rw_inside_facts [OF inv] show ?thesis
    by (intro exI [of _ "counter s - int (tally unprinted ?ws)"]) (auto simp: rw_counter_ok_def)
qed

theorem rw_no_lost_update_witness:
  "\<exists>s n. run_schedule rw_exec (rw_fork_all @ write_once 5 @ write_once 7 @ [0, 0, 0]) rw_init = Some s \<and>
     rw_lines s = [1, 2] \<and> rw_lines s = [1..n] \<and> rw_seen (rw_workers s ! 0) = 2"
proof -
  let ?run = "run_schedule rw_exec (rw_fork_all @ write_once 5 @ write_once 7 @ [0, 0, 0]) rw_init"
  have "case ?run of None \<Rightarrow> False | Some s \<Rightarrow> rw_lines s = [1, 2] \<and> rw_seen (rw_workers s ! 0) = 2"
    by (simp add: rw_run_simps)
  then obtain s where s: "?run = Some s" "rw_lines s = [1, 2]" "rw_seen (rw_workers s ! 0) = 2"
    by (cases ?run) auto
  from rw_no_lost_update [OF run_schedule_reaches [OF s(1)]] s show ?thesis by metis
qed

text \<open>C15: sem_05/lab_04/rw cannot deadlock or livelock beyond repair: from every reachable state
  some interleaving takes \<open>main\<close> to its return, unless it has exited because a \<open>fork\<close> failed.\<close>

theorem rw_can_finish:
  assumes "rw_reachable s"
  shows "\<exists>t. (sched_step rw_exec)\<^sup>*\<^sup>* s t \<and> rw_parent t = (if rw_parent s = Returned (-1) then Returned (-1) else Returned 0)"
proof (cases "rw_parent s = Returned (-1)")
  case True
  then show ?thesis by auto
next
  case False
  then have "rw_unbroken s" using rw.reachable_inv [OF assms] by (simp add: rw_unbroken_def)
  then obtain t where "(sched_step rw_grants)\<^sup>*\<^sup>* s t" "rw_parent t = Returned 0"
    using rw_granted.inv_can_finish by blast
  then show ?thesis using False mono_rtranclp [of "sched_step rw_grants" "sched_step rw_exec"] rw_grants_exec by metis
qed

theorem rw_can_finish_witness:
  "\<exists>s t. run_schedule rw_exec (rw_fork_all @ [5, 6, 7, 0, 0]) rw_init = Some s \<and> rw_exec 5 s = None \<and>
     (sched_step rw_exec)\<^sup>*\<^sup>* s t \<and> rw_parent t = Returned 0"
proof -
  let ?run = "run_schedule rw_exec (rw_fork_all @ [5, 6, 7, 0, 0]) rw_init"
  have "case ?run of None \<Rightarrow> False | Some s \<Rightarrow> rw_exec 5 s = None \<and> rw_parent s = Waiting 0"
    by (simp add: rw_run_simps)
  then obtain s where s: "?run = Some s" "rw_exec 5 s = None" "rw_parent s = Waiting 0" by (cases ?run) auto
  from rw_can_finish [OF run_schedule_reaches [OF s(1)]] s show ?thesis by auto
qed

text \<open>the result of sem_05/lab_04/rw: when \<open>main\<close> returns, it has exited with -1 because a \<open>fork\<close>
  failed, and the semaphores are still there; or it returns 0 and has removed the
  semaphores, all eight children have exited with 0, the counter is 20, 21 or 22, and the writers
  have printed exactly the values from 1 to it.\<close>

theorem rw_result:
  assumes "rw_reachable s" "rw_parent s = Returned c"
  shows "c = -1 \<and> rw_sems s \<noteq> None \<or>
    c = 0 \<and> rw_sems s = None \<and> map rw_loc (rw_workers s) = replicate 8 (R_exited 0) \<and>
    20 \<le> counter s \<and> counter s \<le> 22 \<and> rw_lines s = [1..counter s]"
proof (cases "rw_parent s = Returned 0")
  case True
  note inv = rw.reachable_inv [OF assms(1)]
  have "rw_counter_ok (counter s) (rw_lines s) (rw_workers s)" using inv by (simp add: rw_inv_def)
  with rw_all_exited [OF inv] True assms(2) show ?thesis by (simp add: rw_counter_ok_def)
next
  case False
  moreover have inv: "rw_inv s" by (rule rw.reachable_inv [OF assms(1)])
  ultimately have "rw_sems s \<noteq> None" by (cases "rw_sems s") (auto simp: rw_inv_def)
  with assms(2) inv False show ?thesis by (auto simp: rw_inv_def rw_parent_ok_def)
qed

text \<open>Nineteen writes by one writer, then the other children pass the test at 19 together.\<close>

abbreviation four_writes :: "nat list" where
  "four_writes \<equiv> write_once 5 @ write_once 5 @ write_once 5 @ write_once 5"

abbreviation overshoot :: "nat list" where
  "overshoot \<equiv> rw_fork_all @ four_writes @ four_writes @ four_writes @ four_writes @
     write_once 5 @ write_once 5 @ write_once 5 @ [5, 6, 7] @
     [5, 5, 5, 5, 5] @ [6, 6, 6, 6, 6] @ [7, 7, 7, 7, 7] @
     [0, 1, 2, 3, 4, 5, 6, 7] @ [8, 8, 8, 8, 8, 8, 8, 8, 8, 8]"

theorem rw_result_witness:
  "\<exists>s. run_schedule rw_exec overshoot rw_init = Some s \<and> rw_parent s = Returned 0 \<and>
     counter s = 22 \<and> rw_lines s = [1..22]"
proof -
  let ?run = "run_schedule rw_exec overshoot rw_init"
  have "case ?run of None \<Rightarrow> False | Some s \<Rightarrow> rw_parent s = Returned 0 \<and> counter s = 22"
    by (simp add: rw_run_simps)
  then obtain s where s: "?run = Some s" "rw_parent s = Returned 0" "counter s = 22"
    by (cases ?run) auto
  from rw_result [OF run_schedule_reaches [OF s(1)] s(2)] s show ?thesis by auto
qed

text \<open>Two readers that relieve each other: reader 1 enters before reader 0 leaves, and conversely.\<close>

abbreviation relay :: "nat list" where
  "relay \<equiv> [1, 1, 1, 0, 0, 0, 0, 1]"

definition writers_blocked :: "rw_state option \<Rightarrow> bool" where
  "writers_blocked s = (case s of None \<Rightarrow> False
     | Some u \<Rightarrow> list_all (\<lambda>j. Option.is_none (rw_exec j u) \<and> rw_loc (rw_workers u ! j) = R_begin) [5, 6, 7])"

text \<open>the writers of sem_05/lab_04/rw can starve: there is a reachable state from which two
  readers alone can run for ever (they return to the same state), while at every moment of the
  cycle all three writers are blocked in \<open>semop(start_write)\<close>.\<close>

theorem rw_writer_starvation:
  "\<exists>s. rw_reachable s \<and> (sched_step rw_exec)\<^sup>+\<^sup>+ s s \<and> run_schedule rw_exec relay s = Some s \<and>
     list_all (\<lambda>k. writers_blocked (run_schedule rw_exec (take k relay) s)) [0..<9]"
proof -
  let ?run = "run_schedule rw_exec (rw_fork_all @ [5, 6, 7, 0, 0]) rw_init"
  have "case ?run of None \<Rightarrow> False | Some s \<Rightarrow> run_schedule rw_exec relay s = Some s \<and>
      list_all (\<lambda>k. writers_blocked (run_schedule rw_exec (take k relay) s)) [0, 1, 2, 3, 4, 5, 6, 7, 8]"
    by (simp add: rw_run_simps writers_blocked_def)
  moreover have "[0..<9] = [0, 1, 2, 3, 4, 5, 6, 7, 8::nat]" by (simp add: upt_rec)
  ultimately obtain s where s: "?run = Some s" "run_schedule rw_exec relay s = Some s"
    "list_all (\<lambda>k. writers_blocked (run_schedule rw_exec (take k relay) s)) [0..<9]"
    by (cases ?run) auto
  with run_schedule_reaches [OF s(1)] run_schedule_cycle [OF s(2)] show ?thesis by blast
qed

end
