(* ===== verification/Win_Monitor.thy ===== *)
theory Win_Monitor
  imports Sysv_Processes
begin

text \<open>
  sem_05/lab_05/main.c: readers and writers synchronised by two Windows events. \<open>can_write\<close> is
  reset by hand and initially signalled, \<open>can_read\<close> resets itself when a wait on it returns and
  is initially signalled. Three writers and five readers make eight rounds each; the increment
  \<open>++shared_variable\<close> is a load and a store; the interlocked operations are one step.

  The events keep no writer out: two writers (and a writer and a reader) can be inside together and
  increments can be lost. What the events do give is proved: the counter of active readers is
  exact, no thread is blocked for ever and every schedule ends the threads.
\<close>

section \<open>Data\<close>

datatype win_role = W_writer | W_reader

datatype win_loc =
  E_unborn | E_wait_read | E_wait_write | E_reset | E_inc | E_load | E_store | E_print |
  E_dec | E_set_read | E_check | E_set_write | E_done

record win_thread =
  th_role :: win_role
  th_loc :: win_loc
  th_i :: nat
  th_reg :: int

datatype win_main = M_create nat | M_wait nat | M_close | M_returned int | M_undefined

record win_state =
  can_write :: bool
  can_read :: bool
  shared_variable :: int
  count_active_readers :: int
  win_threads :: "win_thread list"
  win_main :: win_main
  win_printed :: "int list"

text \<open>The arrays of handles; a handle is the number of its thread.\<close>

definition writers_threads :: "nat list" where
  "writers_threads = [0, 1, 2]"

definition readers_threads :: "nat list" where
  "readers_threads = [3, 4, 5, 6, 7]"

section \<open>Steps\<close>

definition put_thread :: "nat \<Rightarrow> win_thread \<Rightarrow> win_state \<Rightarrow> win_state" where
  "put_thread j w s = s\<lparr>win_threads := (win_threads s)[j := w]\<rparr>"

definition first_loc :: "win_role \<Rightarrow> win_loc" where
  "first_loc r = (case r of W_writer \<Rightarrow> E_wait_write | W_reader \<Rightarrow> E_wait_read)"

definition next_round :: "win_thread \<Rightarrow> win_thread" where
  "next_round w = w\<lparr>th_i := th_i w + 1,
     th_loc := (if th_i w + 1 < 8 then first_loc (th_role w) else E_done)\<rparr>"

text \<open>\<open>init_writer\<close> with \<open>start_write\<close> and \<open>stop_write\<close>. The wait on \<open>can_write\<close> leaves it
  signalled.\<close>

definition writer_thread :: "nat \<Rightarrow> win_thread \<Rightarrow> win_state \<Rightarrow> win_state option" where
  "writer_thread j w s =
     (case th_loc w of
        E_wait_write \<Rightarrow> if can_write s then Some (put_thread j (w\<lparr>th_loc := E_load\<rparr>) s) else None
      | E_load \<Rightarrow> Some (put_thread j (w\<lparr>th_reg := shared_variable s, th_loc := E_store\<rparr>) s)
      | E_store \<Rightarrow> Some (put_thread j (w\<lparr>th_loc := E_print\<rparr>) (s\<lparr>shared_variable := th_reg w + 1\<rparr>))
      | E_print \<Rightarrow> Some (put_thread j (w\<lparr>th_loc := E_set_read\<rparr>)
                      (s\<lparr>win_printed := win_printed s @ [shared_variable s]\<rparr>))
      | E_set_read \<Rightarrow> Some (put_thread j (next_round w) (s\<lparr>can_read := True\<rparr>))
      | _ \<Rightarrow> None)"

text \<open>\<open>init_reader\<close> with \<open>start_read\<close> and \<open>stop_read\<close>; \<open>th_reg\<close> is the value printed.\<close>

definition reader_thread :: "nat \<Rightarrow> win_thread \<Rightarrow> win_state \<Rightarrow> win_state option" where
  "reader_thread j w s =
     (case th_loc w of
        E_wait_read \<Rightarrow>
          if can_read s then Some (put_thread j (w\<lparr>th_loc := E_wait_write\<rparr>) (s\<lparr>can_read := False\<rparr>))
          else None
      | E_wait_write \<Rightarrow> if can_write s then Some (put_thread j (w\<lparr>th_loc := E_reset\<rparr>) s) else None
      | E_reset \<Rightarrow> Some (put_thread j (w\<lparr>th_loc := E_inc\<rparr>) (s\<lparr>can_write := False\<rparr>))
      | E_inc \<Rightarrow> Some (put_thread j (w\<lparr>th_loc := E_print\<rparr>)
                    (s\<lparr>count_active_readers := count_active_readers s + 1\<rparr>))
      | E_print \<Rightarrow> Some (put_thread j (w\<lparr>th_reg := shared_variable s, th_loc := E_dec\<rparr>) s)
      | E_dec \<Rightarrow> Some (put_thread j (w\<lparr>th_loc := E_set_read\<rparr>)
                    (s\<lparr>count_active_readers := count_active_readers s - 1\<rparr>))
      | E_set_read \<Rightarrow> Some (put_thread j (w\<lparr>th_loc := E_check\<rparr>) (s\<lparr>can_read := True\<rparr>))
      | E_check \<Rightarrow> Some (put_thread j
                      (if count_active_readers s = 0 then w\<lparr>th_loc := E_set_write\<rparr> else next_round w) s)
      | E_set_write \<Rightarrow> Some (put_thread j (next_round w) (s\<lparr>can_write := True\<rparr>))
      | _ \<Rightarrow> None)"

definition thread_exec :: "nat \<Rightarrow> win_state \<Rightarrow> win_state option" where
  "thread_exec j s =
     (let w = win_threads s ! j in
      case th_role w of W_writer \<Rightarrow> writer_thread j w s | W_reader \<Rightarrow> reader_thread j w s)"

text \<open>
  The handles \<open>WaitForMultipleObjects(n, handles, TRUE, INFINITE)\<close> waits for: the first \<open>n\<close>
  of the array, undefined when the array is shorter. \<open>wait_threads\<close> passes \<open>writers_threads\<close>
  in both calls.
\<close>

fun wait_handles :: "nat \<Rightarrow> nat list \<Rightarrow> nat list option" where
  "wait_handles 0 hs = Some []"
| "wait_handles (Suc n) [] = None"
| "wait_handles (Suc n) (h # hs) = map_option ((#) h) (wait_handles n hs)"

definition wait_threads_call :: "nat \<Rightarrow> nat list option" where
  "wait_threads_call c = wait_handles (if c = 0 then 3 else 5) writers_threads"

definition thread_done :: "win_thread \<Rightarrow> bool" where
  "thread_done w \<longleftrightarrow> th_loc w = E_done"

definition main_exec :: "win_state \<Rightarrow> win_state option" where
  "main_exec s =
     (case win_main s of
        M_create k \<Rightarrow>
          if k < 8 then
            (let w = win_threads s ! k in
             Some ((put_thread k (w\<lparr>th_loc := first_loc (th_role w)\<rparr>) s)\<lparr>win_main := M_create (k + 1)\<rparr>))
          else Some (s\<lparr>win_main := M_wait 0\<rparr>)
      | M_wait c \<Rightarrow>
          (case wait_threads_call c of
             None \<Rightarrow> Some (s\<lparr>win_main := M_undefined\<rparr>)
           | Some hs \<Rightarrow>
               if list_all (\<lambda>h. thread_done (win_threads s ! h)) hs
               then Some (s\<lparr>win_main := (if c = 0 then M_wait 1 else M_close)\<rparr>) else None)
      | M_close \<Rightarrow> Some (s\<lparr>win_main := M_returned 0\<rparr>)
      | _ \<Rightarrow> None)"

text \<open>A \<open>CreateThread\<close> that fails: \<open>init_threads\<close> returns -1, \<open>main\<close> too, and the process ends with all
  its threads.\<close>

definition create_fails :: "win_state \<Rightarrow> win_state option" where
  "create_fails s =
     (case win_main s of M_create k \<Rightarrow> if k < 8 then Some (s\<lparr>win_main := M_returned (-1)\<rparr>) else None | _ \<Rightarrow> None)"

definition process_over :: "win_state \<Rightarrow> bool" where
  "process_over s \<longleftrightarrow> (case win_main s of M_returned c \<Rightarrow> True | _ \<Rightarrow> False)"

text \<open>Threads 0 to 2 are the writers, 3 to 7 the readers, 8 is the main thread; 9 stands for its
  \<open>CreateThread\<close> when it fails.\<close>

definition win_exec :: "nat \<Rightarrow> win_state \<Rightarrow> win_state option" where
  "win_exec i s =
     (if i < 8 then (if process_over s then None else thread_exec i s)
      else if i = 8 then main_exec s else if i = 9 then create_fails s else None)"

definition new_thread :: "win_role \<Rightarrow> win_thread" where
  "new_thread r = \<lparr>th_role = r, th_loc = E_unborn, th_i = 0, th_reg = 0\<rparr>"

text \<open>
  \<open>init_events\<close>, given whether each \<open>CreateEvent\<close> is granted: its result and the states of the two
  events (set by hand or not, signalled), and the start of \<open>main\<close>, which returns -1 when it fails.
\<close>

definition init_events :: "bool \<Rightarrow> bool \<Rightarrow> int \<times> bool option \<times> bool option" where
  "init_events granted_write granted_read =
     (if \<not> granted_write then (-1, None, None)
      else if \<not> granted_read then (-1, Some True, None)
      else (0, Some True, Some True))"

definition win_init :: win_state where
  "win_init = \<lparr>can_write = True, can_read = True, shared_variable = 0, count_active_readers = 0,
     win_threads = replicate 3 (new_thread W_writer) @ replicate 5 (new_thread W_reader),
     win_main = M_create 0, win_printed = []\<rparr>"

definition win_start :: "bool \<Rightarrow> bool \<Rightarrow> int + win_state" where
  "win_start granted_write granted_read =
     (case init_events granted_write granted_read of
        (rc, Some w, Some r) \<Rightarrow> if rc \<noteq> 0 then Inl (-1) else Inr (win_init\<lparr>can_write := w, can_read := r\<rparr>)
      | _ \<Rightarrow> Inl (-1))"

lemma win_start_granted: "win_start w r = (if w \<and> r then Inr win_init else Inl (-1))"
  by (simp add: win_start_def init_events_def win_init_def)

text \<open>\<open>close_handles\<close>: the handles in the order in which they are closed.\<close>

datatype win_handle = Thread_handle nat | Can_write | Can_read

definition close_handles :: "win_handle list" where
  "close_handles = map Thread_handle writers_threads @ map Thread_handle readers_threads @ [Can_write, Can_read]"

section \<open>The invariant\<close>

text \<open>Readers between the interlocked increment and decrement; after \<open>ResetEvent(can_write)\<close> and
  before they are done with it; and holding the turn of \<open>can_read\<close>.\<close>

definition counted_in :: "win_thread \<Rightarrow> nat" where
  "counted_in w = (if th_role w = W_reader \<and> th_loc w \<in> {E_print, E_dec} then 1 else 0)"

definition keeps_out :: "win_thread \<Rightarrow> nat" where
  "keeps_out w = (if th_role w = W_reader \<and>
     th_loc w \<in> {E_inc, E_print, E_dec, E_set_read, E_check, E_set_write} then 1 else 0)"

definition has_turn :: "win_thread \<Rightarrow> nat" where
  "has_turn w = (if th_role w = W_reader \<and>
     th_loc w \<in> {E_wait_write, E_reset, E_inc, E_print, E_dec, E_set_read} then 1 else 0)"

definition thread_ok :: "win_thread \<Rightarrow> bool" where
  "thread_ok w \<longleftrightarrow>
     (if th_loc w = E_done then th_i w = 8 else if th_loc w = E_unborn then th_i w = 0 else th_i w < 8) \<and>
     (th_loc w \<in> {E_load, E_store} \<longrightarrow> th_role w = W_writer) \<and>
     (th_loc w \<in> {E_wait_read, E_reset, E_inc, E_dec, E_check, E_set_write} \<longrightarrow> th_role w = W_reader)"

definition win_main_ok :: "win_main \<Rightarrow> win_thread list \<Rightarrow> bool" where
  "win_main_ok m ws \<longleftrightarrow>
     (case m of
        M_create k \<Rightarrow> k \<le> 8 \<and> (\<forall>j<8. th_loc (ws ! j) = E_unborn \<longleftrightarrow> k \<le> j)
      | M_wait c \<Rightarrow> c \<le> 1 \<and> (\<forall>j<8. th_loc (ws ! j) \<noteq> E_unborn)
      | M_undefined \<Rightarrow> (\<forall>j<8. th_loc (ws ! j) \<noteq> E_unborn)
      | M_returned c \<Rightarrow> c = -1
      | M_close \<Rightarrow> False)"

definition win_inv :: "win_state \<Rightarrow> bool" where
  "win_inv s \<longleftrightarrow>
     length (win_threads s) = 8 \<and>
     (\<forall>j<8. thread_ok (win_threads s ! j)) \<and>
     count_active_readers s = int (tally counted_in (win_threads s)) \<and>
     (can_write s \<or> 0 < tally keeps_out (win_threads s)) \<and>
     (can_read s \<or> 0 < tally has_turn (win_threads s)) \<and>
     win_main_ok (win_main s) (win_threads s)"

definition thread_rank :: "win_thread \<Rightarrow> nat" where
  "thread_rank w =
     (case th_role w of
        W_writer \<Rightarrow> (case th_loc w of E_unborn \<Rightarrow> 40 | E_done \<Rightarrow> 0
          | E_wait_write \<Rightarrow> 5 * (8 - th_i w) | E_load \<Rightarrow> 5 * (8 - th_i w) - 1
          | E_store \<Rightarrow> 5 * (8 - th_i w) - 2 | E_print \<Rightarrow> 5 * (8 - th_i w) - 3
          | _ \<Rightarrow> 5 * (8 - th_i w) - 4)
      | W_reader \<Rightarrow> (case th_loc w of E_unborn \<Rightarrow> 72 | E_done \<Rightarrow> 0
          | E_wait_read \<Rightarrow> 9 * (8 - th_i w) | E_wait_write \<Rightarrow> 9 * (8 - th_i w) - 1
          | E_reset \<Rightarrow> 9 * (8 - th_i w) - 2 | E_inc \<Rightarrow> 9 * (8 - th_i w) - 3
          | E_print \<Rightarrow> 9 * (8 - th_i w) - 4 | E_dec \<Rightarrow> 9 * (8 - th_i w) - 5
          | E_set_read \<Rightarrow> 9 * (8 - th_i w) - 6 | E_check \<Rightarrow> 9 * (8 - th_i w) - 7
          | _ \<Rightarrow> 9 * (8 - th_i w) - 8))"

fun win_main_rank :: "win_main \<Rightarrow> nat" where
  "win_main_rank (M_create k) = 12 - k"
| "win_main_rank (M_wait c) = 3 - c"
| "win_main_rank M_close = 1"
| "win_main_rank _ = 0"

definition win_rank :: "win_state \<Rightarrow> nat" where
  "win_rank s = win_main_rank (win_main s) + tally thread_rank (win_threads s)"

text \<open>All threads have ended and the main thread has left the code, or the process is over.\<close>

definition win_final :: "win_state \<Rightarrow> bool" where
  "win_final s \<longleftrightarrow>
     (\<forall>j<8. th_loc (win_threads s ! j) = E_done) \<and> win_main s = M_undefined \<or> win_main s = M_returned (-1)"

lemma wait_threads_second: "wait_threads_call 1 = None"
  by (simp add: wait_threads_call_def writers_threads_def numeral_eq_Suc)

lemma wait_threads_second_Suc: "wait_threads_call (Suc 0) = None"
  using wait_threads_second by simp

lemma wait_threads_first: "wait_threads_call 0 = Some [0, 1, 2]"
  by (simp add: wait_threads_call_def writers_threads_def numeral_eq_Suc)

section \<open>Every step keeps the invariant and comes closer to the end\<close>

lemma win_inv_length: "win_inv s \<Longrightarrow> length (win_threads s) = 8"
  by (simp add: win_inv_def)

text \<open>What a step of thread \<open>j\<close> has to establish.\<close>

lemma win_put:
  assumes inv: "win_inv s" and j: "j < 8" and t: "win_threads t = (win_threads s)[j := w]"
    and main: "win_main t = win_main s"
    and born: "th_loc (win_threads s ! j) \<noteq> E_unborn" "th_loc w \<noteq> E_unborn"
    and ok: "thread_ok w"
    and count: "count_active_readers t + int (counted_in (win_threads s ! j)) =
      count_active_readers s + int (counted_in w)"
    and cw: "can_write t \<or> 0 < tally keeps_out (win_threads t)"
    and cr: "can_read t \<or> 0 < tally has_turn (win_threads t)"
    and rank: "thread_rank w < thread_rank (win_threads s ! j)"
  shows "win_inv t \<and> win_rank t < win_rank s"
proof -
  let ?ws = "win_threads s"
  have len: "length ?ws = 8" using inv by (rule win_inv_length)
  have "thread_ok (?ws[j := w] ! k)" if "k < 8" for k
    using inv ok that len by (cases "k = j") (simp_all add: win_inv_def)
  moreover have "count_active_readers t = int (tally counted_in (?ws[j := w]))"
    using inv count tally_update [of j ?ws counted_in w] j len by (simp add: win_inv_def)
  moreover have "win_main_ok (win_main s) (?ws[j := w])"
  proof -
    have "th_loc (?ws[j := w] ! k) = E_unborn \<longleftrightarrow> th_loc (?ws ! k) = E_unborn" if "k < 8" for k
      using born that len by (cases "k = j") simp_all
    with inv show ?thesis by (simp add: win_inv_def win_main_ok_def split: win_main.splits)
  qed
  moreover have "tally thread_rank (?ws[j := w]) < tally thread_rank ?ws"
    using tally_update [of j ?ws thread_rank w] rank j len by simp
  ultimately show ?thesis
    using len cw cr by (simp add: win_inv_def win_rank_def t main)
qed

lemma flag_kept:
  assumes "b \<or> 0 < tally f ws" "j < length ws" "f (ws ! j) \<le> f w"
  shows "b \<or> 0 < tally f (ws[j := w])"
  using assms tally_update [of j ws f w] by auto

lemma flag_mine: "j < length ws \<Longrightarrow> 0 < f w \<Longrightarrow> 0 < tally f (ws[j := w])"
  using tally_elem [of j "ws[j := w]" f] by simp

text \<open>An event is set, or the thread answers for it, or the thread leaves it as it was.\<close>

definition looks_after :: "(win_thread \<Rightarrow> nat) \<Rightarrow> win_thread \<Rightarrow> win_thread \<Rightarrow> bool \<Rightarrow> bool \<Rightarrow> bool" where
  "looks_after f v w b b' \<longleftrightarrow> b' \<or> 0 < f w \<or> (b' = b \<and> f v \<le> f w)"

lemma looks_after_tally:
  assumes "b \<or> 0 < tally f ws" "j < length ws" "looks_after f (ws ! j) w b b'"
  shows "b' \<or> 0 < tally f (ws[j := w])"
  using assms flag_kept [of b f ws j w] flag_mine [of j ws f w] by (auto simp: looks_after_def)

lemma put_looker_step:
  assumes inv: "win_inv s" and j: "j < 8"
    and same: "win_threads u = win_threads s" "win_main u = win_main s"
    and born: "th_loc (win_threads s ! j) \<noteq> E_unborn" "th_loc w \<noteq> E_unborn"
    and ok: "thread_ok w"
    and count: "count_active_readers u + int (counted_in (win_threads s ! j)) =
      count_active_readers s + int (counted_in w)"
    and cw: "looks_after keeps_out (win_threads s ! j) w (can_write s) (can_write u)"
    and cr: "looks_after has_turn (win_threads s ! j) w (can_read s) (can_read u)"
    and rank: "thread_rank w < thread_rank (win_threads s ! j)"
  shows "win_inv (put_thread j w u) \<and> win_rank (put_thread j w u) < win_rank s"
proof -
  have "j < length (win_threads s)" using inv j by (simp add: win_inv_length)
  then show ?thesis
    using assms looks_after_tally [OF _ _ cw] looks_after_tally [OF _ _ cr]
    by (intro win_put [OF inv j]) (simp_all add: put_thread_def win_inv_def)
qed

lemmas thread_views = looks_after_def thread_ok_def thread_rank_def counted_in_def keeps_out_def has_turn_def
  next_round_def first_loc_def

lemma rounds_left: "i < 8 \<Longrightarrow> 8 - i = Suc (7 - i)" for i :: nat
  by simp

lemma writer_thread_step:
  assumes inv: "win_inv s" and j: "j < 8" and w: "w = win_threads s ! j" and role: "th_role w = W_writer"
    and run: "writer_thread j w s = Some t"
  shows "win_inv t \<and> win_rank t < win_rank s"
proof -
  have ok: "thread_ok w" using inv j w by (simp add: win_inv_def)
  note put = put_looker_step [OF inv j, folded w]
  show ?thesis
    using run ok role
    by (cases "th_loc w"; clarsimp simp: writer_thread_def split: if_splits; intro put;
        simp add: thread_views rounds_left)
qed

text \<open>A reader that leaves while others are active: they keep \<open>can_write\<close> down.\<close>

lemma reader_leaves_others:
  assumes inv: "win_inv s" and j: "j < 8" and w: "w = win_threads s ! j" and role: "th_role w = W_reader"
    and at: "th_loc w = E_check" "count_active_readers s \<noteq> 0"
  shows "win_inv (put_thread j (next_round w) s) \<and> win_rank (put_thread j (next_round w) s) < win_rank s"
proof -
  let ?ws = "win_threads s" and ?w = "next_round w"
  have len: "j < length ?ws" using inv j by (simp add: win_inv_length)
  have ok: "thread_ok w" using inv j w by (simp add: win_inv_def)
  have zero: "counted_in w = 0" "has_turn w = 0" "counted_in ?w = 0"
    using at by (simp_all add: thread_views split: win_role.splits)
  have "tally counted_in (?ws[j := ?w]) = tally counted_in ?ws"
    using zero w by (intro tally_update_same [OF len]) simp
  moreover have "tally counted_in (?ws[j := ?w]) \<le> tally keeps_out (?ws[j := ?w])"
    by (rule tally_mono) (auto simp: counted_in_def keeps_out_def)
  ultimately have "0 < tally keeps_out (?ws[j := ?w])" using at(2) inv by (simp add: win_inv_def)
  moreover have "can_read s \<or> 0 < tally has_turn (?ws[j := ?w])"
    using inv zero w by (intro flag_kept [OF _ len]) (simp_all add: win_inv_def)
  moreover have "thread_ok ?w" "thread_rank ?w < thread_rank w" "th_loc ?w \<noteq> E_unborn"
    using ok at role by (simp_all add: thread_views rounds_left)
  ultimately show ?thesis
    using at zero w by (intro win_put [OF inv j, where w = ?w]) (simp_all add: put_thread_def)
qed

lemma reader_thread_step:
  assumes inv: "win_inv s" and j: "j < 8" and w: "w = win_threads s ! j" and role: "th_role w = W_reader"
    and run: "reader_thread j w s = Some t"
  shows "win_inv t \<and> win_rank t < win_rank s"
proof (cases "th_loc w = E_check \<and> count_active_readers s \<noteq> 0")
  case True
  then have "t = put_thread j (next_round w) s" using run by (simp add: reader_thread_def)
  with True show ?thesis using reader_leaves_others [OF inv j w role] by blast
next
  case False
  have ok: "thread_ok w" using inv j w by (simp add: win_inv_def)
  note put = put_looker_step [OF inv j, folded w]
  show ?thesis
    using run ok role False
    by (cases "th_loc w"; clarsimp simp: reader_thread_def split: if_splits; intro put;
        simp add: thread_views rounds_left)
qed

lemma main_step:
  assumes inv: "win_inv s" and run: "main_exec s = Some t"
  shows "win_inv t \<and> win_rank t < win_rank s"
proof (cases "win_main s")
  case (M_create k)
  let ?ws = "win_threads s"
  have len: "length ?ws = 8" using inv by (rule win_inv_length)
  have main: "win_main_ok (M_create k) ?ws" using inv M_create by (simp add: win_inv_def)
  show ?thesis
  proof (cases "k < 8")
    case False
    with run M_create have t: "t = s\<lparr>win_main := M_wait 0\<rparr>" by (simp add: main_exec_def)
    with main False M_create inv show ?thesis
      by (auto simp: win_inv_def win_main_ok_def win_rank_def)
  next
    case True
    let ?w = "(?ws ! k)\<lparr>th_loc := first_loc (th_role (?ws ! k))\<rparr>"
    from True run M_create have t: "t = (put_thread k ?w s)\<lparr>win_main := M_create (k + 1)\<rparr>"
      by (simp add: main_exec_def Let_def)
    have unborn: "th_loc (?ws ! k) = E_unborn" "th_i (?ws ! k) = 0"
      using main True inv by (auto simp: win_main_ok_def win_inv_def thread_ok_def)
    have same: "tally counted_in (?ws[k := ?w]) = tally counted_in ?ws"
      "tally keeps_out (?ws[k := ?w]) = tally keeps_out ?ws"
      "tally has_turn (?ws[k := ?w]) = tally has_turn ?ws"
      "tally thread_rank (?ws[k := ?w]) = tally thread_rank ?ws"
      by (rule tally_update_same; use True len unborn in \<open>auto simp: counted_in_def keeps_out_def
        has_turn_def thread_rank_def first_loc_def split: win_role.splits\<close>)+
    have "thread_ok ?w" using unborn by (auto simp: thread_ok_def first_loc_def split: win_role.splits)
    then have oks: "\<forall>j<8. thread_ok (?ws[k := ?w] ! j)"
      using inv len True by (auto simp: win_inv_def nth_list_update)
    have "win_main_ok (M_create (k + 1)) (?ws[k := ?w])"
      using main True len by (auto simp: win_main_ok_def nth_list_update first_loc_def split: win_role.splits)
    with oks same inv M_create True show ?thesis
      by (simp add: t put_thread_def win_inv_def win_rank_def)
  qed
next
  case (M_wait c)
  have c: "c = 0 \<or> c = 1" "\<forall>j<8. th_loc (win_threads s ! j) \<noteq> E_unborn"
    using inv M_wait by (auto simp: win_inv_def win_main_ok_def)
  with run M_wait have "t = s\<lparr>win_main := M_undefined\<rparr> \<or> c = 0 \<and> t = s\<lparr>win_main := M_wait 1\<rparr>"
    using wait_threads_second wait_threads_first by (auto simp: main_exec_def split: if_splits)
  with inv c M_wait show ?thesis by (auto simp: win_inv_def win_main_ok_def win_rank_def)
qed (use inv run in \<open>auto simp: win_inv_def win_main_ok_def main_exec_def\<close>)

lemma create_fails_step:
  assumes "win_inv s" "create_fails s = Some t"
  shows "win_inv t \<and> win_rank t < win_rank s"
  using assms
  by (auto simp: create_fails_def win_inv_def win_main_ok_def win_rank_def split: win_main.splits if_splits)

lemma win_inv_step: "win_inv s \<Longrightarrow> sched_step win_exec s t \<Longrightarrow> win_inv t \<and> win_rank t < win_rank s"
proof -
  assume inv: "win_inv s" and "sched_step win_exec s t"
  then obtain i where i: "win_exec i s = Some t" by blast
  show ?thesis
  proof (cases "i < 8")
    case True
    with i have "thread_exec i s = Some t" by (simp add: win_exec_def split: if_splits)
    with writer_thread_step [OF inv True refl] reader_thread_step [OF inv True refl] show ?thesis
      by (cases "th_role (win_threads s ! i)") (simp_all add: thread_exec_def Let_def)
  next
    case False
    with i have "main_exec s = Some t \<or> create_fails s = Some t" by (simp add: win_exec_def split: if_splits)
    then show ?thesis using main_step [OF inv] create_fails_step [OF inv] by blast
  qed
qed

section \<open>No thread is blocked for ever\<close>

lemma thread_runs:
  assumes ok: "thread_ok w" and loc: "th_loc w \<notin> {E_unborn, E_done}"
    and wait: "th_loc w = E_wait_write \<Longrightarrow> can_write s" "th_loc w = E_wait_read \<Longrightarrow> can_read s"
    and w: "w = win_threads s ! j" "j < 8" and goes: "\<not> process_over s"
  shows "\<exists>t. win_exec j s = Some t"
proof (cases "th_role w")
  case W_writer
  with assms show ?thesis
    by (cases "th_loc w") (auto simp: win_exec_def thread_exec_def writer_thread_def thread_ok_def Let_def)
next
  case W_reader
  with assms show ?thesis
    by (cases "th_loc w") (auto simp: win_exec_def thread_exec_def reader_thread_def thread_ok_def Let_def)
qed

lemma threads_enabled:
  assumes inv: "win_inv s" and born: "\<forall>j<8. th_loc (win_threads s ! j) \<noteq> E_unborn"
    and goes: "\<not> process_over s" and j: "j < 8" "th_loc (win_threads s ! j) \<noteq> E_done"
  shows "\<exists>i t. win_exec i s = Some t"
proof (rule ccontr)
  assume none: "\<not> ?thesis"
  let ?ws = "win_threads s"
  have len: "length ?ws = 8" using inv by (rule win_inv_length)
  have blocked: "th_loc (?ws ! k) = E_done \<or> th_loc (?ws ! k) = E_wait_write \<and> \<not> can_write s \<or>
      th_loc (?ws ! k) = E_wait_read \<and> \<not> can_read s" if k: "k < 8" for k
  proof (rule ccontr)
    assume "\<not> ?thesis"
    moreover have "thread_ok (?ws ! k)" using inv k by (simp add: win_inv_def)
    ultimately have "\<exists>t. win_exec k s = Some t"
      using born k goes by (intro thread_runs [of "?ws ! k"]) auto
    with none show False by blast
  qed
  have "keeps_out w = 0" if "w \<in> set ?ws" for w
    using that blocked len by (fastforce simp: in_set_conv_nth keeps_out_def)
  then have "tally keeps_out ?ws = 0" by (simp add: tally_eq_0)
  then have cw: "can_write s" using inv by (simp add: win_inv_def)
  then have "has_turn w = 0" if "w \<in> set ?ws" for w
    using that blocked len by (fastforce simp: in_set_conv_nth has_turn_def)
  then have "tally has_turn ?ws = 0" by (simp add: tally_eq_0)
  then have "can_read s" using inv by (simp add: win_inv_def)
  with cw blocked [OF j(1)] j(2) show False by blast
qed

lemma win_enabled:
  assumes inv: "win_inv s" and going: "\<not> win_final s"
  shows "\<exists>t. sched_step win_exec s t"
proof -
  have main: "win_main_ok (win_main s) (win_threads s)" using inv by (simp add: win_inv_def)
  have "\<exists>i t. win_exec i s = Some t"
  proof (cases "win_main s")
    case (M_create k)
    then have "\<exists>t. win_exec 8 s = Some t" by (simp add: win_exec_def main_exec_def Let_def)
    then show ?thesis by blast
  next
    case (M_wait c)
    show ?thesis
    proof (cases "\<exists>j<8. th_loc (win_threads s ! j) \<noteq> E_done")
      case True
      with threads_enabled [OF inv] main M_wait show ?thesis by (auto simp: win_main_ok_def process_over_def)
    next
      case False
      with M_wait main have "\<exists>t. win_exec 8 s = Some t"
        by (auto simp: win_main_ok_def win_exec_def main_exec_def wait_threads_first wait_threads_second_Suc
            thread_done_def le_Suc_eq)
      then show ?thesis by blast
    qed
  next
    case M_undefined
    with going threads_enabled [OF inv] main show ?thesis
      by (auto simp: win_final_def win_main_ok_def process_over_def)
  qed (use main going in \<open>simp_all add: win_main_ok_def win_final_def\<close>)
  then obtain i t where "win_exec i s = Some t" by blast
  then show ?thesis using sched [of win_exec i s t] by metis
qed

lemma win_inv_init: "win_inv win_init"
proof -
  have nth: "win_threads win_init ! j = new_thread (if j < 3 then W_writer else W_reader)" if "j < 8" for j
    using that by (auto simp: win_init_def nth_append)
  have zero: "tally f (win_threads win_init) = 0" if "\<And>r. f (new_thread r) = 0" for f
    using that by (simp add: win_init_def numeral_eq_Suc)
  have "tally counted_in (win_threads win_init) = 0"
    by (rule zero) (simp add: counted_in_def new_thread_def)
  moreover have "win_main win_init = M_create 0" "can_write win_init" "can_read win_init"
    "count_active_readers win_init = 0" "length (win_threads win_init) = 8"
    by (simp_all add: win_init_def)
  ultimately show ?thesis
    by (simp add: win_inv_def nth thread_ok_def win_main_ok_def) (simp add: new_thread_def)
qed

interpretation win: terminating_system win_init "sched_step win_exec" win_inv win_final win_rank
  by unfold_locales (metis win_inv_init win_inv_step win_enabled)+

section \<open>Properties\<close>

abbreviation win_reachable :: "win_state \<Rightarrow> bool" where
  "win_reachable s \<equiv> (sched_step win_exec)\<^sup>*\<^sup>* win_init s"

lemma replicate_three_five: "replicate 3 x = [x, x, x]" "replicate 5 x = [x, x, x, x, x]"
  by (simp_all add: numeral_eq_Suc)

lemmas win_run_simps = win_exec_def process_over_def thread_exec_def writer_thread_def reader_thread_def main_exec_def
  put_thread_def next_round_def first_loc_def win_init_def new_thread_def Let_def replicate_three_five

abbreviation create_all :: "nat list" where
  "create_all \<equiv> [8, 8, 8, 8, 8, 8, 8, 8, 8]"

text \<open>the events of sem_05/lab_05 exclude nobody: a state is reachable in which two writers have
  passed \<open>start_write\<close> and not yet written while a reader is active, and one in which two writers
  have each completed a round and both printed 1: an increment was lost.\<close>

theorem win_no_exclusion:
  "(\<exists>s. win_reachable s \<and> th_loc (win_threads s ! 0) = E_load \<and> th_loc (win_threads s ! 1) = E_load \<and>
     th_loc (win_threads s ! 3) = E_print \<and> count_active_readers s = 1) \<and>
   (\<exists>s. win_reachable s \<and> th_i (win_threads s ! 0) = 1 \<and> th_i (win_threads s ! 1) = 1 \<and>
     shared_variable s = 1 \<and> win_printed s = [1, 1])"
proof
  let ?run = "run_schedule win_exec (create_all @ [0, 1, 3, 3, 3, 3]) win_init"
  have "case ?run of None \<Rightarrow> False | Some s \<Rightarrow> th_loc (win_threads s ! 0) = E_load \<and>
      th_loc (win_threads s ! 1) = E_load \<and> th_loc (win_threads s ! 3) = E_print \<and>
      count_active_readers s = 1"
    by (simp add: win_run_simps)
  then obtain s where s: "?run = Some s" "th_loc (win_threads s ! 0) = E_load \<and>
      th_loc (win_threads s ! 1) = E_load \<and> th_loc (win_threads s ! 3) = E_print \<and>
      count_active_readers s = 1"
    by (cases ?run) auto
  from run_schedule_reaches [OF s(1)] s(2) show "\<exists>s. win_reachable s \<and>
      th_loc (win_threads s ! 0) = E_load \<and> th_loc (win_threads s ! 1) = E_load \<and>
      th_loc (win_threads s ! 3) = E_print \<and> count_active_readers s = 1"
    by blast
next
  let ?run = "run_schedule win_exec (create_all @ [0, 0, 1, 1, 0, 1, 0, 1, 0, 1]) win_init"
  have "case ?run of None \<Rightarrow> False | Some s \<Rightarrow> th_i (win_threads s ! 0) = 1 \<and>
      th_i (win_threads s ! 1) = 1 \<and> shared_variable s = 1 \<and> win_printed s = [1, 1]"
    by (simp add: win_run_simps)
  then obtain s where s: "?run = Some s" "th_i (win_threads s ! 0) = 1 \<and>
      th_i (win_threads s ! 1) = 1 \<and> shared_variable s = 1 \<and> win_printed s = [1, 1]"
    by (cases ?run) auto
  from run_schedule_reaches [OF s(1)] s(2) show "\<exists>s. win_reachable s \<and>
      th_i (win_threads s ! 0) = 1 \<and> th_i (win_threads s ! 1) = 1 \<and>
      shared_variable s = 1 \<and> win_printed s = [1, 1]"
    by blast
qed

text \<open>C30: what the events of sem_05/lab_05 keep: in every reachable state \<open>count_active_readers\<close> is
  the number of readers between their increment and their decrement, \<open>can_write\<close> is signalled
  unless some reader has reset it and is not yet done with it, and \<open>can_read\<close> is signalled unless
  some reader holds its turn: no wake-up is lost.\<close>

theorem win_events_kept:
  assumes "win_reachable s"
  shows "count_active_readers s = int (tally counted_in (win_threads s)) \<and>
    (tally keeps_out (win_threads s) = 0 \<longrightarrow> can_write s) \<and>
    (tally has_turn (win_threads s) = 0 \<longrightarrow> can_read s)"
  using win.reachable_inv [OF assms] by (auto simp: win_inv_def)

theorem win_events_kept_witness:
  "\<exists>s. run_schedule win_exec (create_all @ [3, 3, 3, 3]) win_init = Some s \<and>
     count_active_readers s = 1 \<and> \<not> can_write s \<and> 0 < tally keeps_out (win_threads s)"
proof -
  let ?run = "run_schedule win_exec (create_all @ [3, 3, 3, 3]) win_init"
  have "case ?run of None \<Rightarrow> False | Some s \<Rightarrow> count_active_readers s = 1 \<and> \<not> can_write s"
    by (simp add: win_run_simps)
  then obtain s where s: "?run = Some s" "count_active_readers s = 1" "\<not> can_write s"
    by (cases ?run) auto
  from win_events_kept [OF run_schedule_reaches [OF s(1)]] s show ?thesis by auto
qed

text \<open>C13: the threads of sem_05/lab_05 neither deadlock nor run on: a run has at most 492 steps, and
  as long as a thread has not ended some thread can move, unless \<open>main\<close> has returned -1 after a failed
  \<open>CreateThread\<close>.\<close>

theorem win_terminates:
  assumes "((sched_step win_exec) ^^ n) win_init s"
  shows "n \<le> 492 \<and>
    ((\<forall>j<8. th_loc (win_threads s ! j) = E_done) \<or> win_main s = M_returned (-1) \<or> (\<exists>t. sched_step win_exec s t))"
proof -
  have "win_rank win_init = 492"
    by (simp add: win_rank_def win_init_def new_thread_def thread_rank_def replicate_three_five)
  with win.run_bound [OF assms] win.reachable_enabled [OF relpowp_imp_rtranclp [OF assms]]
  show ?thesis by (auto simp: win_final_def)
qed

theorem win_terminates_witness:
  "\<exists>s. ((sched_step win_exec) ^^ 2) win_init s \<and> th_loc (win_threads s ! 0) = E_load \<and>
     (\<exists>t. sched_step win_exec s t)"
proof -
  have "case win_exec 8 win_init of None \<Rightarrow> False | Some u \<Rightarrow> (case win_exec 0 u of None \<Rightarrow> False
      | Some s \<Rightarrow> th_loc (win_threads s ! 0) = E_load \<and> win_main s = M_create 1)"
    by (simp add: win_run_simps)
  then obtain u s where us: "win_exec 8 win_init = Some u" "win_exec 0 u = Some s"
    "th_loc (win_threads s ! 0) = E_load" "win_main s = M_create 1"
    by (auto split: option.splits)
  have two: "((sched_step win_exec) ^^ 2) win_init s"
    unfolding numeral_2_eq_2 using sched [of win_exec 8, OF us(1)] sched [of win_exec 0, OF us(2)]
    by (meson relpowp_0_I relpowp_Suc_I)
  have "\<not> (\<forall>j<8. th_loc (win_threads s ! j) = E_done)" using us(3) by (intro notI) (auto dest: spec [of _ 0])
  moreover have "win_main s \<noteq> M_returned (-1)" using us(4) by simp
  ultimately show ?thesis using us win_terminates [OF two] two by metis
qed

text \<open>\<open>main\<close> never gets to \<open>close_handles\<close>, and never returns 0: the second call of \<open>wait_threads\<close> is
  undefined.\<close>

lemma close_handles_never_called:
  assumes "win_reachable s"
  shows "win_main s \<noteq> M_close \<and> win_main s \<noteq> M_returned 0"
  using win.reachable_inv [OF assms] by (auto simp: win_inv_def win_main_ok_def)

text \<open>\<open>wait_threads\<close> of sem_05/lab_05 leaves its array: the first call waits for the three
  writers, the second asks for five handles of the same three-element array and is undefined; on the
  readers' array it would have waited for the five readers.\<close>

theorem wait_threads_out_of_bounds:
  "wait_threads_call 0 = Some writers_threads \<and> wait_threads_call 1 = None \<and>
   wait_handles 5 readers_threads = Some readers_threads"
  by (simp add: wait_threads_call_def writers_threads_def readers_threads_def numeral_eq_Suc)

end
