(* ===== verification/Myfs.thy ===== *)
theory Myfs
  imports Prelude
begin

text \<open>
  sem_06/lab_05/myfs.c: a toy file system module with a slab cache of private inode records and an
  array of at most \<open>MAX_CACHE_SIZE\<close> pointers to them, freed when the module is unloaded. The
  kernel is a parameter: the inode \<open>new_inode\<close> returns, the object \<open>kmem_cache_alloc\<close>
  returns, whether \<open>d_make_root\<close> and the registrations succeed are arguments. \<open>objects\<close> is
  the set of slab objects that are alive, with their contents; a dereference of NULL, an access
  outside the array, and freeing NULL or a dead object are traps.
\<close>

section \<open>State\<close>

definition MAX_CACHE_SIZE :: nat where
  "MAX_CACHE_SIZE = 128"

definition MYFS_MAGIC_NUMBER :: u32 where
  "MYFS_MAGIC_NUMBER = 0x13131313"

definition PAGE_SIZE :: nat where
  "PAGE_SIZE = 4096"

definition PAGE_SHIFT :: nat where
  "PAGE_SHIFT = 12"

definition ENOMEM :: int where
  "ENOMEM = 12"

record myfs_inode =
  mi_mode :: int
  mi_ino :: u64

record myfs =
  registered :: bool
  my_inode_cache :: bool
  inode_pointers :: "nat option list option"
  cached_count :: nat
  objects :: "nat \<Rightarrow> myfs_inode option"

definition unloaded :: myfs where
  "unloaded = \<lparr>registered = False, my_inode_cache = False, inode_pointers = None,
     cached_count = 0, objects = (\<lambda>_. None)\<rparr>"

record inode =
  i_mode :: int
  i_ino :: u64
  i_size :: nat
  i_private :: "nat option"

record super_block =
  s_blocksize :: nat
  s_blocksize_bits :: nat
  s_magic :: u32
  s_root :: "inode option"

section \<open>Operations\<close>

text \<open>A slab object starts with unknown contents; zero stands for them until they are written.\<close>

definition blank :: myfs_inode where
  "blank = \<lparr>mi_mode = 0, mi_ino = 0\<rparr>"

text \<open>\<open>p\<close> is what \<open>kmem_cache_alloc\<close> returns, if it is called.\<close>

definition cache_get_inode :: "nat option \<Rightarrow> myfs \<Rightarrow> (nat option \<times> myfs) option" where
  "cache_get_inode p s =
     (if cached_count s = MAX_CACHE_SIZE then Some (None, s)
      else if \<not> my_inode_cache s then None
      else do {
        ptrs \<leftarrow> inode_pointers s;
        ptrs' \<leftarrow> set_cell ptrs (cached_count s) p;
        Some (p, s\<lparr>inode_pointers := Some ptrs', cached_count := cached_count s + 1,
          objects := (case p of None \<Rightarrow> objects s | Some a \<Rightarrow> (objects s)(a \<mapsto> blank))\<rparr>)
      })"

text \<open>\<open>ret\<close> is what \<open>new_inode\<close> returns.\<close>

definition myfs_make_inode ::
    "inode option \<Rightarrow> int \<Rightarrow> nat option \<Rightarrow> myfs \<Rightarrow> (inode option \<times> myfs) option" where
  "myfs_make_inode ret mode p s =
     (case ret of
        None \<Rightarrow> Some (None, s)
      | Some n \<Rightarrow>
          do {
            let n = n\<lparr>i_mode := mode, i_size := PAGE_SIZE\<rparr>;
            (q, s') \<leftarrow> cache_get_inode p s;
            let s'' = (case q of None \<Rightarrow> s'
              | Some a \<Rightarrow> s'\<lparr>objects := (objects s')(a \<mapsto> \<lparr>mi_mode = i_mode n, mi_ino = i_ino n\<rparr>)\<rparr>);
            Some (Some (n\<lparr>i_private := q, i_ino := 1\<rparr>), s'')
          })"

text \<open>
  The result is the returned code, the super block, and how often \<open>iput\<close> is called on the root;
  \<open>rooted\<close> tells whether \<open>d_make_root\<close> succeeds.
\<close>

definition S_IFDIR_0755 :: int where
  "S_IFDIR_0755 = 16877"

definition myfs_fill_sb ::
    "inode option \<Rightarrow> nat option \<Rightarrow> bool \<Rightarrow> super_block \<Rightarrow> myfs \<Rightarrow> (int \<times> super_block \<times> nat \<times> myfs) option" where
  "myfs_fill_sb ret p rooted sb s =
     do {
       let sb = sb\<lparr>s_blocksize := PAGE_SIZE, s_blocksize_bits := PAGE_SHIFT, s_magic := MYFS_MAGIC_NUMBER\<rparr>;
       (root, s') \<leftarrow> myfs_make_inode ret S_IFDIR_0755 p s;
       (case root of
          None \<Rightarrow> Some (- ENOMEM, sb, 0, s')
        | Some n \<Rightarrow>
            if \<not> rooted then Some (- ENOMEM, sb\<lparr>s_root := None\<rparr>, 1, s')
            else Some (0, sb\<lparr>s_root := Some n\<rparr>, 0, s'))
     }"

definition myfs_init :: "int \<Rightarrow> bool \<Rightarrow> bool \<Rightarrow> myfs \<Rightarrow> int \<times> myfs" where
  "myfs_init rc array_ok slab_ok s =
     (if rc \<noteq> 0 then (rc, s)
      else let s1 = s\<lparr>registered := True\<rparr> in
        if \<not> array_ok then (- ENOMEM, s1\<lparr>inode_pointers := None\<rparr>)
        else let s2 = s1\<lparr>inode_pointers := Some (replicate MAX_CACHE_SIZE None)\<rparr> in
          if \<not> slab_ok then (- ENOMEM, s2\<lparr>my_inode_cache := False, inode_pointers := None\<rparr>)
          else (0, s2\<lparr>my_inode_cache := True\<rparr>))"

text \<open>\<open>for (i = 0; i < cached_count; i++) kmem_cache_free(my_inode_cache, inode_pointers[i]);\<close>\<close>

definition kmem_cache_free :: "nat option \<Rightarrow> (nat \<Rightarrow> myfs_inode option) \<Rightarrow> (nat \<Rightarrow> myfs_inode option) option" where
  "kmem_cache_free q objs =
     (case q of None \<Rightarrow> None | Some a \<Rightarrow> if objs a = None then None else Some (objs(a := None)))"

definition myfs_exit :: "int \<Rightarrow> myfs \<Rightarrow> myfs option" where
  "myfs_exit rc s =
     do {
       ptrs \<leftarrow> inode_pointers s;
       (if length ptrs < cached_count s then None
        else do {
          objs \<leftarrow> run_all kmem_cache_free (take (cached_count s) ptrs) (objects s);
          Some (s\<lparr>objects := objs, my_inode_cache := False, inode_pointers := None,
            registered := (if rc = 0 then False else registered s)\<rparr>)
        })
     }"

section \<open>The cache keeps the first allocations\<close>

definition cache_ok :: "nat option list \<Rightarrow> myfs \<Rightarrow> bool" where
  "cache_ok as s \<longleftrightarrow> my_inode_cache s \<and>
     (\<exists>ptrs. inode_pointers s = Some ptrs \<and> length ptrs = MAX_CACHE_SIZE \<and>
       cached_count s = min MAX_CACHE_SIZE (length as) \<and>
       take (cached_count s) ptrs = take MAX_CACHE_SIZE as) \<and>
     (\<forall>a. objects s a \<noteq> None \<longleftrightarrow> Some a \<in> set (take MAX_CACHE_SIZE as))"

lemma cache_ok_init: "cache_ok [] (snd (myfs_init 0 True True unloaded))"
  by (simp add: cache_ok_def myfs_init_def unloaded_def)

lemma make_inode_cache:
  assumes "cache_ok as s"
  shows "\<exists>m s'. myfs_make_inode (Some n) mode p s = Some (Some m, s') \<and> cache_ok (as @ [p]) s' \<and>
    i_ino m = 1 \<and> i_mode m = mode \<and> registered s' = registered s \<and>
    i_private m = (if length as < MAX_CACHE_SIZE then p else None) \<and>
    (case i_private m of None \<Rightarrow> objects s' = objects s
     | Some a \<Rightarrow> objects s' a = Some \<lparr>mi_mode = mode, mi_ino = i_ino n\<rparr>)"
proof (cases "length as < MAX_CACHE_SIZE")
  case True
  obtain ptrs where P: "my_inode_cache s" "inode_pointers s = Some ptrs" "length ptrs = MAX_CACHE_SIZE"
    "cached_count s = length as" "take (length as) ptrs = as"
    "\<forall>a. objects s a \<noteq> None \<longleftrightarrow> Some a \<in> set as"
    using assms True by (auto simp: cache_ok_def)
  have "take (Suc (length as)) (ptrs[length as := p]) = as @ [p]"
    using P(3,5) True by (simp add: take_Suc_update)
  moreover have "Some a \<in> set (as @ [p]) \<longleftrightarrow> p = Some a \<or> Some a \<in> set as" for a by auto
  ultimately show ?thesis
    using P True
    by (cases p) (auto simp: myfs_make_inode_def cache_get_inode_def set_cell_some cache_ok_def Let_def)
next
  case False
  with assms have "cached_count s = MAX_CACHE_SIZE" by (auto simp: cache_ok_def)
  with False assms show ?thesis
    by (auto simp: myfs_make_inode_def cache_get_inode_def cache_ok_def Let_def)
qed

text \<open>Requests for inodes: what \<open>new_inode\<close> and \<open>kmem_cache_alloc\<close> return, and the mode.\<close>

definition make_inodes :: "(inode \<times> int \<times> nat option) list \<Rightarrow> myfs \<Rightarrow> myfs option" where
  "make_inodes reqs s =
     run_all (\<lambda>(n, mode, p) s. map_option snd (myfs_make_inode (Some n) mode p s)) reqs s"

lemma make_inodes_cache:
  "cache_ok as s \<Longrightarrow> \<exists>s'. make_inodes reqs s = Some s' \<and>
     cache_ok (as @ map (\<lambda>(n, mode, p). p) reqs) s' \<and> registered s' = registered s"
proof (induction reqs arbitrary: as s)
  case Nil
  then show ?case by (simp add: make_inodes_def)
next
  case (Cons r reqs)
  obtain n mode p where r: "r = (n, mode, p)" by (cases r)
  obtain m t where t: "myfs_make_inode (Some n) mode p s = Some (Some m, t)" "cache_ok (as @ [p]) t"
    "registered t = registered s"
    using make_inode_cache [OF Cons.prems] by blast
  from Cons.IH [OF t(2)] t show ?case by (auto simp: make_inodes_def r)
qed

lemma free_all:
  assumes "distinct as" "\<forall>a\<in>set as. objs a \<noteq> None"
  shows "run_all kmem_cache_free (map Some as) objs = Some (\<lambda>a. if a \<in> set as then None else objs a)"
  using assms
proof (induction as arbitrary: objs)
  case (Cons a as)
  then have "run_all kmem_cache_free (map Some as) (objs(a := None)) =
      Some (\<lambda>x. if x \<in> set as then None else (objs(a := None)) x)"
    by (intro Cons.IH) auto
  moreover have "kmem_cache_free (Some a) objs = Some (objs(a := None))"
    using Cons.prems by (simp add: kmem_cache_free_def)
  ultimately show ?case by (auto simp: fun_eq_iff)
qed simp

lemma exit_frees:
  assumes ok: "cache_ok (map Some as) s" and "distinct as"
  shows "\<exists>t. myfs_exit 0 s = Some t \<and> objects t = (\<lambda>_. None) \<and> \<not> registered t"
proof -
  let ?kept = "take MAX_CACHE_SIZE as"
  have some: "Some a \<in> set (take MAX_CACHE_SIZE (map Some as)) \<longleftrightarrow> a \<in> set ?kept" for a
    by (auto simp: take_map)
  obtain ptrs where P: "inode_pointers s = Some ptrs" "cached_count s \<le> length ptrs"
    "take (cached_count s) ptrs = map Some ?kept" "\<forall>a. objects s a \<noteq> None \<longleftrightarrow> a \<in> set ?kept"
    using ok unfolding cache_ok_def some by (auto simp: take_map)
  have "run_all kmem_cache_free (map Some ?kept) (objects s) =
      Some (\<lambda>a. if a \<in> set ?kept then None else objects s a)"
    using P(4) assms by (intro free_all) auto
  moreover have "(\<lambda>a. if a \<in> set ?kept then None else objects s a) = (\<lambda>_. None)"
    using P(4) by (auto simp: fun_eq_iff)
  ultimately show ?thesis using P by (simp add: myfs_exit_def)
qed

section \<open>Properties\<close>

text \<open>C20: the inode cache of sem_06/lab_05 is exact: after loading and any requests for inodes, no
  access left the array, \<open>cached_count\<close> is the number of requests up to 128, the array holds the
  objects of the first 128 requests in order, and a further request still gets an inode with number
  1 and the given mode, linked to its own object if it is among the first 128 and to none after.\<close>

theorem myfs_cache_exact:
  "\<exists>s m s' ptrs. make_inodes reqs (snd (myfs_init 0 True True unloaded)) = Some s \<and>
     cached_count s = min 128 (length reqs) \<and> inode_pointers s = Some ptrs \<and>
     take (cached_count s) ptrs = take 128 (map (\<lambda>(n, mode, p). p) reqs) \<and>
     myfs_make_inode (Some n) mode p s = Some (Some m, s') \<and> i_ino m = 1 \<and> i_mode m = mode \<and>
     i_private m = (if length reqs < 128 then p else None)"
proof -
  obtain s where s: "make_inodes reqs (snd (myfs_init 0 True True unloaded)) = Some s"
    "cache_ok (map (\<lambda>(n, mode, p). p) reqs) s"
    using make_inodes_cache [OF cache_ok_init, of reqs] by auto
  with make_inode_cache [OF s(2), of n mode p] show ?thesis
    by (auto simp: cache_ok_def MAX_CACHE_SIZE_def)
qed

text \<open>unloading sem_06/lab_05 frees everything once: after loading and any requests whose
  allocations succeeded with different objects, \<open>myfs_exit\<close> frees every live object exactly once
  (no double free, no NULL), leaves none alive, and unregisters the file system.\<close>

theorem myfs_exit_frees_all:
  assumes "distinct (map (\<lambda>(n, mode, a). a) reqs)"
  shows "\<exists>s t. make_inodes (map (\<lambda>(n, mode, a). (n, mode, Some a)) reqs)
      (snd (myfs_init 0 True True unloaded)) = Some s \<and>
    myfs_exit 0 s = Some t \<and> objects t = (\<lambda>_. None) \<and> \<not> registered t"
proof -
  let ?rs = "map (\<lambda>(n, mode, a). (n, mode, Some a)) reqs"
  define as where "as = map (\<lambda>(n, mode, a). a) reqs"
  have "map (\<lambda>(n, mode, p). p) ?rs = map Some as" by (auto simp: case_prod_beta as_def)
  then obtain s where s: "make_inodes ?rs (snd (myfs_init 0 True True unloaded)) = Some s"
    "cache_ok (map Some as) s"
    using make_inodes_cache [OF cache_ok_init, of ?rs] by auto
  from s exit_frees [OF s(2)] assms show ?thesis by (auto simp: as_def)
qed

theorem myfs_exit_frees_all_witness:
  "\<exists>s t. make_inodes (map (\<lambda>(n, mode, a). (n, mode, Some a))
       [(\<lparr>i_mode = 0, i_ino = 5, i_size = 0, i_private = None\<rparr>, 7, 10),
        (\<lparr>i_mode = 0, i_ino = 6, i_size = 0, i_private = None\<rparr>, 7, 20)])
      (snd (myfs_init 0 True True unloaded)) = Some s \<and>
    myfs_exit 0 s = Some t \<and> objects t = (\<lambda>_. None) \<and> \<not> registered t"
  by (rule myfs_exit_frees_all) simp

text \<open>a failed allocation poisons the unloading of sem_06/lab_05: \<open>cache_get_inode\<close> stores and
  counts the NULL it got, and \<open>myfs_exit\<close> then passes NULL to \<open>kmem_cache_free\<close>.\<close>

theorem myfs_null_slot:
  "\<exists>s. make_inodes [(n, mode, None)] (snd (myfs_init 0 True True unloaded)) = Some s \<and>
     cached_count s = 1 \<and> myfs_exit rc s = None"
proof -
  obtain s where s: "make_inodes [(n, mode, None)] (snd (myfs_init 0 True True unloaded)) = Some s"
    "cache_ok [None] s"
    using make_inodes_cache [OF cache_ok_init, of "[(n, mode, None)]"] by auto
  then obtain ptrs where "inode_pointers s = Some ptrs" "length ptrs = MAX_CACHE_SIZE"
    "cached_count s = 1" "take 1 ptrs = [None]"
    by (auto simp: cache_ok_def MAX_CACHE_SIZE_def)
  with s show ?thesis by (auto simp: myfs_exit_def kmem_cache_free_def MAX_CACHE_SIZE_def)
qed

text \<open>a failed \<open>myfs_init\<close> of sem_06/lab_05 leaks: when the array or the slab cache cannot be
  allocated it returns \<open>-ENOMEM\<close> and leaves the file system type registered.\<close>

theorem myfs_init_leaks:
  assumes "\<not> array_ok \<or> \<not> slab_ok"
  shows "fst (myfs_init 0 array_ok slab_ok s) = - 12 \<and> registered (snd (myfs_init 0 array_ok slab_ok s))"
  using assms by (auto simp: myfs_init_def Let_def ENOMEM_def)

theorem myfs_init_leaks_witness:
  "fst (myfs_init 0 True False unloaded) = - 12 \<and> registered (snd (myfs_init 0 True False unloaded))"
  by (rule myfs_init_leaks) simp

end
