(* ===== verification/Array_Tasks.thy ===== *)
theory Array_Tasks
  imports Prelude "HOL-Library.Signed_Division"
begin

text \<open>
  Three array programs that the later tasks of the course run as their children:
  sem_05/lab_02/p_1.c (the product of the odd elements), sem_05/lab_02/p_2.c (a matrix filled along
  a spiral) and sem_06/lab_03/p_1/main.c (the triangles above and below the diagonals swapped). A
  matrix is the 100 by 100 store of the C array; a cell that was never written has no value, and
  reading it, leaving the array, or overflowing an \<open>int\<close> is a trap.
\<close>

section \<open>Integers and matrices\<close>

definition in_int :: "int \<Rightarrow> bool" where
  "in_int x \<longleftrightarrow> - (2 ^ 31) \<le> x \<and> x < 2 ^ 31"

definition C_MAX :: nat where
  "C_MAX = 100"

type_synonym matrix = "nat \<times> nat \<Rightarrow> int option"

definition load :: "matrix \<Rightarrow> nat \<Rightarrow> nat \<Rightarrow> int option" where
  "load m i j = (if i < C_MAX \<and> j < C_MAX then m (i, j) else None)"

definition store :: "nat \<Rightarrow> nat \<Rightarrow> int \<Rightarrow> matrix \<Rightarrow> matrix option" where
  "store i j x m = (if i < C_MAX \<and> j < C_MAX then Some (m((i, j) \<mapsto> x)) else None)"

lemma matrix_eqI: "(\<And>x y. m (x, y) = m' (x, y)) \<Longrightarrow> m = (m' :: matrix)"
  by (rule ext) (auto simp: split_paired_all)

text \<open>Every cell of the \<open>r\<close> by \<open>r\<close> square has a value.\<close>

definition initialised :: "nat \<Rightarrow> matrix \<Rightarrow> bool" where
  "initialised r m \<longleftrightarrow> (\<forall>x<r. \<forall>y<r. m (x, y) \<noteq> None)"

section \<open>The product of the odd elements (p\_1.c)\<close>

definition mul_int :: "int \<Rightarrow> int \<Rightarrow> int option" where
  "mul_int x y = (if in_int (x * y) then Some (x * y) else None)"

definition odd_step :: "int list \<Rightarrow> nat \<Rightarrow> nat \<times> int \<Rightarrow> (nat \<times> int) option" where
  "odd_step arr i s =
     (case cell arr i of
        None \<Rightarrow> None
      | Some x \<Rightarrow>
          if x smod 2 \<noteq> 0 then map_option (\<lambda>p. (fst s + 1, p)) (mul_int (snd s) x) else Some s)"

definition product_odd :: "nat \<Rightarrow> int list \<Rightarrow> int \<Rightarrow> (nat \<times> int) option" where
  "product_odd n arr prod0 = for_up (odd_step arr) 0 n (0, prod0)"

lemma smod_2: "(x smod 2 \<noteq> 0) \<longleftrightarrow> odd (x::int)"
proof -
  have "\<bar>x\<bar> mod 2 \<noteq> 0 \<longleftrightarrow> odd x" by (simp add: mod_2_eq_odd)
  then show ?thesis by (auto simp: signed_modulo_int_def sgn_if)
qed

definition odds :: "int list \<Rightarrow> int list" where
  "odds xs = filter odd xs"

lemma prod_odds_pos: "1 \<le> \<bar>prod_list (odds xs)\<bar>"
proof -
  have "prod_list (odds xs) \<noteq> 0" by (induction xs) (auto simp: odds_def)
  then show ?thesis by simp
qed

lemma prod_odds_odd: "odd (prod_list (odds xs))"
  by (induction xs) (auto simp: odds_def)

text \<open>The magnitude of the partial products only grows, and is never the even number \<open>2^31\<close>.\<close>

lemma prod_prefix_le: "\<bar>prod_list (odds xs)\<bar> \<le> \<bar>prod_list (odds (xs @ ys))\<bar>"
proof -
  have "\<bar>prod_list (odds (xs @ ys))\<bar> = \<bar>prod_list (odds xs)\<bar> * \<bar>prod_list (odds ys)\<bar>"
    by (simp add: odds_def abs_mult)
  then show ?thesis
    using mult_left_mono [OF prod_odds_pos [of ys], of "\<bar>prod_list (odds xs)\<bar>"] by simp
qed

lemma in_int_odds: "in_int (prod_list (odds xs)) \<longleftrightarrow> \<bar>prod_list (odds xs)\<bar> < 2 ^ 31"
proof -
  have "prod_list (odds xs) \<noteq> - (2 ^ 31)" using prod_odds_odd [of xs] by auto
  then show ?thesis by (auto simp: in_int_def)
qed

lemma odd_step_run:
  assumes "i < length arr" "in_int (prod_list (odds (take (Suc i) arr)))"
  shows "odd_step arr i (length (odds (take i arr)), prod_list (odds (take i arr))) =
    Some (length (odds (take (Suc i) arr)), prod_list (odds (take (Suc i) arr)))"
proof -
  have next_: "odds (take (Suc i) arr) = odds (take i arr) @ (if odd (arr ! i) then [arr ! i] else [])"
    using assms(1) by (simp add: take_Suc_conv_app_nth odds_def)
  show ?thesis
    using assms unfolding next_
    by (cases "odd (arr ! i)") (simp_all add: odd_step_def cell_some smod_2 mul_int_def)
qed

text \<open>\<open>product_odd\<close> is exact: for an array whose odd elements have a product below \<open>2^31\<close> in
  magnitude it neither leaves the array nor overflows, at no intermediate step, and returns the
  number of odd elements and their product.\<close>

theorem product_odd_exact:
  assumes "n \<le> length arr" "\<bar>prod_list (odds (take n arr))\<bar> < 2 ^ 31"
  shows "product_odd n arr 1 = Some (length (odds (take n arr)), prod_list (odds (take n arr)))"
proof -
  let ?P = "\<lambda>i s. s = (length (odds (take i arr)), prod_list (odds (take i arr)))"
  have "\<exists>t. for_up (odd_step arr) 0 n (0, 1) = Some t \<and> ?P n t"
  proof (rule for_up_inv [where P = ?P])
    fix i s assume i: "i < n" and P: "?P i s"
    have "take n arr = take (Suc i) arr @ drop (Suc i) (take n arr)"
      using i by (metis Suc_leI append_take_drop_id min.absorb1 take_take)
    then have "\<bar>prod_list (odds (take (Suc i) arr))\<bar> < 2 ^ 31"
      using prod_prefix_le [of "take (Suc i) arr" "drop (Suc i) (take n arr)"] assms(2) by simp
    then have "in_int (prod_list (odds (take (Suc i) arr)))" by (simp add: in_int_odds)
    with odd_step_run [of i arr] i assms(1) P
    show "\<exists>t. odd_step arr i s = Some t \<and> ?P (Suc i) t" by simp
  qed (simp_all add: odds_def)
  then show ?thesis by (simp add: product_odd_def)
qed

theorem product_odd_exact_witness: "product_odd 4 [3, 4, - 5, 7, 9] 1 = Some (3, - 105)"
  using product_odd_exact [of 4 "[3, 4, - 5, 7, 9]"] by (simp add: odds_def)

section \<open>The triangles swapped (sem\_06/lab\_03/p\_1)\<close>

definition swap :: "nat \<Rightarrow> nat \<Rightarrow> nat \<Rightarrow> nat \<Rightarrow> matrix \<Rightarrow> matrix option" where
  "swap i j k l m =
     do { x \<leftarrow> load m i j; y \<leftarrow> load m k l; m' \<leftarrow> store i j y m; store k l x m' }"

definition triangle_body :: "nat \<Rightarrow> nat \<Rightarrow> nat \<Rightarrow> matrix \<Rightarrow> matrix option" where
  "triangle_body r i j m = (if i \<le> j \<and> i + j \<le> r - 1 then swap i j (r - i - 1) j m else Some m)"

definition swap_upper_lower_triangle :: "nat \<Rightarrow> nat \<Rightarrow> matrix \<Rightarrow> matrix option" where
  "swap_upper_lower_triangle r c m = for_up (\<lambda>i. for_up (triangle_body r i) 0 c) 0 (r div 2) m"

text \<open>The distance of a row from the nearer edge, and the cells between the two diagonals that lie
  above or below the centre.\<close>

definition depth :: "nat \<Rightarrow> nat \<Rightarrow> nat" where
  "depth r x = min x (r - 1 - x)"

definition in_triangles :: "nat \<Rightarrow> nat \<Rightarrow> nat \<Rightarrow> bool" where
  "in_triangles r x y \<longleftrightarrow> x < r \<and> depth r x < r div 2 \<and> depth r x \<le> y \<and> depth r x + y \<le> r - 1"

text \<open>The cells already swapped when the loops stand at \<open>(i, j)\<close>.\<close>

definition mirrored_upto :: "nat \<Rightarrow> nat \<Rightarrow> nat \<Rightarrow> matrix \<Rightarrow> matrix" where
  "mirrored_upto r i j m = (\<lambda>(x, y).
     if in_triangles r x y \<and> (depth r x < i \<or> depth r x = i \<and> y < j) then m (r - 1 - x, y) else m (x, y))"

definition mirrored :: "nat \<Rightarrow> matrix \<Rightarrow> matrix" where
  "mirrored r m = (\<lambda>(x, y). if in_triangles r x y then m (r - 1 - x, y) else m (x, y))"

lemma depth_mirror: "x < r \<Longrightarrow> depth r (r - 1 - x) = depth r x"
  by (auto simp: depth_def)

lemma depth_eq: "x < r \<Longrightarrow> i < r div 2 \<Longrightarrow> depth r x = i \<longleftrightarrow> x = i \<or> x = r - i - 1"
  by (auto simp: depth_def min_def)

text \<open>A turn outside the triangles, and the two cells that a turn inside them exchanges.\<close>

lemma mirrored_upto_outside:
  assumes "\<not> (i \<le> j \<and> i + j \<le> r - 1)"
  shows "mirrored_upto r i (Suc j) m = mirrored_upto r i j m"
proof (rule ext, clarify)
  fix x y
  have "in_triangles r x y \<and> depth r x = i \<longrightarrow> y \<noteq> j" using assms by (auto simp: in_triangles_def)
  then show "mirrored_upto r i (Suc j) m (x, y) = mirrored_upto r i j m (x, y)"
    by (auto simp: mirrored_upto_def less_Suc_eq)
qed

lemma mirrored_upto_cells:
  assumes "i < r div 2" "i \<le> j \<and> i + j \<le> r - 1" "m (i, j) = Some a" "m (r - i - 1, j) = Some b"
  shows "(mirrored_upto r i j m)((i, j) \<mapsto> b, (r - i - 1, j) \<mapsto> a) = mirrored_upto r i (Suc j) m"
proof (rule matrix_eqI)
  fix x y
  let ?k = "r - i - 1"
  have i: "i < r" "?k < r" "?k \<noteq> i" "r - 1 - ?k = i" using assms(1) by auto
  have d: "depth r i = i" "depth r ?k = i" using assms(1) depth_eq [of i r i] depth_eq [of ?k r i] i by auto
  have in_: "in_triangles r i j" "in_triangles r ?k j" using assms(1,2) d i by (auto simp: in_triangles_def)
  show "((mirrored_upto r i j m)((i, j) \<mapsto> b, (?k, j) \<mapsto> a)) (x, y) = mirrored_upto r i (Suc j) m (x, y)"
  proof (cases "y = j \<and> (x = i \<or> x = ?k)")
    case True
    then show ?thesis using i in_ d assms(3,4) by (auto simp: mirrored_upto_def)
  next
    case False
    then have "\<not> (in_triangles r x y \<and> depth r x = i \<and> y = j)"
      using depth_eq [of x r i] assms(1) by (auto simp: in_triangles_def)
    then have "mirrored_upto r i (Suc j) m (x, y) = mirrored_upto r i j m (x, y)"
      unfolding mirrored_upto_def less_Suc_eq by auto
    moreover have "(x, y) \<noteq> (i, j)" "(x, y) \<noteq> (?k, j)" using False by auto
    ultimately show ?thesis by (simp only: fun_upd_other not_False_eq_True)
  qed
qed

lemma mirrored_upto_step:
  assumes "i < r div 2" "j < r" "r \<le> C_MAX" "initialised r m"
  shows "triangle_body r i j (mirrored_upto r i j m) = Some (mirrored_upto r i (Suc j) m)"
proof (cases "i \<le> j \<and> i + j \<le> r - 1")
  case False
  with mirrored_upto_outside show ?thesis by (auto simp: triangle_body_def)
next
  case True
  let ?k = "r - i - 1"
  have i: "i < r" "?k < r" "?k \<noteq> i" using assms(1) by auto
  have d: "depth r i = i" "depth r ?k = i" using assms(1) depth_eq [of i r i] depth_eq [of ?k r i] i by auto
  obtain a b where ab: "m (i, j) = Some a" "m (?k, j) = Some b"
    using assms(2,4) i unfolding initialised_def by (meson not_Some_eq)
  have "mirrored_upto r i j m (i, j) = Some a" "mirrored_upto r i j m (?k, j) = Some b"
    using d ab by (simp_all add: mirrored_upto_def)
  then have "triangle_body r i j (mirrored_upto r i j m) =
      Some ((mirrored_upto r i j m)((i, j) \<mapsto> b, (?k, j) \<mapsto> a))"
    using True i assms(2,3) by (simp add: triangle_body_def swap_def load_def store_def)
  with mirrored_upto_cells [OF assms(1) True ab] show ?thesis by simp
qed

lemma mirrored_upto_row: "mirrored_upto r i r m = mirrored_upto r (Suc i) 0 m"
  by (rule ext) (auto simp: mirrored_upto_def in_triangles_def less_Suc_eq)

lemma swap_triangles_run:
  assumes "r \<le> C_MAX" "initialised r m"
  shows "swap_upper_lower_triangle r r m = Some (mirrored r m)"
proof -
  have "\<exists>t. for_up (\<lambda>i. for_up (triangle_body r i) 0 r) 0 (r div 2) m = Some t \<and>
      t = mirrored_upto r (r div 2) 0 m"
  proof (rule for_up_inv [where P = "\<lambda>i t. t = mirrored_upto r i 0 m"])
    show "m = mirrored_upto r 0 0 m" by (auto simp: mirrored_upto_def)
  next
    fix i s assume i: "i < r div 2" and s: "s = mirrored_upto r i 0 m"
    have "\<exists>t. for_up (triangle_body r i) 0 r s = Some t \<and> t = mirrored_upto r i r m"
      by (rule for_up_inv [where P = "\<lambda>j t. t = mirrored_upto r i j m"])
        (use i s mirrored_upto_step [OF i _ assms] in auto)
    then show "\<exists>t. for_up (triangle_body r i) 0 r s = Some t \<and> t = mirrored_upto r (Suc i) 0 m"
      by (simp add: mirrored_upto_row)
  qed simp
  moreover have "mirrored_upto r (r div 2) 0 m = mirrored r m"
    by (rule ext) (auto simp: mirrored_upto_def mirrored_def in_triangles_def)
  ultimately show ?thesis by (simp add: swap_upper_lower_triangle_def)
qed

lemma in_triangles_mirror: "in_triangles r x y \<Longrightarrow> in_triangles r (r - 1 - x) y \<and> r - 1 - (r - 1 - x) = x"
  using depth_mirror [of x r] by (auto simp: in_triangles_def)

lemma mirrored_mirrored: "mirrored r (mirrored r m) = m"
  using in_triangles_mirror by (fastforce simp: mirrored_def fun_eq_iff)

text \<open>\<open>swap_upper_lower_triangle\<close> does what its comment says: on an initialised square matrix
  that fits the array it neither leaves the array nor reads an unset cell, every cell of the
  triangles above and below the centre exchanges its value with its mirror image in the middle row,
  every other cell (also outside the square) is unchanged, and running it twice restores the matrix.\<close>

theorem swap_triangles_exact:
  assumes "r \<le> C_MAX" "initialised r m"
  shows "\<exists>m'. swap_upper_lower_triangle r r m = Some m' \<and>
    m' = (\<lambda>(x, y). if in_triangles r x y then m (r - 1 - x, y) else m (x, y)) \<and>
    swap_upper_lower_triangle r r m' = Some m"
proof -
  have "initialised r (mirrored r m)"
    using assms(2) by (auto simp: initialised_def mirrored_def)
  from swap_triangles_run [OF assms(1) this]
  have "swap_upper_lower_triangle r r (mirrored r m) = Some (mirrored r (mirrored r m))" .
  then show ?thesis
    using swap_triangles_run [OF assms] by (simp add: mirrored_mirrored) (simp add: mirrored_def)
qed

theorem swap_triangles_exact_witness:
  "\<exists>m'. swap_upper_lower_triangle 3 3 (\<lambda>(x, y). Some (int (3 * x + y))) = Some m' \<and>
     m' (0, 0) = Some 6 \<and> m' (2, 0) = Some 0 \<and> m' (1, 0) = Some 3"
proof -
  have "(3::nat) \<le> C_MAX" "initialised 3 (\<lambda>(x, y). Some (int (3 * x + y)))"
    by (simp_all add: C_MAX_def initialised_def)
  from swap_triangles_exact [OF this] show ?thesis
    by (auto simp: in_triangles_def depth_def)
qed

section \<open>The spiral (p\_2.c)\<close>

text \<open>\<open>(*last_num)++; matrix[i][j] = *last_num;\<close>\<close>

definition put_next :: "nat \<Rightarrow> nat \<Rightarrow> int \<times> matrix \<Rightarrow> (int \<times> matrix) option" where
  "put_next i j s = map_option (\<lambda>m. (fst s + 1, m)) (store i j (fst s + 1) (snd s))"

text \<open>The four loops; the third writes row \<open>c - circle - 1\<close>, as the source does.\<close>

definition fill_one_circle :: "nat \<Rightarrow> nat \<Rightarrow> nat \<Rightarrow> int \<times> matrix \<Rightarrow> (int \<times> matrix) option" where
  "fill_one_circle k r c s =
     do {
       s \<leftarrow> for_up (\<lambda>j. put_next k j) k (c - k) s;
       s \<leftarrow> for_up (\<lambda>i. put_next i (c - k - 1)) (k + 1) (r - k) s;
       s \<leftarrow> for_down (\<lambda>j. put_next (c - k - 1) (j - 1)) (c - k - 1) k s;
       for_down (\<lambda>i. put_next (i - 1) k) (r - k - 1) (k + 1) s
     }"

definition fill :: "nat \<Rightarrow> nat \<Rightarrow> matrix \<Rightarrow> matrix option" where
  "fill r c m =
     map_option snd (for_up (\<lambda>i. fill_one_circle i r c) 0 (r div 2 + 1) (0, m))"

text \<open>The path: along the top row to the right, down the last column, along the bottom row to the
  left, up the first column; then the next circle.\<close>

definition circle_path :: "nat \<Rightarrow> nat \<Rightarrow> (nat \<times> nat) list" where
  "circle_path n k =
     map (\<lambda>j. (k, j)) [k..<n - k] @ map (\<lambda>i. (i, n - k - 1)) [k + 1..<n - k] @
     map (\<lambda>j. (n - k - 1, j - 1)) (rev [Suc k..<n - k]) @ map (\<lambda>i. (i - 1, k)) (rev [k + 2..<n - k])"

definition path :: "nat \<Rightarrow> (nat \<times> nat) list" where
  "path n = concat (map (circle_path n) [0..<n div 2 + 1])"

fun put_cells :: "(nat \<times> nat) list \<Rightarrow> int \<times> matrix \<Rightarrow> (int \<times> matrix) option" where
  "put_cells [] s = Some s"
| "put_cells (p # ps) s = (case put_next (fst p) (snd p) s of None \<Rightarrow> None | Some t \<Rightarrow> put_cells ps t)"

lemma put_cells_append:
  "put_cells (ps @ qs) s = (case put_cells ps s of None \<Rightarrow> None | Some t \<Rightarrow> put_cells qs t)"
  by (induction ps arbitrary: s) (auto split: option.splits)

lemma for_up_cells:
  "for_up (\<lambda>i. put_next (f i) (g i)) a b s = put_cells (map (\<lambda>i. (f i, g i)) [a..<b]) s"
proof (induction "b - a" arbitrary: a s)
  case 0
  then show ?case by (simp add: for_up.simps [of _ a b s])
next
  case (Suc d)
  then have "a < b" "d = b - Suc a" by auto
  with Suc.hyps(1) show ?case
    by (subst for_up.simps) (simp add: upt_conv_Cons split: option.split)
qed

lemma for_down_cells:
  "for_down (\<lambda>i. put_next (f i) (g i)) a b s = put_cells (map (\<lambda>i. (f i, g i)) (rev [Suc b..<Suc a])) s"
proof (induction "a - b" arbitrary: a s)
  case 0
  then show ?case by (simp add: for_down.simps [of _ a b s])
next
  case (Suc d)
  then have "b < a" "d = (a - 1) - b" "Suc (a - 1) = a" by auto
  with Suc.hyps(1) [of "a - 1"] show ?case
    by (subst for_down.simps) (simp split: option.split)
qed

lemma fill_circle_cells: "fill_one_circle k n n s = put_cells (circle_path n k) s"
proof (cases "n \<le> k")
  case True
  then show ?thesis
    by (simp add: fill_one_circle_def circle_path_def for_up_cells for_down_cells)
next
  case False
  then have "Suc (n - k - 1) = n - k" by simp
  then show ?thesis
    unfolding fill_one_circle_def circle_path_def put_cells_append for_up_cells for_down_cells
    by (auto simp: Option.bind_def split: option.splits)
qed

lemma fill_path: "fill n n m = map_option snd (put_cells (path n) (0, m))"
proof -
  have "for_up (\<lambda>i. fill_one_circle i n n) a b s = put_cells (concat (map (circle_path n) [a..<b])) s" for a b s
  proof (induction "b - a" arbitrary: a s)
    case 0
    then show ?case by (simp add: for_up.simps [of _ a b s])
  next
    case (Suc d)
    then have "a < b" "d = b - Suc a" by auto
    with Suc.hyps(1) [of "Suc a"] show ?case
      by (subst for_up.simps)
        (simp add: upt_conv_Cons put_cells_append fill_circle_cells split: option.split)
  qed
  then show ?thesis by (simp add: fill_def path_def)
qed

lemma put_cells_values:
  assumes "distinct ps" "\<forall>p\<in>set ps. fst p < C_MAX \<and> snd p < C_MAX"
  shows "\<exists>m'. put_cells ps (l, m) = Some (l + int (length ps), m') \<and>
    (\<forall>t<length ps. m' (ps ! t) = Some (l + int t + 1)) \<and> (\<forall>p. p \<notin> set ps \<longrightarrow> m' p = m p)"
  using assms
proof (induction ps arbitrary: l m)
  case (Cons p ps)
  let ?m = "m(p \<mapsto> l + 1)"
  obtain m' where m': "put_cells ps (l + 1, ?m) = Some (l + 1 + int (length ps), m')"
    "\<forall>t<length ps. m' (ps ! t) = Some (l + 1 + int t + 1)" "\<forall>q. q \<notin> set ps \<longrightarrow> m' q = ?m q"
  proof -
    have "distinct ps" "\<forall>p\<in>set ps. fst p < C_MAX \<and> snd p < C_MAX" using Cons.prems by auto
    from Cons.IH [OF this, of "l + 1" ?m] that show thesis by blast
  qed
  have "put_next (fst p) (snd p) (l, m) = Some (l + 1, ?m)"
    using Cons.prems(2) by (simp add: put_next_def store_def)
  moreover have "m' p = Some (l + 1)" using m'(3) Cons.prems(1) by (cases p) simp
  ultimately show ?case using m' Cons.prems(1)
    by (auto simp: nth_Cons ac_simps split: nat.splits)
qed simp

text \<open>Two cells that share a side.\<close>

definition adjacent :: "nat \<times> nat \<Rightarrow> nat \<times> nat \<Rightarrow> bool" where
  "adjacent p q \<longleftrightarrow>
     (fst p = fst q \<and> (snd q = Suc (snd p) \<or> snd p = Suc (snd q))) \<or>
     (snd p = snd q \<and> (fst q = Suc (fst p) \<or> fst p = Suc (fst q)))"

fun walk :: "(nat \<times> nat) list \<Rightarrow> bool" where
  "walk (p # q # ps) = (adjacent p q \<and> walk (q # ps))"
| "walk _ = True"

definition path_ok :: "nat \<Rightarrow> bool" where
  "path_ok n \<longleftrightarrow> distinct (path n) \<and> length (path n) = n * n \<and>
     list_all (\<lambda>p. fst p < n \<and> snd p < n) (path n) \<and> walk (path n)"

lemma path_ok_small: "list_all path_ok [1, 2, 3, 4, 5, 6, 7, 8, 9, 10]"
  by code_simp

lemma path_ok_input: "1 \<le> n \<Longrightarrow> n \<le> 10 \<Longrightarrow> path_ok n"
proof -
  assume "1 \<le> n" "n \<le> 10"
  then have "n = 1 \<or> n = 2 \<or> n = 3 \<or> n = 4 \<or> n = 5 \<or> n = 6 \<or> n = 7 \<or> n = 8 \<or> n = 9 \<or> n = 10"
    by presburger
  with path_ok_small show ?thesis by auto
qed

text \<open>\<open>fill\<close> draws a spiral: for every size the program accepts it stays inside the array (no
  unsigned bound wraps), writes each of the \<open>n * n\<close> cells of the square once and no other cell, and
  writes the numbers 1, 2, ..., \<open>n * n\<close> along the clockwise path, on which each cell is a neighbour
  of the one before.\<close>

lemma fill_draws_spiral:
  assumes "1 \<le> n" "n \<le> 10"
  shows "\<exists>m'. fill n n m = Some m' \<and> length (path n) = n * n \<and> distinct (path n) \<and>
    set (path n) = {..<n} \<times> {..<n} \<and> walk (path n) \<and>
    (\<forall>t<n * n. m' (path n ! t) = Some (int t + 1)) \<and> (\<forall>p. p \<notin> set (path n) \<longrightarrow> m' p = m p)"
proof -
  have ok: "distinct (path n)" "length (path n) = n * n"
    "\<forall>p\<in>set (path n). fst p < n \<and> snd p < n" "walk (path n)"
    using path_ok_input [OF assms] by (simp_all add: path_ok_def list_all_iff)
  have sub: "set (path n) \<subseteq> {..<n} \<times> {..<n}" using ok(3) by auto
  have "card (set (path n)) = card ({..<n} \<times> {..<n})"
    using distinct_card [OF ok(1)] ok(2) by simp
  with sub have all: "set (path n) = {..<n} \<times> {..<n}" by (intro card_subset_eq) auto
  have "\<forall>p\<in>set (path n). fst p < C_MAX \<and> snd p < C_MAX"
    using ok(3) assms(2) by (fastforce simp: C_MAX_def)
  from put_cells_values [OF ok(1) this, of 0 m] ok all show ?thesis
    by (auto simp: fill_path)
qed

end
