(* ===== verification/Console_Programs.thy ===== *)
theory Console_Programs
  imports Array_Tasks C_Strings
begin

text \<open>
  The three array programs from their standard input to their standard output: the conversions
  \<open>%d\<close> and \<open>%zu\<close> of \<open>scanf\<close> on the characters that are left to read, the loops of
  \<open>input\<close> and \<open>print\<close>, and each \<open>main\<close> as the exit code and the text it prints. \<open>None\<close> is
  undefined behaviour: a number that its type cannot hold, an unset cell, a product that overflows.
\<close>

section \<open>Conversions of scanf\<close>

datatype 'a scanned = Matched 'a string | Unmatched | Undefined

definition is_space :: "char \<Rightarrow> bool" where
  "is_space c \<longleftrightarrow> c \<in> {CHR 0x20, CHR 0x09, CHR 0x0A, CHR 0x0B, CHR 0x0C, CHR 0x0D}"

definition is_digit :: "char \<Rightarrow> bool" where
  "is_digit c \<longleftrightarrow> 48 \<le> (of_char c :: nat) \<and> (of_char c :: nat) < 58"

text \<open>White space, an optional sign and at least one digit: whether the sign is a minus, the
  magnitude, and what is left.\<close>

definition scan_sign :: "string \<Rightarrow> bool \<times> string" where
  "scan_sign s =
     (case s of [] \<Rightarrow> (False, [])
      | c # t \<Rightarrow> if c = CHR ''-'' then (True, t) else if c = CHR ''+'' then (False, t) else (False, s))"

definition scan_number :: "string \<Rightarrow> (bool \<times> nat \<times> string) option" where
  "scan_number s =
     (let (neg, t) = scan_sign (dropWhile is_space s); ds = takeWhile is_digit t in
      if ds = [] then None else Some (neg, read_nat ds, dropWhile is_digit t))"

definition scan_d :: "string \<Rightarrow> int scanned" where
  "scan_d s =
     (case scan_number s of
        None \<Rightarrow> Unmatched
      | Some (neg, n, rest) \<Rightarrow>
          (let x = (if neg then - int n else int n) in if in_int x then Matched x rest else Undefined))"

text \<open>An unsigned conversion takes a sign too, and negates in the type.\<close>

definition scan_zu :: "string \<Rightarrow> nat scanned" where
  "scan_zu s =
     (case scan_number s of
        None \<Rightarrow> Unmatched
      | Some (neg, n, rest) \<Rightarrow>
          if 2 ^ 64 \<le> n then Undefined
          else Matched (if neg then nat (- int n mod 2 ^ 64) else n) rest)"

lemma dropWhile_space: "list_all is_space ws \<Longrightarrow> dropWhile is_space (ws @ s) = dropWhile is_space s"
  by (induction ws) auto

lemma is_digit_digit: "n < 10 \<Longrightarrow> is_digit (digit n)"
  by (simp add: is_digit_def of_char_digit)

lemma show_nat_digits: "list_all is_digit (show_nat n)"
proof (induction n rule: show_nat.induct)
  case (1 n)
  then show ?case
    by (auto simp: show_nat.simps [of n] is_digit_digit)
qed

lemma digit_not_space: "is_digit c \<Longrightarrow> \<not> is_space c \<and> c \<noteq> CHR ''-'' \<and> c \<noteq> CHR ''+''"
  by (auto simp: is_digit_def is_space_def)

lemma takeWhile_digits:
  assumes "list_all is_digit ds" "\<forall>c t. rest = c # t \<longrightarrow> \<not> is_digit c"
  shows "takeWhile is_digit (ds @ rest) = ds" "dropWhile is_digit (ds @ rest) = rest"
  using assms by (induction ds) (cases rest; auto)+

definition ends_number :: "string \<Rightarrow> bool" where
  "ends_number s \<longleftrightarrow> (case s of [] \<Rightarrow> True | c # _ \<Rightarrow> \<not> is_digit c)"

lemma ends_numberD: "ends_number s \<Longrightarrow> \<forall>c t. s = c # t \<longrightarrow> \<not> is_digit c"
  by (auto simp: ends_number_def)

lemma ends_number_Cons [simp]: "ends_number (c # s) \<longleftrightarrow> \<not> is_digit c"
  by (simp add: ends_number_def)

text \<open>A printed number is read back, whatever white space is before it.\<close>

lemma scan_number_show:
  assumes "list_all is_space ws" "ends_number rest"
  shows "scan_number (ws @ show_nat n @ rest) = Some (False, n, rest)"
    and "scan_number (ws @ CHR ''-'' # show_nat n @ rest) = Some (True, n, rest)"
proof -
  obtain c t where split: "show_nat n = c # t" by (cases "show_nat n") auto
  then have c: "is_digit c" using show_nat_digits [of n] by simp
  note read = takeWhile_digits [OF show_nat_digits [of n] ends_numberD [OF assms(2)]]
  show "scan_number (ws @ show_nat n @ rest) = Some (False, n, rest)"
    using digit_not_space [OF c] read
    by (simp add: scan_number_def dropWhile_space [OF assms(1)] split scan_sign_def
        read_show_nat [of n, unfolded split])
  have "\<not> is_space CHR ''-''" by (simp add: is_space_def)
  then show "scan_number (ws @ CHR ''-'' # show_nat n @ rest) = Some (True, n, rest)"
    using read by (simp add: scan_number_def dropWhile_space [OF assms(1)] scan_sign_def read_show_nat)
qed

lemma scan_d_show:
  assumes "list_all is_space ws" "ends_number rest" "in_int x"
  shows "scan_d (ws @ show_int x @ rest) = Matched x rest"
  using scan_number_show [OF assms(1,2)] assms(3) by (simp add: scan_d_def show_int_def Let_def)

lemma scan_zu_show:
  assumes "list_all is_space ws" "ends_number rest" "n < 2 ^ 64"
  shows "scan_zu (ws @ show_nat n @ rest) = Matched n rest"
  using scan_number_show(1) [OF assms(1,2)] assms(3) by (simp add: scan_zu_def)

section \<open>Loops whose body returns\<close>

text \<open>\<open>for (i = a; i < b; i++) body\<close>, where the body may return from the function: \<open>Inl\<close> is
  the value returned.\<close>

function for_ret :: "(nat \<Rightarrow> 's \<Rightarrow> ('r + 's) option) \<Rightarrow> nat \<Rightarrow> nat \<Rightarrow> 's \<Rightarrow> ('r + 's) option" where
  "for_ret body i b s =
     (if i < b then
        (case body i s of
           None \<Rightarrow> None
         | Some (Inl r) \<Rightarrow> Some (Inl r)
         | Some (Inr t) \<Rightarrow> for_ret body (Suc i) b t)
      else Some (Inr s))"
  by pat_completeness auto
termination
  by (relation "measure (\<lambda>(body, i, b, s). b - i)") auto

declare for_ret.simps [simp del]

lemma for_ret_inv:
  assumes "a \<le> b" "P a s"
    and "\<And>i s. a \<le> i \<Longrightarrow> i < b \<Longrightarrow> P i s \<Longrightarrow> \<exists>t. body i s = Some (Inr t) \<and> P (Suc i) t"
  shows "\<exists>t. for_ret body a b s = Some (Inr t) \<and> P b t"
  using assms
proof (induction "b - a" arbitrary: a s)
  case 0
  then show ?case by (simp add: for_ret.simps [of body a a s])
next
  case (Suc d)
  then have "a < b" by simp
  with Suc.prems obtain u where u: "body a s = Some (Inr u)" "P (Suc a) u" by blast
  have "\<exists>t. for_ret body (Suc a) b u = Some (Inr t) \<and> P b t"
    using Suc.hyps Suc.prems(3) u(2) \<open>a < b\<close> by (intro Suc.hyps(1)) auto
  with u \<open>a < b\<close> show ?case by (simp add: for_ret.simps [of body a b s])
qed

section \<open>The product of the odd elements (p\_1.c)\<close>

text \<open>\<open>input\<close>: the list is the part of the array that has been read.\<close>

definition input_elem :: "nat \<Rightarrow> int list \<times> string \<Rightarrow> (int + int list \<times> string) option" where
  "input_elem i s =
     (case scan_d (snd s) of
        Matched x rest \<Rightarrow> Some (Inr (fst s @ [x], rest))
      | Unmatched \<Rightarrow> Some (Inl 1)
      | Undefined \<Rightarrow> None)"

definition input_array :: "nat \<Rightarrow> string \<Rightarrow> string \<times> (int + int list \<times> string) option" where
  "input_array n inp = (''Input array (len '' @ show_nat n @ ''): '', for_ret input_elem 0 n ([], inp))"

definition product_main :: "string \<Rightarrow> (int \<times> string) option" where
  "product_main inp =
     (let out = ''Input size of array: '';
          bad = Some (2, out @ ''Invalid input size of array'') in
      case scan_zu inp of
        Undefined \<Rightarrow> None
      | Unmatched \<Rightarrow> bad
      | Matched n inp \<Rightarrow>
          if n = 0 \<or> 10 < n then bad
          else
            (let (asked, r) = input_array n inp; out = out @ asked in
             case r of
               None \<Rightarrow> None
             | Some (Inl _) \<Rightarrow> Some (3, out @ ''Invalid input array'')
             | Some (Inr (arr, _)) \<Rightarrow>
                 (case product_odd n arr 1 of
                    None \<Rightarrow> None
                  | Some (count, p) \<Rightarrow>
                      if count = 0 then Some (4, out @ ''No odd elements in the array'')
                      else Some (0, out @ ''Product of odd elements = '' @ show_int p))))"

section \<open>The matrix programs\<close>

text \<open>\<open>print\<close>, which both programs have.\<close>

definition print_cell :: "matrix \<Rightarrow> nat \<Rightarrow> nat \<Rightarrow> string \<Rightarrow> string option" where
  "print_cell m i j out = map_option (\<lambda>x. out @ show_int x @ '' '') (load m i j)"

definition print_row :: "matrix \<Rightarrow> nat \<Rightarrow> nat \<Rightarrow> string \<Rightarrow> string option" where
  "print_row m c i out = map_option (\<lambda>t. t @ nl) (for_up (print_cell m i) 0 c out)"

definition print_matrix :: "nat \<Rightarrow> nat \<Rightarrow> matrix \<Rightarrow> string \<Rightarrow> string option" where
  "print_matrix r c m out = for_up (print_row m c) 0 r out"

text \<open>\<open>input\<close> of sem\_06/lab\_03/p\_1.\<close>

definition input_cell :: "nat \<Rightarrow> nat \<Rightarrow> matrix \<times> string \<Rightarrow> (int + matrix \<times> string) option" where
  "input_cell i j s =
     (case scan_d (snd s) of
        Matched x rest \<Rightarrow> map_option (\<lambda>m. Inr (m, rest)) (store i j x (fst s))
      | Unmatched \<Rightarrow> Some (Inl 1)
      | Undefined \<Rightarrow> None)"

definition input_matrix :: "nat \<Rightarrow> nat \<Rightarrow> matrix \<times> string \<Rightarrow> (int + matrix \<times> string) option" where
  "input_matrix r c s = for_ret (\<lambda>i. for_ret (input_cell i) 0 c) 0 r s"

text \<open>\<open>main\<close>: the matrix starts with whatever the stack holds. The program sleeps before it
  returns, which changes nothing here.\<close>

definition swap_main :: "matrix \<Rightarrow> string \<Rightarrow> (int \<times> string) option" where
  "swap_main m inp =
     (let bad_r = Some (2, ''Invalid input count of rows.'');
          bad_c = Some (3, ''Invalid input count of rows.'') in
      case scan_zu inp of
        Undefined \<Rightarrow> None
      | Unmatched \<Rightarrow> bad_r
      | Matched r inp \<Rightarrow>
          if r = 0 \<or> 10 < r then bad_r
          else
            (case scan_zu inp of
               Undefined \<Rightarrow> None
             | Unmatched \<Rightarrow> bad_c
             | Matched c inp \<Rightarrow>
                 if c = 0 \<or> 10 < c then bad_c
                 else if r \<noteq> c then
                   Some (5, ''Invalid input size of matrix. Count of rows and count of columns must be equal'')
                 else
                   (case input_matrix r c (m, inp) of
                      None \<Rightarrow> None
                    | Some (Inl _) \<Rightarrow> Some (4, ''Invalid input matrix.'')
                    | Some (Inr (m, _)) \<Rightarrow>
                        do {
                          m \<leftarrow> swap_upper_lower_triangle r c m;
                          out \<leftarrow> print_matrix r c m '''';
                          Some (0, out)
                        })))"

definition spiral_main :: "matrix \<Rightarrow> string \<Rightarrow> (int \<times> string) option" where
  "spiral_main m inp =
     (let out = ''Input count of rows: '';
          bad_r = Some (2, out @ ''Invalid input count of rows.'') in
      case scan_zu inp of
        Undefined \<Rightarrow> None
      | Unmatched \<Rightarrow> bad_r
      | Matched r inp \<Rightarrow>
          if r = 0 \<or> 10 < r then bad_r
          else
            (let out = out @ ''Input count of columns: '';
                 bad_c = Some (3, out @ ''Invalid input count of colums.'') in
             case scan_zu inp of
               Undefined \<Rightarrow> None
             | Unmatched \<Rightarrow> bad_c
             | Matched c inp \<Rightarrow>
                 if c = 0 \<or> 10 < c then bad_c
                 else if r \<noteq> c then
                   Some (5, out @ ''Invalid input size of matrix. Count of rows and count of columns must be equal'')
                 else
                   do {
                     m \<leftarrow> fill r c m;
                     out \<leftarrow> print_matrix r c m out;
                     Some (0, out)
                   }))"

section \<open>The texts of a matrix\<close>

definition row_text :: "nat \<Rightarrow> matrix \<Rightarrow> nat \<Rightarrow> string" where
  "row_text c m i = concat (map (\<lambda>j. show_int (the (m (i, j))) @ '' '') [0..<c])"

definition matrix_text :: "nat \<Rightarrow> matrix \<Rightarrow> string" where
  "matrix_text r m = concat (map (\<lambda>i. row_text r m i @ nl) [0..<r])"

text \<open>The standard input that the swapping program expects.\<close>

definition matrix_input :: "nat \<Rightarrow> matrix \<Rightarrow> string" where
  "matrix_input r m = show_nat r @ nl @ show_nat r @ nl @ matrix_text r m"

lemma print_matrix_text:
  assumes "r \<le> C_MAX" "initialised r m"
  shows "print_matrix r r m out = Some (out @ matrix_text r m)"
proof -
  have row: "print_row m r i o' = Some (o' @ row_text r m i @ nl)" if i: "i < r" for i o'
  proof -
    have "\<exists>t. for_up (print_cell m i) 0 r o' = Some t \<and> t = o' @ row_text r m i"
      unfolding row_text_def
    proof (rule for_up_inv [where P = "\<lambda>j t. t = o' @ concat (map (\<lambda>j. show_int (the (m (i, j))) @ '' '') [0..<j])"])
      fix j s assume "0 \<le> j" "j < r"
        and s: "s = o' @ concat (map (\<lambda>j. show_int (the (m (i, j))) @ '' '') [0..<j])"
      then obtain x where "m (i, j) = Some x" using assms(2) i by (auto simp: initialised_def)
      with s \<open>j < r\<close> i assms(1)
      show "\<exists>t. print_cell m i j s = Some t \<and> t = o' @ concat (map (\<lambda>j. show_int (the (m (i, j))) @ '' '') [0..<Suc j])"
        by (simp add: print_cell_def load_def)
    qed simp_all
    then show ?thesis by (simp add: print_row_def)
  qed
  have "\<exists>t. for_up (print_row m r) 0 r out = Some t \<and> t = out @ matrix_text r m"
    unfolding matrix_text_def
    by (rule for_up_inv [where P = "\<lambda>i t. t = out @ concat (map (\<lambda>i. row_text r m i @ nl) [0..<i])"])
      (auto simp: row)
  then show ?thesis by (simp add: print_matrix_def)
qed

lemma matrix_text_cong:
  "(\<And>x y. x < r \<Longrightarrow> y < r \<Longrightarrow> m (x, y) = m' (x, y)) \<Longrightarrow> matrix_text r m = matrix_text r m'"
  unfolding matrix_text_def row_text_def
  by (intro arg_cong [where f = concat] map_cong refl arg_cong [where f = "\<lambda>t. t @ nl"]) simp_all

text \<open>Every cell of the square holds a value of the type \<open>int\<close>.\<close>

definition int_matrix :: "nat \<Rightarrow> matrix \<Rightarrow> bool" where
  "int_matrix r m \<longleftrightarrow> (\<forall>x<r. \<forall>y<r. case m (x, y) of None \<Rightarrow> False | Some v \<Rightarrow> in_int v)"

lemma int_matrixE:
  assumes "int_matrix r m" "x < r" "y < r"
  obtains v where "m (x, y) = Some v" "in_int v"
  using assms by (fastforce simp: int_matrix_def split: option.splits)

lemma int_matrix_initialised: "int_matrix r m \<Longrightarrow> initialised r m"
  by (auto simp: initialised_def elim: int_matrixE)

text \<open>The matrix when the loops of \<open>input\<close> stand at \<open>(i, j)\<close>: the cells before are read.\<close>

definition read_upto :: "nat \<Rightarrow> nat \<Rightarrow> nat \<Rightarrow> matrix \<Rightarrow> matrix \<Rightarrow> matrix" where
  "read_upto r i j m m0 =
     (\<lambda>(x, y). if y < r \<and> (x < i \<or> x = i \<and> y < j) then m (x, y) else m0 (x, y))"

lemma read_upto_row: "read_upto r i r m m0 = read_upto r (Suc i) 0 m m0"
  by (rule ext) (auto simp: read_upto_def less_Suc_eq)

lemma read_upto_Suc: "j < r \<Longrightarrow> m (i, j) = Some v \<Longrightarrow>
    (read_upto r i j m m0)((i, j) \<mapsto> v) = read_upto r i (Suc j) m m0"
  by (rule matrix_eqI) (auto simp: read_upto_def less_Suc_eq)

lemma not_digit_blank [simp]: "\<not> is_digit CHR '' ''" "\<not> is_digit CHR 0x0A"
  by (simp_all add: is_digit_def)

lemma blanks [simp]: "is_space CHR '' ''" "list_all is_space nl"
  by (simp_all add: is_space_def nl_def)

lemma ends_number_nl [simp]: "ends_number (nl @ s)"
  by (simp add: nl_def)

text \<open>One row of \<open>input\<close>, and all rows.\<close>

lemma input_row_text:
  assumes m: "int_matrix r m" "i < r" "r \<le> C_MAX" and ws: "list_all is_space ws"
  shows "\<exists>ws'. list_all is_space ws' \<and>
    for_ret (input_cell i) 0 r (read_upto r i 0 m m0, ws @ row_text r m i @ rest) =
      Some (Inr (read_upto r (Suc i) 0 m m0, ws' @ rest))"
proof -
  let ?cell = "\<lambda>j. show_int (the (m (i, j))) @ '' ''"
  let ?P = "\<lambda>j s. \<exists>ws. list_all is_space ws \<and>
    s = (read_upto r i j m m0, ws @ concat (map ?cell [j..<r]) @ rest)"
  have "\<exists>t. for_ret (input_cell i) 0 r (read_upto r i 0 m m0, ws @ row_text r m i @ rest) = Some (Inr t) \<and> ?P r t"
  proof (rule for_ret_inv [where P = ?P])
    fix j s assume j: "j < r" and "?P j s"
    then obtain ws where ws: "list_all is_space ws"
      "s = (read_upto r i j m m0, ws @ concat (map ?cell [j..<r]) @ rest)" by blast
    obtain v where v: "m (i, j) = Some v" "in_int v" using m(1,2) j by (rule int_matrixE)
    let ?rest = "'' '' @ concat (map ?cell [Suc j..<r]) @ rest"
    have "concat (map ?cell [j..<r]) @ rest = show_int v @ ?rest"
      using j v(1) by (simp add: upt_conv_Cons)
    then have "input_cell i j s = Some (Inr (read_upto r i (Suc j) m m0, ?rest))"
      using scan_d_show [OF ws(1) _ v(2), of ?rest] j m(2,3) read_upto_Suc [of j r m i v m0, OF j v(1)]
      by (simp add: ws(2) input_cell_def store_def)
    then show "\<exists>t. input_cell i j s = Some (Inr t) \<and> ?P (Suc j) t"
      by (auto intro!: exI [of _ "'' ''"])
  qed (use ws in \<open>auto simp: row_text_def\<close>)
  then show ?thesis by (auto simp: read_upto_row)
qed

lemma input_matrix_text:
  assumes "int_matrix r m" "r \<le> C_MAX" "list_all is_space ws"
  shows "\<exists>rest. input_matrix r r (m0, ws @ matrix_text r m) = Some (Inr (read_upto r r 0 m m0, rest))"
proof -
  let ?row = "\<lambda>i. row_text r m i @ nl"
  let ?P = "\<lambda>i s. \<exists>ws. list_all is_space ws \<and> s = (read_upto r i 0 m m0, ws @ concat (map ?row [i..<r]))"
  have "\<exists>t. for_ret (\<lambda>i. for_ret (input_cell i) 0 r) 0 r (m0, ws @ matrix_text r m) = Some (Inr t) \<and> ?P r t"
  proof (rule for_ret_inv [where P = ?P])
    have "read_upto r 0 0 m m0 = m0" by (rule ext) (auto simp: read_upto_def)
    then show "?P 0 (m0, ws @ matrix_text r m)" using assms(3) by (auto simp: matrix_text_def)
  next
    fix i s assume i: "i < r" and "?P i s"
    then obtain ws where ws: "list_all is_space ws"
      "s = (read_upto r i 0 m m0, ws @ concat (map ?row [i..<r]))" by blast
    have "concat (map ?row [i..<r]) = row_text r m i @ nl @ concat (map ?row [Suc i..<r])"
      using i by (simp add: upt_conv_Cons)
    with input_row_text [OF assms(1) i assms(2) ws(1), of m0 "nl @ concat (map ?row [Suc i..<r])"] ws(2)
    obtain ws' where "list_all is_space ws'" "for_ret (input_cell i) 0 r s =
        Some (Inr (read_upto r (Suc i) 0 m m0, (ws' @ nl) @ concat (map ?row [Suc i..<r])))"
      by auto
    then show "\<exists>t. for_ret (input_cell i) 0 r s = Some (Inr t) \<and> ?P (Suc i) t"
      by (auto intro!: exI [of _ "ws' @ nl"])
  qed simp
  then show ?thesis by (auto simp: input_matrix_def)
qed

section \<open>What the programs print\<close>

lemma swap_main_text:
  assumes "1 \<le> r" "r \<le> 10" "int_matrix r m"
  shows "swap_main m0 (matrix_input r m) = Some (0, matrix_text r (mirrored r m))"
proof -
  let ?k = "read_upto r r 0 m m0"
  have r: "r \<le> C_MAX" "r < 2 ^ 64" using assms(2) by (simp_all add: C_MAX_def)
  have k: "?k (x, y) = m (x, y)" if "x < r" "y < r" for x y
    using that by (simp add: read_upto_def)
  have init: "initialised r ?k" "initialised r (mirrored r ?k)"
    using k int_matrix_initialised [OF assms(3)]
    by (auto simp: initialised_def mirrored_def in_triangles_def)
  have first: "scan_zu (matrix_input r m) = Matched r (nl @ show_nat r @ nl @ matrix_text r m)"
    using scan_zu_show [of "[]", OF _ _ r(2)] by (simp add: matrix_input_def)
  have second: "scan_zu (nl @ show_nat r @ nl @ matrix_text r m) = Matched r (nl @ matrix_text r m)"
    using scan_zu_show [of nl, OF _ _ r(2)] by simp
  obtain rest where input: "input_matrix r r (m0, nl @ matrix_text r m) = Some (Inr (?k, rest))"
    using input_matrix_text [OF assms(3) r(1), of nl m0] by auto
  have "matrix_text r (mirrored r ?k) = matrix_text r (mirrored r m)"
    by (rule matrix_text_cong) (auto simp: mirrored_def in_triangles_def k)
  with first second input assms(1,2) swap_triangles_run [OF r(1) init(1)] print_matrix_text [OF r(1) init(2)]
  show ?thesis by (simp add: swap_main_def)
qed

text \<open>C29: The swapping program is its own inverse from text to text: for a square of 1 to 10 rows of
  \<open>int\<close> values, given as the sizes and the rows on standard input, it prints exactly the rows of
  the matrix with the two triangles mirrored and returns 0; given those rows it prints the rows it
  was first given.\<close>

theorem swap_program_roundtrip:
  assumes "1 \<le> r" "r \<le> 10" "int_matrix r m"
  shows "swap_main m0 (matrix_input r m) = Some (0, matrix_text r (mirrored r m)) \<and>
    swap_main m1 (show_nat r @ nl @ show_nat r @ nl @ matrix_text r (mirrored r m)) =
      Some (0, matrix_text r m)"
proof -
  have "int_matrix r (mirrored r m)"
    using assms(3) by (auto simp: int_matrix_def mirrored_def in_triangles_def)
  from swap_main_text [OF assms(1,2) this, of m1] show ?thesis
    using swap_main_text [OF assms, of m0] mirrored_mirrored [of r m] by (simp add: matrix_input_def)
qed

theorem swap_program_roundtrip_witness:
  "swap_main (\<lambda>_. None) (''2'' @ nl @ ''2'' @ nl @ ''1 2 '' @ nl @ ''3 -4 '' @ nl) =
     Some (0, ''3 -4 '' @ nl @ ''1 2 '' @ nl)"
proof -
  let ?m = "(\<lambda>_. None)((0, 0) \<mapsto> 1, (0, 1) \<mapsto> 2, (1, 0) \<mapsto> 3, (1, 1) \<mapsto> - 4)"
  have ok: "int_matrix 2 ?m"
    by (auto simp: int_matrix_def in_int_def less_2_cases_iff)
  have "matrix_input 2 ?m = ''2'' @ nl @ ''2'' @ nl @ ''1 2 '' @ nl @ ''3 -4 '' @ nl" by code_simp
  moreover have "matrix_text 2 (mirrored 2 ?m) = ''3 -4 '' @ nl @ ''1 2 '' @ nl" by code_simp
  ultimately show ?thesis
    using swap_program_roundtrip [OF _ _ ok, of "\<lambda>_. None"] by simp
qed

text \<open>C28: The spiral program is right from text to text: for every size from 1 to 10 it returns 0 and
  prints the rows of a matrix in which the numbers 1, 2, ..., \<open>n * n\<close> lie along the clockwise spiral:
  a path that visits every cell of the square once, each cell a neighbour of the one before.\<close>

theorem spiral_program_exact:
  assumes "1 \<le> n" "n \<le> 10"
  shows "\<exists>m'. length (path n) = n * n \<and> distinct (path n) \<and> set (path n) = {..<n} \<times> {..<n} \<and>
    walk (path n) \<and> (\<forall>t<n * n. m' (path n ! t) = Some (int t + 1)) \<and>
    spiral_main m (show_nat n @ nl @ show_nat n @ nl) =
      Some (0, ''Input count of rows: Input count of columns: '' @ matrix_text n m')"
proof -
  obtain m' where m': "fill n n m = Some m'" "length (path n) = n * n" "distinct (path n)"
    "set (path n) = {..<n} \<times> {..<n}" "walk (path n)" "\<forall>t<n * n. m' (path n ! t) = Some (int t + 1)"
    using fill_draws_spiral [OF assms, of m] by blast
  have n: "n \<le> C_MAX" "n < 2 ^ 64" using assms(2) by (simp_all add: C_MAX_def)
  have "initialised n m'"
    unfolding initialised_def
  proof (intro allI impI)
    fix x y assume "x < n" "y < n"
    then have "(x, y) \<in> set (path n)" using m'(4) by simp
    then show "m' (x, y) \<noteq> None" using m'(2,6) by (metis in_set_conv_nth option.distinct(1))
  qed
  from print_matrix_text [OF n(1) this]
  have print: "print_matrix n n m' out = Some (out @ matrix_text n m')" for out .
  have scans: "scan_zu (show_nat n @ nl @ show_nat n @ nl) = Matched n (nl @ show_nat n @ nl)"
      "scan_zu (nl @ show_nat n @ nl) = Matched n nl"
    using scan_zu_show [of "[]", OF _ _ n(2)] scan_zu_show [of nl nl, OF _ _ n(2)] ends_number_nl [of "[]"]
    by simp_all
  have "spiral_main m (show_nat n @ nl @ show_nat n @ nl) =
      Some (0, ''Input count of rows: Input count of columns: '' @ matrix_text n m')"
    using scans m'(1) print assms by (simp add: spiral_main_def)
  with m' show ?thesis by blast
qed

theorem spiral_program_exact_witness:
  "\<exists>m'. m' (1, 1) = Some 9 \<and> m' (2, 0) = Some 7 \<and>
    spiral_main (\<lambda>_. None) (''3'' @ nl @ ''3'' @ nl) =
      Some (0, ''Input count of rows: Input count of columns: '' @ matrix_text 3 m')"
proof -
  have cells: "path 3 ! 8 = (1, 1)" "path 3 ! 6 = (2, 0)" by code_simp+
  have three: "show_nat 3 = ''3''" by code_simp
  obtain m' where m': "\<forall>t<3 * 3. m' (path 3 ! t) = Some (int t + 1)"
    "spiral_main (\<lambda>_. None) (show_nat 3 @ nl @ show_nat 3 @ nl) =
      Some (0, ''Input count of rows: Input count of columns: '' @ matrix_text 3 m')"
    using spiral_program_exact [of 3 "\<lambda>_. None"] by auto
  have "m' (path 3 ! 8) = Some 9" "m' (path 3 ! 6) = Some 7" using m'(1) by simp_all
  with m'(2) cells three show ?thesis by (intro exI [of _ m']) simp
qed

text \<open>The product program: one line of numbers.\<close>

lemma input_array_text:
  assumes "list_all in_int xs" "list_all is_space ws"
  shows "\<exists>rest. snd (input_array (length xs) (ws @ concat (map (\<lambda>x. show_int x @ '' '') xs))) =
    Some (Inr (xs, rest))"
proof -
  let ?text = "\<lambda>xs. concat (map (\<lambda>x. show_int x @ '' '') xs)"
  let ?P = "\<lambda>i s. \<exists>ws. list_all is_space ws \<and> s = (take i xs, ws @ ?text (drop i xs))"
  have "\<exists>t. for_ret input_elem 0 (length xs) ([], ws @ ?text xs) = Some (Inr t) \<and> ?P (length xs) t"
  proof (rule for_ret_inv [where P = ?P])
    fix i s assume i: "i < length xs" and "?P i s"
    then obtain ws where ws: "list_all is_space ws" "s = (take i xs, ws @ ?text (drop i xs))" by blast
    have "?text (drop i xs) = show_int (xs ! i) @ '' '' @ ?text (drop (Suc i) xs)"
      using i by (simp add: Cons_nth_drop_Suc [symmetric])
    then have "input_elem i s = Some (Inr (take (Suc i) xs, '' '' @ ?text (drop (Suc i) xs)))"
      using scan_d_show [OF ws(1), of "'' '' @ ?text (drop (Suc i) xs)" "xs ! i"] i assms(1)
      by (simp add: ws(2) input_elem_def take_Suc_conv_app_nth list_all_length)
    then show "\<exists>t. input_elem i s = Some (Inr t) \<and> ?P (Suc i) t"
      by (auto intro!: exI [of _ "'' ''"])
  qed (use assms(2) in auto)
  then show ?thesis by (auto simp: input_array_def)
qed

text \<open>The product program is right from text to text: for 1 to 10 numbers whose odd elements
  have a product below \<open>2^31\<close> in magnitude it prints that product and returns 0, or reports that no
  element is odd and returns 4.\<close>

theorem product_program_exact:
  assumes "1 \<le> length xs" "length xs \<le> 10" "list_all in_int xs" "\<bar>prod_list (odds xs)\<bar> < 2 ^ 31"
  shows "product_main (show_nat (length xs) @ nl @ concat (map (\<lambda>x. show_int x @ '' '') xs)) =
    (let out = ''Input size of array: Input array (len '' @ show_nat (length xs) @ ''): '' in
     if odds xs = [] then Some (4, out @ ''No odd elements in the array'')
     else Some (0, out @ ''Product of odd elements = '' @ show_int (prod_list (odds xs))))"
proof -
  let ?t = "concat (map (\<lambda>x. show_int x @ '' '') xs)"
  have "length xs < 2 ^ 64" using assms(2) by simp
  then have n: "scan_zu (show_nat (length xs) @ nl @ ?t) = Matched (length xs) (nl @ ?t)"
    using scan_zu_show [of "[]"] by simp
  obtain rest where "snd (input_array (length xs) (nl @ ?t)) = Some (Inr (xs, rest))"
    using input_array_text [OF assms(3), of nl] by auto
  moreover have "fst (input_array k inp) = ''Input array (len '' @ show_nat k @ ''): ''" for k inp
    by (simp add: input_array_def)
  ultimately have "input_array (length xs) (nl @ ?t) =
      (''Input array (len '' @ show_nat (length xs) @ ''): '', Some (Inr (xs, rest)))"
    by (intro prod_eqI) simp_all
  with n assms(1,2) product_odd_exact [of "length xs" xs] assms(4) show ?thesis
    by (auto simp: product_main_def Let_def)
qed

theorem product_program_exact_witness:
  "product_main (''3'' @ nl @ ''3 4 -5 '') =
     Some (0, ''Input size of array: Input array (len 3): Product of odd elements = -15'')"
proof -
  have "show_nat (Suc (Suc (Suc 0))) = ''3''" "show_int 3 = ''3''" "show_int 4 = ''4''"
    "show_int (- 5) = ''-5''" "show_int (- 15) = ''-15''" by code_simp+
  then show ?thesis
    using product_program_exact [of "[3, 4, - 5]"] by (simp add: in_int_def odds_def)
qed

section \<open>Any input\<close>

lemma for_ret_safe:
  assumes "a \<le> b" "P a s"
    and "\<And>i s. a \<le> i \<Longrightarrow> i < b \<Longrightarrow> P i s \<Longrightarrow>
      case body i s of None \<Rightarrow> False | Some (Inl r) \<Rightarrow> True | Some (Inr t) \<Rightarrow> P (Suc i) t"
  shows "case for_ret body a b s of None \<Rightarrow> False | Some (Inl r) \<Rightarrow> True | Some (Inr t) \<Rightarrow> P b t"
  using assms
proof (induction "b - a" arbitrary: a s)
  case 0
  then show ?case by (simp add: for_ret.simps [of body a a s])
next
  case (Suc d)
  then have "a < b" by simp
  show ?case
  proof (cases "body a s")
    case None
    with Suc.prems(2,3) \<open>a < b\<close> show ?thesis by fastforce
  next
    case (Some u)
    show ?thesis
    proof (cases u)
      case (Inl r)
      with Some \<open>a < b\<close> show ?thesis by (simp add: for_ret.simps [of body a b s])
    next
      case (Inr t)
      with Suc.prems(3) [of a s] Suc.prems(2) Some \<open>a < b\<close> have "P (Suc a) t" by simp
      then have "case for_ret body (Suc a) b t of None \<Rightarrow> False | Some (Inl r) \<Rightarrow> True | Some (Inr t) \<Rightarrow> P b t"
        using Suc.hyps(2) Suc.prems(1,3) \<open>a < b\<close> by (intro Suc.hyps(1)) auto
      with Some Inr \<open>a < b\<close> show ?thesis by (simp add: for_ret.simps [of body a b s])
    qed
  qed
qed

text \<open>No number that begins anywhere in the input is out of the range of its type.\<close>

definition in_range :: "string \<Rightarrow> bool" where
  "in_range inp \<longleftrightarrow> (\<forall>k\<le>length inp. scan_zu (drop k inp) \<noteq> Undefined \<and> scan_d (drop k inp) \<noteq> Undefined)"

lemma scan_number_rest: "scan_number s = Some (b, n, rest) \<Longrightarrow> \<exists>k. rest = drop k s"
proof -
  have drop_while: "\<exists>k. dropWhile P t = drop k t" for P and t :: string
    by (metis dropWhile_eq_drop)
  have sign: "\<exists>k. snd (scan_sign t) = drop k t" for t
    by (cases t) (auto simp: scan_sign_def intro: exI [of _ 0] exI [of _ 1])
  assume "scan_number s = Some (b, n, rest)"
  then have "rest = dropWhile is_digit (snd (scan_sign (dropWhile is_space s)))"
    by (auto simp: scan_number_def Let_def split: prod.splits if_splits)
  then show ?thesis
    using drop_while sign by (metis drop_drop)
qed

lemma in_range_drop: "in_range s \<Longrightarrow> in_range (drop k s)"
  unfolding in_range_def
  by (metis drop_drop drop_all length_drop nat_le_linear)

lemma in_range_scanned:
  assumes "in_range s"
  shows "scan_zu s \<noteq> Undefined" "scan_d s \<noteq> Undefined"
    "scan_zu s = Matched n rest \<Longrightarrow> in_range rest" "scan_d s = Matched x rest' \<Longrightarrow> in_range rest'"
proof -
  show "scan_zu s \<noteq> Undefined" "scan_d s \<noteq> Undefined"
    using assms by (auto simp: in_range_def dest: spec [of _ 0])
  have scanned: "in_range rest" if "scan_number s = Some (b, k, rest)" for b k rest
    using scan_number_rest [OF that] in_range_drop [OF assms] by auto
  show "scan_zu s = Matched n rest \<Longrightarrow> in_range rest" "scan_d s = Matched x rest' \<Longrightarrow> in_range rest'"
    using scanned by (auto simp: scan_zu_def scan_d_def Let_def split: option.splits if_splits)
qed

text \<open>\<open>input\<close> on any text: it returns a failure, or every cell of the square is set.\<close>

lemma input_matrix_safe:
  assumes "r \<le> C_MAX" "in_range inp"
  shows "case input_matrix r r (m, inp) of
      None \<Rightarrow> False | Some (Inl k) \<Rightarrow> True | Some (Inr t) \<Rightarrow> initialised r (fst t)"
proof -
  define P where "P i j s \<longleftrightarrow> in_range (snd s) \<and> (\<forall>x<r. \<forall>y<r. x < i \<or> x = i \<and> y < j \<longrightarrow> fst s (x, y) \<noteq> None)"
    for i j :: nat and s :: "matrix \<times> string"
  have cell: "case input_cell i j s of None \<Rightarrow> False | Some (Inl k) \<Rightarrow> True | Some (Inr t) \<Rightarrow> P i (Suc j) t"
    if "i < r" "j < r" "P i j s" for i j s
  proof -
    from that(3) have "in_range (snd s)" by (simp add: P_def)
    from in_range_scanned [OF this] that assms(1) show ?thesis
      by (auto simp: input_cell_def store_def P_def less_Suc_eq split: scanned.split)
  qed
  have row: "case for_ret (input_cell i) 0 r s of
      None \<Rightarrow> False | Some (Inl k) \<Rightarrow> True | Some (Inr t) \<Rightarrow> P (Suc i) 0 t" if "i < r" "P i 0 s" for i s
  proof -
    have "case for_ret (input_cell i) 0 r s of
        None \<Rightarrow> False | Some (Inl k) \<Rightarrow> True | Some (Inr t) \<Rightarrow> P i r t"
      by (rule for_ret_safe [where P = "P i"]) (use that cell in auto)
    moreover have "P i r t \<Longrightarrow> P (Suc i) 0 t" for t by (auto simp: P_def less_Suc_eq)
    ultimately show ?thesis by (auto split: option.splits sum.splits)
  qed
  have "case for_ret (\<lambda>i. for_ret (input_cell i) 0 r) 0 r (m, inp) of
      None \<Rightarrow> False | Some (Inl k) \<Rightarrow> True | Some (Inr t) \<Rightarrow> P r 0 t"
    by (rule for_ret_safe [where P = "\<lambda>i. P i 0"]) (use row assms(2) in \<open>auto simp: P_def\<close>)
  then show ?thesis
    by (auto simp: input_matrix_def P_def initialised_def split: option.splits sum.splits)
qed

text \<open>The swapping program is safe on every input: unless a number of the input is out of the
  range of its type it returns one of its codes 0, 2, 3, 4 and 5, without leaving the array or
  reading an unset cell, and whatever the stack held before.\<close>

theorem swap_program_safe:
  assumes "in_range inp"
  shows "case swap_main m inp of None \<Rightarrow> False | Some (code, out) \<Rightarrow> code \<in> {0, 2, 3, 4, 5}"
proof (cases "scan_zu inp")
  case (Matched r s)
  note s = in_range_scanned [OF in_range_scanned(3) [OF assms Matched]]
  show ?thesis
  proof (cases "scan_zu s")
    case second: (Matched c t)
    show ?thesis
    proof (cases "r = 0 \<or> 10 < r \<or> c = 0 \<or> 10 < c \<or> r \<noteq> c")
      case True
      then show ?thesis by (auto simp: swap_main_def Matched second Let_def)
    next
      case False
      then have r: "r \<le> C_MAX" "c = r" by (simp_all add: C_MAX_def)
      have init: "initialised r k \<Longrightarrow> initialised r (mirrored r k)" for k
        by (auto simp: initialised_def mirrored_def)
      from input_matrix_safe [OF r(1) s(3) [OF second], of m] show ?thesis
        using False swap_triangles_run [OF r(1)] print_matrix_text [OF r(1) init]
        by (auto simp: swap_main_def Matched second r(2) split: option.splits sum.splits)
    qed
  qed (use s(1) in \<open>auto simp: swap_main_def Matched Let_def\<close>)
qed (use in_range_scanned(1) [OF assms] in \<open>auto simp: swap_main_def\<close>)

theorem swap_program_safe_witness:
  "case swap_main (\<lambda>_. None) ''2 2 1 x'' of None \<Rightarrow> False | Some (code, out) \<Rightarrow> code \<in> {0, 2, 3, 4, 5}"
proof -
  have at: "scan_zu (drop k ''2 2 1 x'') \<noteq> Undefined \<and> scan_d (drop k ''2 2 1 x'') \<noteq> Undefined" if "k \<le> 7" for k
  proof -
    have "k = 0 \<or> k = 1 \<or> k = 2 \<or> k = 3 \<or> k = 4 \<or> k = 5 \<or> k = 6 \<or> k = 7" using that by arith
    then show ?thesis
      by (elim disjE) (simp_all add: scan_zu_def scan_d_def Let_def scan_number_def is_space_def
          scan_sign_def is_digit_def read_nat_def digit_value_def in_int_def)
  qed
  then have "in_range ''2 2 1 x''" by (simp add: in_range_def)
  from swap_program_safe [OF this] show ?thesis .
qed

text \<open>\<open>%zu\<close> takes a minus sign: a large negative number passes as the size 1.\<close>

lemma negative_size_accepted: "scan_zu (''-18446744073709551615 1'') = Matched 1 '' 1''"
  by (simp add: scan_zu_def scan_number_def is_space_def scan_sign_def is_digit_def read_nat_def
      digit_value_def)

end
