(* ===== verification/Descriptors.thy ===== *)
theory Descriptors
  imports Prelude
begin

text \<open>
  The descriptor table of a process, as POSIX documents it: a descriptor is an index of the table,
  and a new descriptor is the lowest one that is free. The contract \<open>descriptor_table\<close> is what the
  programs on files and the daemons rely on.
\<close>

section \<open>The interface\<close>

locale descriptor_table =
  fixes slot :: "'t \<Rightarrow> int \<Rightarrow> 'd option"
    and install :: "'d \<Rightarrow> 't \<Rightarrow> int \<times> 't"
    and release :: "int \<Rightarrow> 't \<Rightarrow> 't"
  assumes no_negative: "fd < 0 \<Longrightarrow> slot t fd = None"
    and install_nonneg: "0 \<le> fst (install x t)"
    and install_free: "slot t (fst (install x t)) = None"
    and install_lowest: "0 \<le> j \<Longrightarrow> j < fst (install x t) \<Longrightarrow> slot t j \<noteq> None"
    and install_slot: "slot (snd (install x t)) j = (if j = fst (install x t) then Some x else slot t j)"
    and release_slot: "slot (release fd t) j = (if j = fd then None else slot t j)"
begin

lemma install_eq:
  assumes "0 \<le> k" "slot t k = None" "\<And>j. 0 \<le> j \<Longrightarrow> j < k \<Longrightarrow> slot t j \<noteq> None"
  shows "fst (install x t) = k"
proof (rule ccontr)
  assume "fst (install x t) \<noteq> k"
  then consider "fst (install x t) < k" | "k < fst (install x t)" by linarith
  then show False
  proof cases
    case 1
    with assms(3) [OF install_nonneg] install_free show False by blast
  next
    case 2
    with assms(1,2) install_lowest show False by blast
  qed
qed

lemma install_again: "fst (install y (snd (install x t))) \<noteq> fst (install x t)"
  using install_free [of "snd (install x t)" y] by (auto simp: install_slot)

lemma release_all: "slot (fold release fds t) j = (if j \<in> set fds then None else slot t j)"
  by (induction fds arbitrary: t) (auto simp: release_slot)

text \<open>In an empty table three installations give the descriptors 0, 1 and 2.\<close>

lemma three_installs:
  fixes x y z :: 'd
  assumes "\<And>j. slot t j = None"
  defines "t1 \<equiv> snd (install x t)"
  defines "t2 \<equiv> snd (install y t1)"
  shows "fst (install x t) = 0" "fst (install y t1) = 1" "fst (install z t2) = 2"
    "slot (snd (install z t2)) j =
      (if j = 0 then Some x else if j = 1 then Some y else if j = 2 then Some z else None)"
proof -
  show 0: "fst (install x t) = 0" by (rule install_eq) (use assms(1) in auto)
  have s1: "slot t1 j = (if j = 0 then Some x else None)" for j
    by (simp add: t1_def install_slot 0 assms(1))
  show 1: "fst (install y t1) = 1" by (rule install_eq) (auto simp: s1)
  have s2: "slot t2 j = (if j = 0 then Some x else if j = 1 then Some y else None)" for j
    by (simp add: t2_def install_slot 1 s1)
  show 2: "fst (install z t2) = 2"
  proof (rule install_eq)
    fix j :: int assume "0 \<le> j" "j < 2"
    then have "j = 0 \<or> j = 1" by arith
    then show "slot t2 j \<noteq> None" by (auto simp: s2)
  qed (simp_all add: s2)
  show "slot (snd (install z t2)) j =
      (if j = 0 then Some x else if j = 1 then Some y else if j = 2 then Some z else None)"
    by (auto simp: install_slot 2 s2)
qed

end

section \<open>The table of a process\<close>

type_synonym 'd fd_table = "'d option list"

definition fd_slot :: "'d fd_table \<Rightarrow> int \<Rightarrow> 'd option" where
  "fd_slot t fd = (if 0 \<le> fd \<and> nat fd < length t then t ! nat fd else None)"

fun lowest_free :: "'d fd_table \<Rightarrow> nat" where
  "lowest_free [] = 0"
| "lowest_free (None # t) = 0"
| "lowest_free (Some x # t) = Suc (lowest_free t)"

definition fd_install :: "'d \<Rightarrow> 'd fd_table \<Rightarrow> int \<times> 'd fd_table" where
  "fd_install x t =
     (let i = lowest_free t in (int i, if i < length t then t[i := Some x] else t @ [Some x]))"

definition fd_release :: "int \<Rightarrow> 'd fd_table \<Rightarrow> 'd fd_table" where
  "fd_release fd t = (if 0 \<le> fd \<and> nat fd < length t then t[nat fd := None] else t)"

definition fd_update :: "int \<Rightarrow> 'd \<Rightarrow> 'd fd_table \<Rightarrow> 'd fd_table" where
  "fd_update fd x t = (if 0 \<le> fd \<and> nat fd < length t then t[nat fd := Some x] else t)"

lemma lowest_free_le: "lowest_free t \<le> length t"
  by (induction t rule: lowest_free.induct) auto

lemma lowest_free_empty: "lowest_free t < length t \<Longrightarrow> t ! lowest_free t = None"
  by (induction t rule: lowest_free.induct) auto

lemma below_lowest_free: "i < lowest_free t \<Longrightarrow> t ! i \<noteq> None"
  by (induction t arbitrary: i rule: lowest_free.induct) (auto simp: less_Suc_eq_0_disj)

lemma fd_slot_install:
  "fd_slot (snd (fd_install x t)) j = (if j = fst (fd_install x t) then Some x else fd_slot t j)"
  using lowest_free_le [of t]
  by (auto simp: fd_slot_def fd_install_def Let_def nth_append nth_list_update)

interpretation fds: descriptor_table fd_slot fd_install fd_release
proof
  show "fd_slot t (fst (fd_install x t)) = None" for t :: "'d fd_table" and x
    using lowest_free_empty [of t] by (simp add: fd_slot_def fd_install_def Let_def)
  show "fd_slot t j \<noteq> None" if "0 \<le> j" "j < fst (fd_install x t)" for j x and t :: "'d fd_table"
    using that below_lowest_free [of "nat j" t] lowest_free_le [of t]
    by (simp add: fd_slot_def fd_install_def Let_def)
  show "fd_slot (snd (fd_install x t)) j =
      (if j = fst (fd_install x t) then Some x else fd_slot t j)" for j x and t :: "'d fd_table"
    by (rule fd_slot_install)
qed (auto simp: fd_slot_def fd_install_def fd_release_def Let_def)

lemma fd_slot_update:
  "fd_slot t fd \<noteq> None \<Longrightarrow> fd_slot (fd_update fd x t) j = (if j = fd then Some x else fd_slot t j)"
  by (auto simp: fd_slot_def fd_update_def split: if_splits)

lemma fd_slot_in_range: "fd_slot t fd = Some x \<Longrightarrow> 0 \<le> fd \<and> nat fd < length t \<and> t ! nat fd = Some x"
  by (simp add: fd_slot_def split: if_splits)

end
