(* ===== verification/Open_Files.thy ===== *)
theory Open_Files
  imports Descriptors
begin

text \<open>
  What the file programs of sem_06/lab_08 use of POSIX files and of the C streams: one file on disk
  (every program there works on one name), open file descriptions with an offset, the terminal, and
  buffered streams. Every \<open>open\<close> makes a new description and no program duplicates a descriptor, so
  a descriptor and its description are one entry of the table. The size of a stream's buffer is a
  parameter.
\<close>

section \<open>System calls\<close>

datatype open_file = Terminal | Regular nat

record io_state =
  io_fds :: "open_file fd_table"
  file_text :: "string option"
  screen :: string

text \<open>A process at its start: descriptors 0, 1 and 2 are the terminal.\<close>

definition io_start :: "string option \<Rightarrow> io_state" where
  "io_start f = \<lparr>io_fds = [Some Terminal, Some Terminal, Some Terminal], file_text = f, screen = []\<rparr>"

definition text_of :: "io_state \<Rightarrow> string" where
  "text_of s = (case file_text s of None \<Rightarrow> [] | Some c \<Rightarrow> c)"

definition new_description :: "io_state \<Rightarrow> int \<times> io_state" where
  "new_description s = (case fd_install (Regular 0) (io_fds s) of (fd, t) \<Rightarrow> (fd, s\<lparr>io_fds := t\<rparr>))"

text \<open>\<open>open\<close> without \<open>O_CREAT\<close>: -1 when there is no such file.\<close>

definition sys_open :: "io_state \<Rightarrow> int \<times> io_state" where
  "sys_open s = (if file_text s = None then (-1, s) else new_description s)"

text \<open>\<open>open\<close> with \<open>O_WRONLY | O_CREAT | O_TRUNC\<close>, which is what \<open>fopen\<close> with mode w does.\<close>

definition sys_create :: "io_state \<Rightarrow> int \<times> io_state" where
  "sys_create s = new_description (s\<lparr>file_text := Some []\<rparr>)"

text \<open>\<open>read\<close> at the offset of the description; no program here reads from the terminal.\<close>

definition sys_read :: "int \<Rightarrow> nat \<Rightarrow> io_state \<Rightarrow> int \<times> string \<times> io_state" where
  "sys_read fd n s =
     (case fd_slot (io_fds s) fd of
        Some (Regular off) \<Rightarrow>
          (let d = take n (drop off (text_of s)) in
           (int (length d), d, s\<lparr>io_fds := fd_update fd (Regular (off + length d)) (io_fds s)\<rparr>))
      | _ \<Rightarrow> (-1, [], s))"

text \<open>\<open>write\<close> puts the bytes over those at the offset; a gap behind the end is filled with zeros.\<close>

definition overwrite :: "nat \<Rightarrow> string \<Rightarrow> string \<Rightarrow> string" where
  "overwrite off d c =
     take off (c @ replicate (off - length c) (CHR 0x00)) @ d @ drop (off + length d) c"

definition sys_write :: "int \<Rightarrow> string \<Rightarrow> io_state \<Rightarrow> int \<times> io_state" where
  "sys_write fd d s =
     (case fd_slot (io_fds s) fd of
        Some Terminal \<Rightarrow> (int (length d), s\<lparr>screen := screen s @ d\<rparr>)
      | Some (Regular off) \<Rightarrow>
          (int (length d), s\<lparr>file_text := Some (overwrite off d (text_of s)),
             io_fds := fd_update fd (Regular (off + length d)) (io_fds s)\<rparr>)
      | None \<Rightarrow> (-1, s))"

definition sys_close :: "int \<Rightarrow> io_state \<Rightarrow> io_state" where
  "sys_close fd s = s\<lparr>io_fds := fd_release fd (io_fds s)\<rparr>"

definition put_screen :: "string \<Rightarrow> io_state \<Rightarrow> io_state" where
  "put_screen d s = s\<lparr>screen := screen s @ d\<rparr>"

section \<open>Streams\<close>

text \<open>
  \<open>st_buf\<close> holds the bytes read and not yet delivered, or the bytes printed and not yet written.
\<close>

record stream =
  st_fd :: int
  st_size :: nat
  st_buf :: string

text \<open>\<open>fdopen\<close> with \<open>setvbuf(_IOFBF)\<close>: \<open>None\<close> (NULL) for a bad descriptor.\<close>

definition fdopen :: "int \<Rightarrow> nat \<Rightarrow> io_state \<Rightarrow> stream option" where
  "fdopen fd b s =
     (if fd_slot (io_fds s) fd = None then None else Some \<lparr>st_fd = fd, st_size = b, st_buf = []\<rparr>)"

text \<open>\<open>fscanf(f, "%c", &c)\<close>: a byte of the buffer, which is refilled when it is empty.\<close>

definition fscanf_char :: "stream \<Rightarrow> io_state \<Rightarrow> char option \<times> stream \<times> io_state" where
  "fscanf_char f s =
     (case st_buf f of
        c # cs \<Rightarrow> (Some c, f\<lparr>st_buf := cs\<rparr>, s)
      | [] \<Rightarrow>
          (case sys_read (st_fd f) (st_size f) s of
             (rc, [], s') \<Rightarrow> (None, f, s')
           | (rc, c # cs, s') \<Rightarrow> (Some c, f\<lparr>st_buf := cs\<rparr>, s')))"

text \<open>\<open>fopen\<close> with mode w, \<open>fprintf(f, "%c", c)\<close> and \<open>fclose\<close>: a full buffer is written before the
  next byte is put in it, the rest when the stream is closed.\<close>

definition fopen_w :: "nat \<Rightarrow> io_state \<Rightarrow> stream \<times> io_state" where
  "fopen_w b s = (case sys_create s of (fd, s') \<Rightarrow> (\<lparr>st_fd = fd, st_size = b, st_buf = []\<rparr>, s'))"

definition fprintf_char :: "char \<Rightarrow> stream \<Rightarrow> io_state \<Rightarrow> stream \<times> io_state" where
  "fprintf_char c f s =
     (if length (st_buf f) < st_size f then (f\<lparr>st_buf := st_buf f @ [c]\<rparr>, s)
      else (f\<lparr>st_buf := [c]\<rparr>, snd (sys_write (st_fd f) (st_buf f) s)))"

definition fclose :: "stream \<Rightarrow> io_state \<Rightarrow> io_state" where
  "fclose f s = sys_close (st_fd f) (snd (sys_write (st_fd f) (st_buf f) s))"

section \<open>Lemmas\<close>

named_theorems io_simps

lemma new_description_simps [io_simps]:
  "file_text (snd (new_description s)) = file_text s"
  "screen (snd (new_description s)) = screen s"
  "fst (new_description s) = fst (fd_install (Regular 0) (io_fds s))"
  "io_fds (snd (new_description s)) = snd (fd_install (Regular 0) (io_fds s))"
  by (simp_all add: new_description_def split: prod.splits)

lemma new_description_slot:
  assumes "new_description s = (fd, t)"
  shows "fd_slot (io_fds t) j = (if j = fd then Some (Regular 0) else fd_slot (io_fds s) j)"
    and "fd_slot (io_fds s) fd = None"
  using assms fds.install_slot [of "Regular 0" "io_fds s" j] fds.install_free [of "io_fds s" "Regular 0"]
  by (auto simp: new_description_def split: prod.splits)

lemma sys_read_regular:
  assumes "fd_slot (io_fds s) fd = Some (Regular off)"
  shows "sys_read fd n s =
    (let d = take n (drop off (text_of s)) in
     (int (length d), d, s\<lparr>io_fds := fd_update fd (Regular (off + length d)) (io_fds s)\<rparr>))"
  using assms by (simp add: sys_read_def)

lemma fd_update_same: "fd_slot t fd = Some x \<Longrightarrow> fd_update fd x t = t"
  by (auto simp: fd_update_def fd_slot_def list_update_same_conv)

lemma put_screen_simps [io_simps]:
  "io_fds (put_screen d s) = io_fds s" "file_text (put_screen d s) = file_text s"
  "text_of (put_screen d s) = text_of s" "screen (put_screen d s) = screen s @ d"
  by (simp_all add: put_screen_def text_of_def)

text \<open>The bytes a descriptor has still to read: what makes the reading loops end.\<close>

definition unread :: "io_state \<Rightarrow> int \<Rightarrow> nat" where
  "unread s fd =
     (case fd_slot (io_fds s) fd of Some (Regular off) \<Rightarrow> length (text_of s) - off | _ \<Rightarrow> 0)"

lemma unread_put_screen [io_simps]: "unread (put_screen d s) fd = unread s fd"
  by (simp add: unread_def io_simps split: option.splits open_file.splits)

lemma sys_read_shrinks:
  assumes "sys_read fd n s = (rc, d, t)"
  shows "unread t fd + length d = unread s fd \<and> (\<forall>j. unread t j \<le> unread s j) \<and>
    text_of t = text_of s \<and> screen t = screen s"
proof (cases "fd_slot (io_fds s) fd")
  case None
  with assms show ?thesis by (auto simp: sys_read_def unread_def)
next
  case (Some e)
  then show ?thesis
  proof (cases e)
    case Terminal
    with Some assms show ?thesis by (auto simp: sys_read_def unread_def)
  next
    case (Regular off)
    with Some have off: "fd_slot (io_fds s) fd = Some (Regular off)" by simp
    from assms have "d = take n (drop off (text_of s))"
      "t = s\<lparr>io_fds := fd_update fd (Regular (off + length d)) (io_fds s)\<rparr>"
      by (auto simp: sys_read_regular [OF off] Let_def)
    then show ?thesis
      using off by (auto simp: unread_def fd_slot_update text_of_def split: option.splits open_file.splits)
  qed
qed

lemma fscanf_char_shrinks:
  assumes "fscanf_char f s = (r, g, t)"
  shows "st_fd g = st_fd f \<and> (\<forall>j. unread t j \<le> unread s j) \<and> text_of t = text_of s \<and>
    screen t = screen s \<and>
    length (st_buf g) + unread t (st_fd f) + (if r = None then 0 else 1) =
      length (st_buf f) + unread s (st_fd f)"
proof (cases "st_buf f")
  case Nil
  obtain rc d u where r: "sys_read (st_fd f) (st_size f) s = (rc, d, u)" by (metis prod_cases3)
  show ?thesis
    using Nil assms sys_read_shrinks [OF r] by (cases d) (auto simp: fscanf_char_def r)
next
  case (Cons c cs)
  with assms show ?thesis by (auto simp: fscanf_char_def)
qed

end
