(* ===== verification/File_Tasks.thy ===== *)
theory File_Tasks
  imports Open_Files C_Strings "HOL-Library.Multiset"
begin

text \<open>
  The programs of sem_06/lab_08 with one thread. task_01_v1.c reads a file through two buffered
  streams of one description; task_02_v1.c reads it through two descriptions; task_02_v3.c and
  task_03_v1.c write it through two descriptions, without and with buffers.
\<close>

section \<open>One description, two buffered streams (task_01_v1.c)\<close>

definition scan_and_print :: "stream \<Rightarrow> io_state \<Rightarrow> int \<times> stream \<times> io_state" where
  "scan_and_print f s =
     (case fscanf_char f s of
        (None, g, t) \<Rightarrow> (-1, g, t)
      | (Some c, g, t) \<Rightarrow> (1, g, put_screen [c] t))"

lemma scan_and_print_shrinks:
  assumes "scan_and_print f s = (flag, g, t)"
  shows "st_fd g = st_fd f \<and> (\<forall>j. unread t j \<le> unread s j) \<and>
    (if flag = 1 then length (st_buf g) + unread t (st_fd f) < length (st_buf f) + unread s (st_fd f)
     else length (st_buf g) + unread t (st_fd f) = length (st_buf f) + unread s (st_fd f))"
proof -
  obtain r g' t' where r: "fscanf_char f s = (r, g', t')" by (metis prod_cases3)
  show ?thesis
    using assms fscanf_char_shrinks [OF r]
    by (cases r) (auto simp: scan_and_print_def r io_simps)
qed

text \<open>The variables of \<open>main\<close>, the body of its loop, and \<open>while (flag1 == 1 || flag2 == 1)\<close>.\<close>

record task_01 =
  fs1 :: stream
  fs2 :: stream
  flag1 :: int
  flag2 :: int
  t1_io :: io_state

definition task_01_body :: "task_01 \<Rightarrow> task_01" where
  "task_01_body v =
     (case scan_and_print (fs1 v) (t1_io v) of (f1, g1, s1) \<Rightarrow>
      case scan_and_print (fs2 v) s1 of (f2, g2, s2) \<Rightarrow>
        \<lparr>fs1 = g1, fs2 = g2, flag1 = f1, flag2 = f2, t1_io = s2\<rparr>)"

definition to_scan :: "task_01 \<Rightarrow> nat" where
  "to_scan v =
     length (st_buf (fs1 v)) + unread (t1_io v) (st_fd (fs1 v)) +
     (length (st_buf (fs2 v)) + unread (t1_io v) (st_fd (fs2 v)))"

lemma task_01_body_shrinks:
  "to_scan (task_01_body v) +
     (if flag1 (task_01_body v) = 1 \<or> flag2 (task_01_body v) = 1 then 1 else 0) \<le> to_scan v"
proof -
  obtain f1 g1 s1 where 1: "scan_and_print (fs1 v) (t1_io v) = (f1, g1, s1)" by (metis prod_cases3)
  obtain f2 g2 s2 where 2: "scan_and_print (fs2 v) s1 = (f2, g2, s2)" by (metis prod_cases3)
  note a = scan_and_print_shrinks [OF 1] and b = scan_and_print_shrinks [OF 2]
  have "unread s1 (st_fd (fs2 v)) \<le> unread (t1_io v) (st_fd (fs2 v))" using a by blast
  moreover have "unread s2 (st_fd (fs1 v)) \<le> unread s1 (st_fd (fs1 v))" using b by blast
  moreover have "st_fd g1 = st_fd (fs1 v)" "st_fd g2 = st_fd (fs2 v)" using a b by blast+
  ultimately show ?thesis
    using conjunct2 [OF conjunct2 [OF a]] conjunct2 [OF conjunct2 [OF b]]
    by (simp add: task_01_body_def to_scan_def 1 2 split: if_splits)
qed

function task_01_loop :: "task_01 \<Rightarrow> task_01" where
  "task_01_loop v =
     (if flag1 v = 1 \<or> flag2 v = 1 then task_01_loop (task_01_body v) else v)"
  by pat_completeness auto
termination
proof (relation "measure (\<lambda>v. 2 * to_scan v + (if flag1 v = 1 \<or> flag2 v = 1 then 1 else 0))")
  show "wf (measure (\<lambda>v. 2 * to_scan v + (if flag1 v = 1 \<or> flag2 v = 1 then 1 else 0)))" by simp
  show "(task_01_body v, v) \<in> measure (\<lambda>v. 2 * to_scan v + (if flag1 v = 1 \<or> flag2 v = 1 then 1 else 0))"
    if "flag1 v = 1 \<or> flag2 v = 1" for v
    using that task_01_body_shrinks [of v] by (simp split: if_splits)
qed

declare task_01_loop.simps [simp del]

text \<open>\<open>main\<close> with buffers of \<open>b\<close> bytes; \<open>None\<close> when a stream is NULL.\<close>

definition task_01_v1 :: "nat \<Rightarrow> io_state \<Rightarrow> io_state option" where
  "task_01_v1 b s =
     (case sys_open s of (fd, s1) \<Rightarrow> do {
        f1 \<leftarrow> fdopen fd b s1;
        f2 \<leftarrow> fdopen fd b s1;
        Some (t1_io (task_01_loop \<lparr>fs1 = f1, fs2 = f2, flag1 = 1, flag2 = 2, t1_io = s1\<rparr>)) })"

text \<open>What it prints: the blocks of \<open>b\<close> bytes in pairs, each pair merged byte by byte.\<close>

function alternate :: "'a list \<Rightarrow> 'a list \<Rightarrow> 'a list" where
  "alternate [] ys = ys"
| "alternate (x # xs) ys = x # alternate ys xs"
  by pat_completeness auto
termination
  by (relation "measure (\<lambda>(xs, ys). length xs + length ys)") auto

function weave :: "nat \<Rightarrow> 'a list \<Rightarrow> 'a list" where
  "weave b xs =
     (if b = 0 \<or> xs = [] then []
      else alternate (take b xs) (take b (drop b xs)) @ weave b (drop (2 * b) xs))"
  by pat_completeness auto
termination
  by (relation "measure (\<lambda>(b, xs). length xs)") (auto simp: length_greater_0_conv)

declare weave.simps [simp del]

lemma alternate_Nil [simp]: "alternate xs [] = xs"
  by (cases xs) auto

lemma mset_alternate: "mset (alternate xs ys) = mset xs + mset ys"
  by (induction xs ys rule: alternate.induct) (simp_all add: ac_simps)

lemma take_take_drop: "take b xs @ take b (drop b xs) = take (2 * b) xs"
  by (simp add: take_add mult_2)

lemma mset_weave: "0 < b \<Longrightarrow> mset (weave b xs) = mset xs"
proof (induction b xs rule: weave.induct)
  case (1 b xs)
  show ?case
  proof (cases "xs = []")
    case True
    then show ?thesis by (simp add: weave.simps)
  next
    case False
    have "mset (weave b xs) = mset (take (2 * b) xs) + mset (drop (2 * b) xs)"
      using 1 False by (simp add: weave.simps [of b xs] mset_alternate flip: take_take_drop)
    then show ?thesis by (simp flip: mset_append)
  qed
qed


text \<open>A descriptor of a file with text \<open>tx\<close> whose offset is \<open>off\<close>.\<close>

definition reading :: "io_state \<Rightarrow> int \<Rightarrow> nat \<Rightarrow> string \<Rightarrow> bool" where
  "reading s fd off tx \<longleftrightarrow> fd_slot (io_fds s) fd = Some (Regular off) \<and> text_of s = tx"

text \<open>What a stream delivers from: its buffer, or the block it refills it with.\<close>

definition refill :: "stream \<Rightarrow> nat \<Rightarrow> string \<Rightarrow> string" where
  "refill f off tx = (if st_buf f = [] then take (st_size f) (drop off tx) else st_buf f)"

lemma scan_and_print_reading:
  assumes "reading s (st_fd f) off tx"
  defines "q \<equiv> refill f off tx"
  obtains t where "scan_and_print f s = (if q = [] then -1 else 1, f\<lparr>st_buf := tl q\<rparr>, t)"
    "reading t (st_fd f) (if st_buf f = [] then off + length q else off) tx"
    "screen t = screen s @ take 1 q"
proof (cases "st_buf f")
  case (Cons c cs)
  then have q: "q = c # cs" by (simp add: q_def refill_def)
  show ?thesis
    by (rule that [of "put_screen [c] s"])
      (use assms(1) Cons in \<open>simp_all add: scan_and_print_def fscanf_char_def q reading_def io_simps\<close>)
next
  case Nil
  then have q: "q = take (st_size f) (drop off tx)" by (simp add: q_def refill_def)
  have slot: "fd_slot (io_fds s) (st_fd f) = Some (Regular off)" and tx: "text_of s = tx"
    using assms(1) by (auto simp: reading_def)
  let ?t = "s\<lparr>io_fds := fd_update (st_fd f) (Regular (off + length q)) (io_fds s)\<rparr>"
  have rd: "sys_read (st_fd f) (st_size f) s = (int (length q), q, ?t)"
    by (simp add: sys_read_regular [OF slot] tx q Let_def)
  have t: "reading ?t (st_fd f) (off + length q) tx"
    using slot tx by (simp add: reading_def fd_slot_update text_of_def)
  show ?thesis
  proof (cases q)
    case qNil: Nil
    then show ?thesis
      by (intro that [of ?t]) (use Nil rd t in \<open>auto simp: scan_and_print_def fscanf_char_def\<close>)
  next
    case (Cons c cs)
    then show ?thesis
      by (intro that [of "put_screen [c] ?t"])
        (use Nil rd t in \<open>simp_all add: scan_and_print_def fscanf_char_def reading_def io_simps\<close>)
  qed
qed

lemma weave_block:
  assumes "0 < b" "xs \<noteq> []"
  shows "weave b xs = alternate (take b xs) (take b (drop b xs)) @ weave b (drop (2 * b) xs)"
  using assms by (simp add: weave.simps [of b xs])

lemma weave_Nil [simp]: "weave b [] = []"
  by (simp add: weave.simps)

lemma drop_length_take: "drop (length (take b xs)) xs = drop b xs"
  by (cases "b \<le> length xs") auto

text \<open>Both buffers are empty: two blocks of the file are read.\<close>

lemma both_refilled:
  assumes size: "st_size f = b" "st_size g = b" "0 < b" and Nil: "st_buf f = []" and gNil: "st_buf g = []"
  shows
    "let q = refill f off tx; off1 = (if st_buf f = [] then off + length q else off);
       r = refill g off1 tx; off2 = (if st_buf g = [] then off1 + length r else off1) in
     (length (tl q) = length (tl r) \<or> length tx \<le> off2 \<and> length (tl r) \<le> length (tl q)) \<and>
     alternate (st_buf f) (st_buf g) @ weave b (drop off tx) =
       take 1 q @ take 1 r @ alternate (tl q) (tl r) @ weave b (drop off2 tx) \<and>
     (q = [] \<longrightarrow> r = [] \<and> drop off tx = [] \<and> st_buf f = [] \<and> st_buf g = [])"
proof -
  define ds where "ds = drop off tx"
  define q where "q = take b ds"
  define r where "r = take b (drop b ds)"
  have q': "refill f off tx = q" using Nil size by (simp add: refill_def q_def ds_def)
  have drop_q: "drop (off + length q) tx = drop b ds"
    using drop_length_take [of b ds] by (simp add: q_def ds_def add.commute)
  then have r': "refill g (off + length q) tx = r" using gNil size by (simp add: refill_def r_def)
  have drop_r: "drop (off + length q + length r) tx = drop (2 * b) ds"
    using drop_length_take [of b "drop b ds"] drop_drop [of "length r" "off + length q" tx]
    by (simp add: r_def mult_2 drop_q add.commute)
  show ?thesis
  proof (cases ds)
    case dNil: Nil
    then show ?thesis
      using Nil gNil q' r' by (simp add: Let_def q_def r_def ds_def)
  next
    case (Cons d ds')
    then obtain c cs where q: "q = c # cs" using size(3) by (cases b) (auto simp: q_def)
    have split: "weave b ds = alternate q r @ weave b (drop (2 * b) ds)"
      using weave_block [of b ds] size(3) Cons by (simp add: q_def r_def)
    have "length r \<le> length q" by (simp add: q_def r_def)
    moreover have "length r = length q \<or> length tx \<le> off + length q + length r"
      by (auto simp: q_def r_def ds_def min_def)
    ultimately show ?thesis
      using Nil gNil q' r' drop_r split q
      by (cases r) (auto simp: Let_def simp flip: ds_def)
  qed
qed

text \<open>One pass of the loop takes a byte from each side.\<close>

lemma scan_both:
  assumes size: "st_size f = b" "st_size g = b" "0 < b"
    and bufs: "length (st_buf f) = length (st_buf g) \<or>
      length tx \<le> off \<and> length (st_buf g) \<le> length (st_buf f)"
  shows
    "let q = refill f off tx; off1 = (if st_buf f = [] then off + length q else off);
       r = refill g off1 tx; off2 = (if st_buf g = [] then off1 + length r else off1) in
     (length (tl q) = length (tl r) \<or> length tx \<le> off2 \<and> length (tl r) \<le> length (tl q)) \<and>
     alternate (st_buf f) (st_buf g) @ weave b (drop off tx) =
       take 1 q @ take 1 r @ alternate (tl q) (tl r) @ weave b (drop off2 tx) \<and>
     (q = [] \<longrightarrow> r = [] \<and> drop off tx = [] \<and> st_buf f = [] \<and> st_buf g = [])"
proof (cases "st_buf f")
  case Nil
  with bufs have "st_buf g = []" by auto
  from both_refilled [OF size Nil this] show ?thesis .
next
  case (Cons x xs)
  show ?thesis
  proof (cases "st_buf g")
    case Nil
    with Cons bufs size show ?thesis by (simp add: Let_def refill_def)
  next
    case (Cons y ys)
    with \<open>st_buf f = x # xs\<close> bufs show ?thesis by (simp add: Let_def refill_def)
  qed
qed

text \<open>The loop prints what is buffered and then the rest of the file, woven.\<close>

lemma task_01_loop_prints:
  assumes "flag1 v = 1 \<or> flag2 v = 1" "0 < b"
    and "st_size (fs1 v) = b" "st_size (fs2 v) = b" "st_fd (fs1 v) = fd" "st_fd (fs2 v) = fd"
    and "reading (t1_io v) fd off tx"
    and "length (st_buf (fs1 v)) = length (st_buf (fs2 v)) \<or>
      length tx \<le> off \<and> length (st_buf (fs2 v)) \<le> length (st_buf (fs1 v))"
  shows "screen (t1_io (task_01_loop v)) =
    screen (t1_io v) @ alternate (st_buf (fs1 v)) (st_buf (fs2 v)) @ weave b (drop off tx)"
  using assms
proof (induction v arbitrary: off rule: task_01_loop.induct)
  case (1 v)
  let ?xs = "st_buf (fs1 v)" and ?ys = "st_buf (fs2 v)"
  define q where "q = refill (fs1 v) off tx"
  define off1 where "off1 = (if ?xs = [] then off + length q else off)"
  define r where "r = refill (fs2 v) off1 tx"
  define off2 where "off2 = (if ?ys = [] then off1 + length r else off1)"
  obtain s1 where s1: "scan_and_print (fs1 v) (t1_io v) =
      (if q = [] then -1 else 1, (fs1 v)\<lparr>st_buf := tl q\<rparr>, s1)"
    "reading s1 fd off1 tx" "screen s1 = screen (t1_io v) @ take 1 q"
    using scan_and_print_reading [of "t1_io v" "fs1 v" off tx] 1 unfolding q_def off1_def by metis
  obtain s2 where s2: "scan_and_print (fs2 v) s1 =
      (if r = [] then -1 else 1, (fs2 v)\<lparr>st_buf := tl r\<rparr>, s2)"
    "reading s2 fd off2 tx" "screen s2 = screen s1 @ take 1 r"
    using scan_and_print_reading [of s1 "fs2 v" off1 tx] 1 s1(2) unfolding r_def off2_def by metis
  let ?w = "task_01_body v"
  have w: "?w = \<lparr>fs1 = (fs1 v)\<lparr>st_buf := tl q\<rparr>, fs2 = (fs2 v)\<lparr>st_buf := tl r\<rparr>,
      flag1 = (if q = [] then -1 else 1), flag2 = (if r = [] then -1 else 1), t1_io = s2\<rparr>"
    by (simp add: task_01_body_def s1 s2)
  have loop: "task_01_loop v = task_01_loop ?w"
    using 1 by (simp add: task_01_loop.simps [of v])
  have next_: "length (tl q) = length (tl r) \<or> length tx \<le> off2 \<and> length (tl r) \<le> length (tl q)"
    and all: "alternate ?xs ?ys @ weave b (drop off tx) =
      take 1 q @ take 1 r @ alternate (tl q) (tl r) @ weave b (drop off2 tx)"
    and over: "q = [] \<Longrightarrow> r = [] \<and> drop off tx = [] \<and> ?xs = [] \<and> ?ys = []"
    using scan_both [of "fs1 v" b "fs2 v" tx off] 1
    unfolding q_def off1_def r_def off2_def Let_def by blast+
  show ?case
  proof (cases "q = []")
    case True
    with over have "task_01_loop ?w = ?w" by (simp add: w task_01_loop.simps)
    with True over show ?thesis by (simp add: loop w s2 s1)
  next
    case False
    have "screen (t1_io (task_01_loop ?w)) =
        screen (t1_io ?w) @ alternate (st_buf (fs1 ?w)) (st_buf (fs2 ?w)) @ weave b (drop off2 tx)"
      by (rule 1) (use 1 False s2 next_ in \<open>simp_all add: w\<close>)
    then show ?thesis by (simp add: loop w s2 s1 all)
  qed
qed

lemma sys_open_reading:
  assumes "sys_open s = (fd, t)" "file_text s = Some tx"
  shows "fd_slot (io_fds t) j = (if j = fd then Some (Regular 0) else fd_slot (io_fds s) j)"
    "fd_slot (io_fds s) fd = None" "file_text t = Some tx" "screen t = screen s"
  using assms new_description_slot [of s fd t] new_description_simps [of s]
  by (auto simp: sys_open_def)

text \<open>What the program prints for a file and a buffer size, and that no byte is lost or repeated.\<close>

lemma task_01_v1_prints:
  assumes "0 < b"
  shows "\<exists>s. task_01_v1 b (io_start (Some tx)) = Some s \<and> screen s = weave b tx \<and> mset (screen s) = mset tx"
proof -
  obtain fd s where s: "sys_open (io_start (Some tx)) = (fd, s)" by fastforce
  have start: "file_text (io_start (Some tx)) = Some tx" "screen (io_start (Some tx)) = []"
    by (simp_all add: io_start_def)
  note o = sys_open_reading [OF s start(1)]
  let ?f = "\<lparr>st_fd = fd, st_size = b, st_buf = []\<rparr>"
  let ?v = "\<lparr>fs1 = ?f, fs2 = ?f, flag1 = 1, flag2 = 2, t1_io = s\<rparr>"
  have "reading s fd 0 tx" using o by (simp add: reading_def text_of_def)
  then have "screen (t1_io (task_01_loop ?v)) = weave b tx"
    using task_01_loop_prints [of ?v b fd 0 tx] assms o(4) start by simp
  moreover have "task_01_v1 b (io_start (Some tx)) = Some (t1_io (task_01_loop ?v))"
    using o by (simp add: task_01_v1_def s fdopen_def)
  ultimately show ?thesis using mset_weave [OF assms] by simp
qed

lemma task_01_v1_no_file: "task_01_v1 b (io_start None) = None"
  by (simp add: task_01_v1_def sys_open_def io_start_def fdopen_def fd_slot_def)

section \<open>Two descriptions, unbuffered reads (task_02_v1.c)\<close>

record task_02 =
  rc1 :: int
  rc2 :: int
  t2_io :: io_state

text \<open>The body of \<open>while (rc1 == 1 && rc2 == 1)\<close>. Descriptor 1 is the terminal.\<close>

definition task_02_body :: "int \<Rightarrow> int \<Rightarrow> task_02 \<Rightarrow> task_02" where
  "task_02_body fd1 fd2 v =
     (case sys_read fd1 1 (t2_io v) of (r1, c1, s1) \<Rightarrow>
      if r1 = 1 then
        (case sys_read fd2 1 (put_screen c1 s1) of (r2, c2, s2) \<Rightarrow>
           \<lparr>rc1 = r1, rc2 = r2, t2_io = (if r2 = 1 then put_screen c2 s2 else s2)\<rparr>)
      else v\<lparr>rc1 := r1, t2_io := s1\<rparr>)"

lemma task_02_body_shrinks:
  "unread (t2_io (task_02_body fd1 fd2 v)) fd1 +
     (if rc1 (task_02_body fd1 fd2 v) = 1 then 1 else 0) \<le> unread (t2_io v) fd1"
proof -
  obtain r1 c1 s1 where 1: "sys_read fd1 (Suc 0) (t2_io v) = (r1, c1, s1)" by (metis prod_cases3)
  obtain r2 c2 s2 where 2: "sys_read fd2 (Suc 0) (put_screen c1 s1) = (r2, c2, s2)" by (metis prod_cases3)
  have "unread s2 fd1 \<le> unread s1 fd1"
    using sys_read_shrinks [OF 2] by (simp add: io_simps)
  moreover have "r1 = 1 \<Longrightarrow> length c1 = 1"
    using 1 by (auto simp: sys_read_def Let_def split: option.splits open_file.splits)
  ultimately show ?thesis
    using sys_read_shrinks [OF 1] by (auto simp: task_02_body_def 1 2 io_simps)
qed

function task_02_loop :: "int \<Rightarrow> int \<Rightarrow> task_02 \<Rightarrow> task_02" where
  "task_02_loop fd1 fd2 v =
     (if rc1 v = 1 \<and> rc2 v = 1 then task_02_loop fd1 fd2 (task_02_body fd1 fd2 v) else v)"
  by pat_completeness auto
termination
proof (relation "measure (\<lambda>(fd1, fd2, v). 2 * unread (t2_io v) fd1 + (if rc1 v = 1 then 1 else 0))")
  show "wf (measure (\<lambda>(fd1, fd2, v). 2 * unread (t2_io v) fd1 + (if rc1 v = 1 then 1 else 0)))" by simp
  show "((fd1, fd2, task_02_body fd1 fd2 v), (fd1, fd2, v)) \<in>
      measure (\<lambda>(fd1, fd2, v). 2 * unread (t2_io v) fd1 + (if rc1 v = 1 then 1 else 0))"
    if "rc1 v = 1 \<and> rc2 v = 1" for fd1 fd2 v
    using that task_02_body_shrinks [of fd1 fd2 v] by (simp split: if_splits)
qed

declare task_02_loop.simps [simp del]

definition task_02_v1 :: "io_state \<Rightarrow> io_state" where
  "task_02_v1 s =
     (case sys_open s of (fd1, s1) \<Rightarrow>
      case sys_open s1 of (fd2, s2) \<Rightarrow>
        sys_close fd2 (sys_close fd1 (t2_io (task_02_loop fd1 fd2 \<lparr>rc1 = 1, rc2 = 1, t2_io = s2\<rparr>))))"

definition doubled :: "'a list \<Rightarrow> 'a list" where
  "doubled xs = concat (map (\<lambda>x. [x, x]) xs)"

lemma doubled_simps [simp]: "doubled [] = []" "doubled (x # xs) = x # x # doubled xs"
  by (simp_all add: doubled_def)

text \<open>A read of one byte from a description that is not at the end, and at the end.\<close>

lemma sys_read_byte:
  assumes "reading s fd off tx" "drop off tx = c # cs"
  obtains t where "sys_read fd (Suc 0) s = (1, [c], t)" "reading t fd (Suc off) tx" "screen t = screen s"
    "\<And>j. j \<noteq> fd \<Longrightarrow> fd_slot (io_fds t) j = fd_slot (io_fds s) j" "text_of t = tx"
  using assms that [of "s\<lparr>io_fds := fd_update fd (Regular (Suc off)) (io_fds s)\<rparr>"]
  by (auto simp: reading_def sys_read_regular Let_def fd_slot_update text_of_def)

lemma sys_read_end:
  assumes "reading s fd off tx" "drop off tx = []"
  shows "sys_read fd n s = (0, [], s)"
  using assms by (simp add: reading_def sys_read_regular Let_def fd_update_same)

lemma task_02_loop_prints:
  assumes "rc1 v = 1" "rc2 v = 1" "fd1 \<noteq> fd2"
    and "reading (t2_io v) fd1 off tx" "reading (t2_io v) fd2 off tx"
  shows "screen (t2_io (task_02_loop fd1 fd2 v)) = screen (t2_io v) @ doubled (drop off tx)"
  using assms
proof (induction "length tx - off" arbitrary: off v rule: less_induct)
  case less
  show ?case
  proof (cases "drop off tx")
    case Nil
    then have "task_02_body fd1 fd2 v = v\<lparr>rc1 := 0\<rparr>"
      using less.prems by (simp add: task_02_body_def sys_read_end [of _ _ off tx])
    with less.prems Nil show ?thesis by (simp add: task_02_loop.simps)
  next
    case (Cons c cs)
    obtain s where s: "sys_read fd1 (Suc 0) (t2_io v) = (1, [c], s)" "reading s fd1 (Suc off) tx"
      "screen s = screen (t2_io v)" "\<And>j. j \<noteq> fd1 \<Longrightarrow> fd_slot (io_fds s) j = fd_slot (io_fds (t2_io v)) j"
      "text_of s = tx"
      using sys_read_byte [OF less.prems(4) Cons] by metis
    have "reading (put_screen [c] s) fd2 off tx"
      using less.prems s by (simp add: reading_def io_simps)
    then obtain t where t: "sys_read fd2 (Suc 0) (put_screen [c] s) = (1, [c], t)" "reading t fd2 (Suc off) tx"
      "screen t = screen (put_screen [c] s)"
      "\<And>j. j \<noteq> fd2 \<Longrightarrow> fd_slot (io_fds t) j = fd_slot (io_fds (put_screen [c] s)) j" "text_of t = tx"
      using sys_read_byte [OF _ Cons] by metis
    let ?w = "task_02_body fd1 fd2 v"
    have w: "?w = \<lparr>rc1 = 1, rc2 = 1, t2_io = put_screen [c] t\<rparr>"
      by (simp add: task_02_body_def s t)
    have "off < length tx" using Cons by (metis drop_eq_Nil list.distinct(1) not_less)
    then have "screen (t2_io (task_02_loop fd1 fd2 ?w)) = screen (t2_io ?w) @ doubled (drop (Suc off) tx)"
      using s t less.prems by (intro less.hyps) (auto simp: w reading_def io_simps)
    moreover have "drop (Suc off) tx = cs" using Cons by (metis drop_Suc list.sel(3) tl_drop)
    ultimately show ?thesis
      using less.prems Cons s t by (simp add: task_02_loop.simps [of _ _ v] w io_simps)
  qed
qed

text \<open>Each description has its own offset, so every byte is printed twice.\<close>

lemma task_02_v1_prints: "screen (task_02_v1 (io_start (Some tx))) = doubled tx"
proof -
  obtain fd1 s1 where s1: "sys_open (io_start (Some tx)) = (fd1, s1)" by fastforce
  obtain fd2 s2 where s2: "sys_open s1 = (fd2, s2)" by fastforce
  have start: "file_text (io_start (Some tx)) = Some tx" "screen (io_start (Some tx)) = []"
    by (simp_all add: io_start_def)
  note o1 = sys_open_reading [OF s1 start(1)]
  note o2 = sys_open_reading [OF s2 o1(3)]
  have ne: "fd1 \<noteq> fd2" using o1(1) [of fd1] o2(2) by auto
  have "reading s2 fd1 0 tx" "reading s2 fd2 0 tx"
    using o1 o2 ne by (simp_all add: reading_def text_of_def)
  then have "screen (t2_io (task_02_loop fd1 fd2 \<lparr>rc1 = 1, rc2 = 1, t2_io = s2\<rparr>)) = doubled tx"
    using task_02_loop_prints [of "\<lparr>rc1 = 1, rc2 = 1, t2_io = s2\<rparr>" fd1 fd2 0 tx] ne o1 o2 start by simp
  then show ?thesis by (simp add: task_02_v1_def s1 s2 sys_close_def)
qed

end
