(* ===== verification/File_Writes.thy ===== *)
theory File_Writes
  imports File_Tasks
begin

text \<open>
  The writing programs of sem_06/lab_08 with one thread: task_02_v3.c writes the alphabet through
  two descriptions of q.txt by turns, task_03_v1.c prints it to two buffered streams on q.txt and
  reports the size of the file on the way.
\<close>

section \<open>Letters\<close>

text \<open>
  The loops run over \<open>char c = 'a'; c <= 'z'\<close>, codes 97 to 122. The first letters with an odd and
  with an even code.
\<close>

definition odd_letters :: "nat \<Rightarrow> string" where
  "odd_letters m = map (\<lambda>i. char_of (97 + 2 * i)) [0..<m]"

definition even_letters :: "nat \<Rightarrow> string" where
  "even_letters m = map (\<lambda>i. char_of (98 + 2 * i)) [0..<m]"

lemma letters_Suc:
  "odd_letters (Suc m) = odd_letters m @ [char_of (97 + 2 * m)]"
  "even_letters (Suc m) = even_letters m @ [char_of (98 + 2 * m)]"
  by (simp_all add: odd_letters_def even_letters_def)

lemma length_letters [simp]: "length (odd_letters m) = m" "length (even_letters m) = m"
  by (simp_all add: odd_letters_def even_letters_def)

lemma letters_0 [simp]: "odd_letters 0 = []" "even_letters 0 = []"
  by (simp_all add: odd_letters_def even_letters_def)

lemma letters_13: "odd_letters 13 = ''acegikmoqsuwy''" "even_letters 13 = ''bdfhjlnprtvxz''"
  by code_simp+

lemma overwrite_next: "overwrite (length p) [c] (p @ d) = p @ [c] @ drop 1 d"
  by (simp add: overwrite_def)

lemma overwrite_start: "overwrite 0 d c = d @ drop (length d) c"
  by (simp add: overwrite_def)

section \<open>Two descriptions, unbuffered writes (task_02_v3.c)\<close>

definition write_turn :: "int \<Rightarrow> int \<Rightarrow> nat \<Rightarrow> io_state \<Rightarrow> io_state option" where
  "write_turn fd1 fd2 c s =
     Some (snd (sys_write (if c mod 2 \<noteq> 0 then fd1 else fd2) [char_of c] s))"

definition task_02_v3 :: "io_state \<Rightarrow> io_state option" where
  "task_02_v3 s =
     (case sys_open s of (fd1, s1) \<Rightarrow>
      case sys_open s1 of (fd2, s2) \<Rightarrow> do {
        t \<leftarrow> for_up (write_turn fd1 fd2) 97 123 s2;
        Some (sys_close fd2 (sys_close fd1 t)) })"

text \<open>After \<open>k\<close> letters.\<close>

definition turns_done :: "int \<Rightarrow> int \<Rightarrow> string \<Rightarrow> nat \<Rightarrow> io_state \<Rightarrow> bool" where
  "turns_done fd1 fd2 old k s \<longleftrightarrow>
     fd_slot (io_fds s) fd1 = Some (Regular ((k + 1) div 2)) \<and>
     fd_slot (io_fds s) fd2 = Some (Regular (k div 2)) \<and>
     text_of s = even_letters (k div 2) @ (if odd k then [char_of (96 + k)] else []) @
       drop ((k + 1) div 2) old"

lemma sys_write_regular:
  assumes "fd_slot (io_fds s) fd = Some (Regular off)"
  shows "fd_slot (io_fds (snd (sys_write fd d s))) j =
      (if j = fd then Some (Regular (off + length d)) else fd_slot (io_fds s) j)"
    "text_of (snd (sys_write fd d s)) = overwrite off d (text_of s)"
    "file_text (snd (sys_write fd d s)) = Some (overwrite off d (text_of s))"
    "screen (snd (sys_write fd d s)) = screen s"
  using assms by (simp_all add: sys_write_def fd_slot_update text_of_def)

lemma write_turn_step:
  assumes "turns_done fd1 fd2 old k s" "fd1 \<noteq> fd2"
  shows "\<exists>t. write_turn fd1 fd2 (97 + k) s = Some t \<and> turns_done fd1 fd2 old (Suc k) t"
proof (cases "even k")
  case True
  then obtain m where k: "k = 2 * m" by (auto elim: evenE)
  then have "fd_slot (io_fds s) fd1 = Some (Regular m)" "fd_slot (io_fds s) fd2 = Some (Regular m)"
    and tx: "text_of s = even_letters m @ drop m old"
    using assms(1) by (simp_all add: turns_done_def)
  moreover have "overwrite m [char_of (97 + k)] (text_of s) =
      even_letters m @ [char_of (97 + k)] @ drop (Suc m) old"
    using overwrite_next [of "even_letters m" "char_of (97 + k)" "drop m old"] by (simp add: tx)
  ultimately show ?thesis
    using assms(2) k by (simp add: write_turn_def turns_done_def sys_write_regular)
next
  case False
  then obtain m where k: "k = 2 * m + 1" by (auto elim: oddE)
  then have "fd_slot (io_fds s) fd1 = Some (Regular (Suc m))" "fd_slot (io_fds s) fd2 = Some (Regular m)"
    and tx: "text_of s = even_letters m @ [char_of (96 + k)] @ drop (Suc m) old"
    using assms(1) by (simp_all add: turns_done_def)
  moreover have "overwrite m [char_of (97 + k)] (text_of s) = even_letters (Suc m) @ drop (Suc m) old"
    using overwrite_next [of "even_letters m" "char_of (97 + k)" "[char_of (96 + k)] @ drop (Suc m) old"]
    by (simp add: tx letters_Suc k)
  ultimately show ?thesis
    using assms(2) k by (simp add: write_turn_def turns_done_def sys_write_regular)
qed

text \<open>The second writer overwrites the first, and what lay behind 13 bytes stays.\<close>

lemma task_02_v3_result:
  "\<exists>s. task_02_v3 (io_start (Some old)) = Some s \<and> text_of s = ''bdfhjlnprtvxz'' @ drop 13 old"
proof -
  obtain fd1 s1 where s1: "sys_open (io_start (Some old)) = (fd1, s1)" by fastforce
  obtain fd2 s2 where s2: "sys_open s1 = (fd2, s2)" by fastforce
  have start: "file_text (io_start (Some old)) = Some old" by (simp add: io_start_def)
  note o1 = sys_open_reading [OF s1 start]
  note o2 = sys_open_reading [OF s2 o1(3)]
  have ne: "fd1 \<noteq> fd2" using o1(1) [of fd1] o2(2) by auto
  have "turns_done fd1 fd2 old 0 s2"
    using o1 o2 ne by (simp add: turns_done_def text_of_def)
  then have "\<exists>t. for_up (write_turn fd1 fd2) 97 (97 + 26) s2 = Some t \<and> turns_done fd1 fd2 old 26 t"
    using write_turn_step [OF _ ne] by (intro for_up_count)
  then obtain t where "for_up (write_turn fd1 fd2) 97 123 s2 = Some t" "turns_done fd1 fd2 old 26 t"
    by auto
  then show ?thesis
    by (simp add: task_02_v3_def s1 s2 turns_done_def letters_13 sys_close_def text_of_def)
qed

section \<open>Two buffered streams (task_03_v1.c)\<close>

text \<open>\<open>print_file_info\<close>; \<open>ino\<close> is the inode number of the file.\<close>

definition file_info :: "nat \<Rightarrow> string \<Rightarrow> string option \<Rightarrow> string" where
  "file_info ino message f =
     message @
     (case f of
        Some c \<Rightarrow> ''st_ino: '' @ show_nat ino @ nl @ ''st_size: '' @ show_nat (length c) @ nl
      | None \<Rightarrow> ''Error in stat'' @ nl @ nl)"

definition print_file_info :: "nat \<Rightarrow> string \<Rightarrow> io_state \<Rightarrow> io_state" where
  "print_file_info ino message s = put_screen (file_info ino message (file_text s)) s"

definition print_turn :: "nat \<Rightarrow> stream \<times> stream \<times> io_state \<Rightarrow> (stream \<times> stream \<times> io_state) option" where
  "print_turn c v =
     (case v of (f1, f2, s) \<Rightarrow>
        if c mod 2 \<noteq> 0
        then (case fprintf_char (char_of c) f1 s of (g1, t) \<Rightarrow> Some (g1, f2, t))
        else (case fprintf_char (char_of c) f2 s of (g2, t) \<Rightarrow> Some (f1, g2, t)))"

definition task_03_v1 :: "nat \<Rightarrow> nat \<Rightarrow> io_state \<Rightarrow> io_state option" where
  "task_03_v1 b ino s0 =
     (let s1 = print_file_info ino (''Before first open'' @ nl) s0 in
      case fopen_w b s1 of (f1, s2) \<Rightarrow>
      let s3 = print_file_info ino (''After first open'' @ nl) s2 in
      case fopen_w b s3 of (f2, s4) \<Rightarrow>
      let s5 = print_file_info ino (''After second open'' @ nl) s4 in do {
        (g1, g2, s6) \<leftarrow> for_up print_turn 97 123 (f1, f2, s5);
        (let s7 = print_file_info ino (''Before first close'' @ nl) s6;
             s8 = print_file_info ino (''After first close'' @ nl) (fclose g1 s7);
             s9 = print_file_info ino (''After second close'' @ nl) (fclose g2 s8)
         in Some s9) })"

text \<open>While the buffers hold all that is printed, the file stays empty.\<close>

definition prints_done :: "nat \<Rightarrow> int \<Rightarrow> int \<Rightarrow> io_state \<Rightarrow> nat \<Rightarrow> stream \<times> stream \<times> io_state \<Rightarrow> bool" where
  "prints_done b fd1 fd2 s k v \<longleftrightarrow>
     v = (\<lparr>st_fd = fd1, st_size = b, st_buf = odd_letters ((k + 1) div 2)\<rparr>,
          \<lparr>st_fd = fd2, st_size = b, st_buf = even_letters (k div 2)\<rparr>, s)"

lemma print_turn_step:
  assumes "prints_done b fd1 fd2 s k v" "k < 26" "13 \<le> b"
  shows "\<exists>w. print_turn (97 + k) v = Some w \<and> prints_done b fd1 fd2 s (Suc k) w"
proof (cases "even k")
  case True
  then obtain m where k: "k = 2 * m" by (auto elim: evenE)
  with assms show ?thesis
    by (simp add: prints_done_def print_turn_def fprintf_char_def letters_Suc)
next
  case False
  then obtain m where k: "k = 2 * m + 1" by (auto elim: oddE)
  with assms show ?thesis
    by (simp add: prints_done_def print_turn_def fprintf_char_def letters_Suc)
qed

lemma fopen_w_slot:
  assumes "fopen_w b s = (f, t)"
  shows "st_size f = b" "st_buf f = []" "file_text t = Some []" "screen t = screen s"
    "fd_slot (io_fds t) j = (if j = st_fd f then Some (Regular 0) else fd_slot (io_fds s) j)"
    "fd_slot (io_fds s) (st_fd f) = None"
  using assms new_description_slot [of "s\<lparr>file_text := Some []\<rparr>" "st_fd f" t]
    new_description_simps [of "s\<lparr>file_text := Some []\<rparr>"]
  by (auto simp: fopen_w_def sys_create_def split: prod.splits)

lemma fclose_regular:
  assumes "fd_slot (io_fds s) (st_fd f) = Some (Regular off)"
  shows "file_text (fclose f s) = Some (overwrite off (st_buf f) (text_of s))"
    "screen (fclose f s) = screen s"
    "j \<noteq> st_fd f \<Longrightarrow> fd_slot (io_fds (fclose f s)) j = fd_slot (io_fds s) j"
  using assms by (simp_all add: fclose_def sys_close_def sys_write_regular fds.release_slot)

lemma print_file_info_simps [io_simps]:
  "io_fds (print_file_info ino m s) = io_fds s" "file_text (print_file_info ino m s) = file_text s"
  "screen (print_file_info ino m s) = screen s @ file_info ino m (file_text s)"
  by (simp_all add: print_file_info_def io_simps)

text \<open>The loop leaves every other letter in each buffer.\<close>

lemma print_loop:
  assumes "13 \<le> b" "st_size f1 = b" "st_size f2 = b" "st_buf f1 = []" "st_buf f2 = []"
  shows "for_up print_turn 97 123 (f1, f2, s) =
    Some (\<lparr>st_fd = st_fd f1, st_size = b, st_buf = odd_letters 13\<rparr>,
      \<lparr>st_fd = st_fd f2, st_size = b, st_buf = even_letters 13\<rparr>, s)"
proof -
  have "prints_done b (st_fd f1) (st_fd f2) s 0 (f1, f2, s)"
    using assms by (simp add: prints_done_def)
  then have "\<exists>v. for_up print_turn 97 (97 + 26) (f1, f2, s) = Some v \<and>
      prints_done b (st_fd f1) (st_fd f2) s 26 v"
    using print_turn_step [OF _ _ assms(1)] by (intro for_up_count)
  then show ?thesis by (auto simp: prints_done_def)
qed

text \<open>
  With buffers of at least 13 bytes the first stream's letters are lost: the second one writes its
  own over them when it is closed. The sizes reported are 0, 0, 0, 13 and 13.
\<close>

lemma task_03_v1_result:
  assumes "13 \<le> b"
  shows "\<exists>s. task_03_v1 b ino (io_start f) = Some s \<and> file_text s = Some ''bdfhjlnprtvxz'' \<and>
    screen s = file_info ino (''Before first open'' @ nl) f @
      file_info ino (''After first open'' @ nl) (Some []) @
      file_info ino (''After second open'' @ nl) (Some []) @
      file_info ino (''Before first close'' @ nl) (Some []) @
      file_info ino (''After first close'' @ nl) (Some ''acegikmoqsuwy'') @
      file_info ino (''After second close'' @ nl) (Some ''bdfhjlnprtvxz'')"
proof -
  define s1 where "s1 = print_file_info ino (''Before first open'' @ nl) (io_start f)"
  obtain f1 s2 where s2: "fopen_w b s1 = (f1, s2)" by fastforce
  define s3 where "s3 = print_file_info ino (''After first open'' @ nl) s2"
  obtain f2 s4 where s4: "fopen_w b s3 = (f2, s4)" by fastforce
  define s5 where "s5 = print_file_info ino (''After second open'' @ nl) s4"
  note o1 = fopen_w_slot [OF s2] and o2 = fopen_w_slot [OF s4]
  have ne: "st_fd f1 \<noteq> st_fd f2" using o1(5) [of "st_fd f1"] o2(6) by (auto simp: s3_def io_simps)
  have slots: "fd_slot (io_fds s5) (st_fd f1) = Some (Regular 0)"
    "fd_slot (io_fds s5) (st_fd f2) = Some (Regular 0)"
    using o1(5) o2(5) ne by (simp_all add: s5_def s3_def io_simps)
  obtain g1 g2 where loop: "for_up print_turn 97 123 (f1, f2, s5) = Some (g1, g2, s5)"
    and g: "g1 = \<lparr>st_fd = st_fd f1, st_size = b, st_buf = odd_letters 13\<rparr>"
      "g2 = \<lparr>st_fd = st_fd f2, st_size = b, st_buf = even_letters 13\<rparr>"
    using print_loop [OF assms, of f1 f2 s5] o1 o2 by auto
  define s7 where "s7 = print_file_info ino (''Before first close'' @ nl) s5"
  have s7: "fd_slot (io_fds s7) (st_fd g1) = Some (Regular 0)" "text_of s7 = []"
    using slots o2 by (simp_all add: s7_def s5_def io_simps g text_of_def)
  note c1 = fclose_regular [OF s7(1)]
  define s8 where "s8 = print_file_info ino (''After first close'' @ nl) (fclose g1 s7)"
  have t8: "file_text s8 = Some (odd_letters 13)"
    using c1(1) s7(2) by (simp add: s8_def io_simps overwrite_def g)
  have slot8: "fd_slot (io_fds s8) (st_fd g2) = Some (Regular 0)"
    using c1(3) [of "st_fd g2"] slots ne by (simp add: s8_def io_simps s7_def g)
  note c2 = fclose_regular [OF slot8]
  have t9: "file_text (fclose g2 s8) = Some (even_letters 13)"
    using c2(1) by (simp add: t8 text_of_def overwrite_start g)
  have "task_03_v1 b ino (io_start f) =
      Some (print_file_info ino (''After second close'' @ nl) (fclose g2 s8))"
    by (simp only: task_03_v1_def Let_def s1_def [symmetric] s2 prod.case s3_def [symmetric] s4
        s5_def [symmetric] loop Option.bind.bind_lunit s7_def [symmetric] s8_def [symmetric])
  moreover have "screen s8 = file_info ino (''Before first open'' @ nl) f @
      file_info ino (''After first open'' @ nl) (Some []) @
      file_info ino (''After second open'' @ nl) (Some []) @
      file_info ino (''Before first close'' @ nl) (Some []) @
      file_info ino (''After first close'' @ nl) (Some (odd_letters 13))"
  proof -
    have "file_text (fclose g1 s7) = Some (odd_letters 13)" using t8 by (simp add: s8_def io_simps)
    then have "screen s8 = screen s7 @ file_info ino (''After first close'' @ nl) (Some (odd_letters 13))"
      using c1(2) by (simp add: s8_def io_simps)
    then show ?thesis using o1 o2 by (simp add: s7_def s5_def s3_def s1_def io_simps io_start_def)
  qed
  ultimately show ?thesis using t9 c2 by (simp add: io_simps letters_13)
qed

end
