(* ===== verification/File_Properties.thy ===== *)
theory File_Properties
  imports File_Writes
begin

text \<open>
  The properties of the file programs of sem_06/lab_08.
\<close>

text \<open>C21: For every file and every size \<open>b\<close> of the two stream buffers, task_01_v1.c ends and prints
  the blocks of \<open>b\<close> bytes of the file in pairs, the two blocks of a pair merged byte by byte:
  because the streams share one description, every byte of the file is printed exactly once, but not
  in the order of the file.\<close>

theorem shared_description_weaves:
  assumes "0 < b"
  shows "\<exists>s. task_01_v1 b (io_start (Some tx)) = Some s \<and> screen s = weave b tx \<and> mset (screen s) = mset tx"
  using assms by (rule task_01_v1_prints)

lemma shared_description_weaves_witness:
  "\<exists>s. task_01_v1 20 (io_start (Some ''abcdefghijklmnopqrstuvwxyz'')) = Some s \<and>
     screen s = ''aubvcwdxeyfzghijklmnopqrst'' \<and> mset (screen s) = mset ''abcdefghijklmnopqrstuvwxyz''"
proof -
  have "weave 20 ''abcdefghijklmnopqrstuvwxyz'' = ''aubvcwdxeyfzghijklmnopqrst''" by code_simp
  then show ?thesis
    using shared_description_weaves [of 20 "''abcdefghijklmnopqrstuvwxyz''"] by simp
qed

text \<open>task_02_v1.c prints every byte of the file twice in a row: its two descriptions have an
  offset each.\<close>

theorem own_descriptions_double: "screen (task_02_v1 (io_start (Some tx))) = doubled tx"
  by (rule task_02_v1_prints)

text \<open>Whatever q.txt holds, task_02_v3.c leaves the letters with an even code in its first 13
  bytes and the old bytes behind them: each letter written through the first description is
  overwritten through the second one.\<close>

theorem second_writer_wins:
  "\<exists>s. task_02_v3 (io_start (Some old)) = Some s \<and> text_of s = ''bdfhjlnprtvxz'' @ drop 13 old"
  by (rule task_02_v3_result)

text \<open>With stream buffers of at least 13 bytes task_03_v1.c leaves the letters of the stream closed
  last, the other stream's 13 letters are lost, and the sizes it reports are 0 until the first close
  and 13 after it.\<close>

theorem last_close_wins:
  assumes "13 \<le> b"
  shows "\<exists>s. task_03_v1 b ino (io_start f) = Some s \<and> file_text s = Some ''bdfhjlnprtvxz'' \<and>
    screen s = file_info ino (''Before first open'' @ nl) f @
      file_info ino (''After first open'' @ nl) (Some []) @
      file_info ino (''After second open'' @ nl) (Some []) @
      file_info ino (''Before first close'' @ nl) (Some []) @
      file_info ino (''After first close'' @ nl) (Some ''acegikmoqsuwy'') @
      file_info ino (''After second close'' @ nl) (Some ''bdfhjlnprtvxz'')"
  using assms by (rule task_03_v1_result)

lemma last_close_wins_witness:
  "\<exists>s. task_03_v1 4096 7 (io_start None) = Some s \<and> file_text s = Some ''bdfhjlnprtvxz''"
  using last_close_wins [of 4096 7 None] by auto

end
