(* ===== verification/Daemonize.thy ===== *)
theory Daemonize
  imports Descriptors
begin

text \<open>
  How the two daemons (sem_05/lab_03/src/main.c and sem_06/lab_03/p_2/daemon.c) detach themselves:
  the function \<open>daemonize\<close> of each, \<open>err_quit\<close> of each, and the start of \<open>main\<close> of the second. What
  the system calls answer is an argument. The descriptor table maps to the names of the open files.
\<close>

section \<open>The process and the answers of the system\<close>

record daemon_proc =
  dp_umask :: nat
  dp_fds :: "string fd_table"
  dp_cwd :: string
  dp_session_leader :: bool
  dp_terminal :: bool
  dp_hup_ignored :: bool
  dp_parents :: "int list"
  dp_logged :: "(int \<times> int \<times> int) list"

text \<open>
  \<open>r_rlimit\<close> is the answer of \<open>getrlimit\<close>: \<open>None\<close> for a failure, \<open>Some None\<close> for
  \<open>RLIM_INFINITY\<close>. The others say whether the call succeeds.
\<close>

record replies =
  r_rlimit :: "nat option option"
  r_fork :: bool
  r_fork_again :: bool
  r_sigaction :: bool
  r_chdir :: bool
  r_open_null :: bool
  r_dup :: bool
  r_dup_again :: bool

text \<open>How a call of a function that may not return ends.\<close>

datatype outcome = Runs daemon_proc | Exits int daemon_proc | Undefined

fun on_outcome :: "(daemon_proc \<Rightarrow> daemon_proc) \<Rightarrow> outcome \<Rightarrow> outcome" where
  "on_outcome f (Runs p) = Runs (f p)"
| "on_outcome f (Exits c p) = Exits c (f p)"
| "on_outcome f Undefined = Undefined"

text \<open>
  \<open>err_quit\<close> of src/errors.c passes a \<open>va_list\<close> to \<open>vfprintf\<close> that no \<open>va_start\<close> has set: undefined.
  That of p_2/my_error.c is undefined when the format has a \<open>%s\<close> and the call gives no argument.
\<close>

definition err_quit :: "daemon_proc \<Rightarrow> outcome" where
  "err_quit p = Undefined"

definition err_quit_2 :: "bool \<Rightarrow> daemon_proc \<Rightarrow> outcome" where
  "err_quit_2 has_argument p = (if has_argument then Exits 1 p else Undefined)"

section \<open>The shared parts\<close>

text \<open>\<open>fork\<close> with the exit of the parent: what the child goes on with.\<close>

definition fork_child :: "daemon_proc \<Rightarrow> daemon_proc" where
  "fork_child p = p\<lparr>dp_parents := dp_parents p @ [0], dp_session_leader := False\<rparr>"

definition setsid :: "daemon_proc \<Rightarrow> daemon_proc" where
  "setsid p = p\<lparr>dp_session_leader := True, dp_terminal := False\<rparr>"

text \<open>\<open>for (i = 0; i < rl.rlim_max; i++) close(i);\<close> with an \<open>int\<close> counter.\<close>

definition INT_MAX :: nat where
  "INT_MAX = 2 ^ 31 - 1"

definition close_one :: "nat \<Rightarrow> string fd_table \<Rightarrow> string fd_table option" where
  "close_one i t = (if i < INT_MAX then Some (fd_release (int i) t) else None)"

definition close_all :: "nat option \<Rightarrow> string fd_table \<Rightarrow> string fd_table option" where
  "close_all lim t = for_up close_one 0 (case lim of None \<Rightarrow> 1024 | Some n \<Rightarrow> n) t"

definition null_device :: string where
  "null_device = ''/dev/null''"

text \<open>\<open>open("/dev/null")\<close> and \<open>dup(0)\<close>: the descriptor, -1 when the call fails.\<close>

definition open_null :: "bool \<Rightarrow> string fd_table \<Rightarrow> int \<times> string fd_table" where
  "open_null ok t = (if ok then fd_install null_device t else (-1, t))"

definition dup_0 :: "bool \<Rightarrow> string fd_table \<Rightarrow> int \<times> string fd_table" where
  "dup_0 ok t =
     (case fd_slot t 0 of
        Some f \<Rightarrow> if ok then fd_install f t else (-1, t)
      | None \<Rightarrow> (-1, t))"

text \<open>Attaching the standard descriptors, and the check of the result.\<close>

definition attach_null :: "replies \<Rightarrow> daemon_proc \<Rightarrow> outcome" where
  "attach_null r p =
     (case open_null (r_open_null r) (dp_fds p) of (fd0, t0) \<Rightarrow>
      case dup_0 (r_dup r) t0 of (fd1, t1) \<Rightarrow>
      case dup_0 (r_dup_again r) t1 of (fd2, t2) \<Rightarrow>
        if fd0 \<noteq> 0 \<or> fd1 \<noteq> 1 \<or> fd2 \<noteq> 2
        then Exits 1 (p\<lparr>dp_fds := t2, dp_logged := dp_logged p @ [(fd0, fd1, fd2)]\<rparr>)
        else Runs (p\<lparr>dp_fds := t2\<rparr>))"

definition close_and_attach :: "replies \<Rightarrow> nat option \<Rightarrow> daemon_proc \<Rightarrow> outcome" where
  "close_and_attach r lim p =
     (case close_all lim (dp_fds p) of
        None \<Rightarrow> Undefined
      | Some t \<Rightarrow> attach_null r (p\<lparr>dp_fds := t\<rparr>))"

section \<open>daemonize\<close>

text \<open>sem_05/lab_03/src/main.c.\<close>

definition daemonize :: "replies \<Rightarrow> daemon_proc \<Rightarrow> outcome" where
  "daemonize r p0 =
     (let p1 = p0\<lparr>dp_umask := 0\<rparr> in
      case r_rlimit r of
        None \<Rightarrow> err_quit p1
      | Some lim \<Rightarrow>
          if \<not> r_fork r then err_quit p1
          else
            (let p2 = fork_child p1 in
             if \<not> r_sigaction r then err_quit p2
             else
               (let p3 = setsid (p2\<lparr>dp_hup_ignored := True\<rparr>) in
                if \<not> r_chdir r then err_quit p3
                else close_and_attach r lim (p3\<lparr>dp_cwd := ''/''\<rparr>))))"

text \<open>sem_06/lab_03/p_2/daemon.c: \<open>setsid\<close> comes before \<open>sigaction\<close>, and a second \<open>fork\<close> after it.\<close>

definition daemonize_2 :: "replies \<Rightarrow> daemon_proc \<Rightarrow> outcome" where
  "daemonize_2 r p0 =
     (let p1 = p0\<lparr>dp_umask := 0\<rparr> in
      case r_rlimit r of
        None \<Rightarrow> err_quit_2 True p1
      | Some lim \<Rightarrow>
          if \<not> r_fork r then err_quit_2 True p1
          else
            (let p2 = setsid (fork_child p1) in
             if \<not> r_sigaction r then err_quit_2 False p2
             else
               (let p3 = p2\<lparr>dp_hup_ignored := True\<rparr> in
                if \<not> r_fork_again r then err_quit_2 True p3
                else
                  (let p4 = fork_child p3 in
                   if \<not> r_chdir r then err_quit_2 False p4
                   else close_and_attach r lim (p4\<lparr>dp_cwd := ''/''\<rparr>)))))"

text \<open>
  \<open>main\<close> of the second daemon up to its loop. \<open>cmd\<close> is set only when \<open>argv[0]\<close> has no slash;
  otherwise \<open>cmd++\<close> reads the uninitialised pointer.
\<close>

definition main_2 :: "replies \<Rightarrow> string \<Rightarrow> daemon_proc \<Rightarrow> outcome" where
  "main_2 r argv0 p = (if CHR ''/'' \<in> set argv0 then Undefined else daemonize_2 r p)"

section \<open>Closing everything\<close>

lemma close_all_slot:
  assumes "n < INT_MAX"
  shows "\<exists>t'. for_up close_one 0 n t = Some t' \<and>
    (\<forall>j. fd_slot t' j = (if 0 \<le> j \<and> j < int n then None else fd_slot t j))"
proof -
  have "\<exists>t'. for_up close_one 0 (0 + n) t = Some t' \<and>
      (\<forall>j. fd_slot t' j = (if 0 \<le> j \<and> j < int n then None else fd_slot t j))"
  proof (intro for_up_count [where P = "\<lambda>k t'. \<forall>j. fd_slot t' j =
      (if 0 \<le> j \<and> j < int k then None else fd_slot t j)"])
    fix k t' assume k: "k < n" and t': "\<forall>j. fd_slot t' j = (if 0 \<le> j \<and> j < int k then None else fd_slot t j)"
    show "\<exists>u. close_one (0 + k) t' = Some u \<and>
        (\<forall>j. fd_slot u j = (if 0 \<le> j \<and> j < int (Suc k) then None else fd_slot t j))"
      using k assms t' by (auto simp: close_one_def fds.release_slot)
  qed auto
  then show ?thesis by simp
qed

lemma close_all_closes:
  assumes "lim = Some n \<or> lim = None \<and> n = 1024" "n < INT_MAX"
  obtains t' where "close_all lim t = Some t'"
    "\<And>j. fd_slot t' j = (if 0 \<le> j \<and> j < int n then None else fd_slot t j)"
  using close_all_slot [OF assms(2), of t] assms(1) by (auto simp: close_all_def)

text \<open>A limit above \<open>INT_MAX\<close> overflows the counter.\<close>

lemma close_all_overflows:
  assumes "INT_MAX < n"
  shows "close_all (Some n) t = None"
proof -
  have "for_up close_one i n t = None" if "i \<le> INT_MAX" for i t
    using that
  proof (induction "INT_MAX - i" arbitrary: i t)
    case 0
    then have "i = INT_MAX" by simp
    with assms show ?case by (simp add: for_up.simps [of _ INT_MAX] close_one_def)
  next
    case (Suc d)
    then have "i < INT_MAX" by simp
    moreover have "for_up close_one (Suc i) n (fd_release (int i) t) = None"
      using Suc by (intro Suc.hyps(1)) simp_all
    ultimately show ?case using assms by (simp add: for_up.simps [of _ i] close_one_def)
  qed
  then show ?thesis by (simp add: close_all_def)
qed

lemma attach_null_clean:
  assumes "\<And>j. fd_slot (dp_fds p) j = None" "r_open_null r" "r_dup r" "r_dup_again r"
  shows "\<exists>t. attach_null r p = Runs (p\<lparr>dp_fds := t\<rparr>) \<and>
    (\<forall>j. fd_slot t j = (if j \<in> {0, 1, 2} then Some null_device else None))"
proof -
  note three = fds.three_installs(1) [OF assms(1), of null_device]
    fds.three_installs(2,3) [OF assms(1), of null_device null_device]
    fds.three_installs(4) [OF assms(1), of null_device null_device null_device]
  obtain t0 where t0: "fd_install null_device (dp_fds p) = (0, t0)" using three(1) by (metis prod.collapse)
  obtain t1 where t1: "fd_install null_device t0 = (1, t1)" using three(2) t0 by (metis prod.collapse snd_conv)
  obtain t2 where t2: "fd_install null_device t1 = (2, t2)"
    using three(3) t0 t1 by (metis prod.collapse snd_conv)
  have "fd_slot t0 0 = Some null_device" "fd_slot t1 0 = Some null_device"
    using fds.install_slot [of null_device "dp_fds p" 0] fds.install_slot [of null_device t0 0] t0 t1
    by simp_all
  then have "attach_null r p = Runs (p\<lparr>dp_fds := t2\<rparr>)"
    using assms by (simp add: attach_null_def open_null_def dup_0_def t0 t1 t2)
  moreover have "fd_slot t2 j = (if j \<in> {0, 1, 2} then Some null_device else None)" for j
    using three(4) [of j] t0 t1 t2 by simp
  ultimately show ?thesis by blast
qed

text \<open>Whatever is answered, a daemon that goes on has its standard descriptors on /dev/null.\<close>

lemma attach_null_runs:
  assumes "attach_null r p = Runs q"
  shows "fd_slot (dp_fds q) 0 = Some null_device" "fd_slot (dp_fds q) 1 = Some null_device"
    "fd_slot (dp_fds q) 2 = Some null_device"
proof -
  obtain fd0 t0 where 0: "open_null (r_open_null r) (dp_fds p) = (fd0, t0)" by fastforce
  obtain fd1 t1 where 1: "dup_0 (r_dup r) t0 = (fd1, t1)" by fastforce
  obtain fd2 t2 where 2: "dup_0 (r_dup_again r) t1 = (fd2, t2)" by fastforce
  from assms have fd: "fd0 = 0" "fd1 = 1" "fd2 = 2" "dp_fds q = t2"
    by (auto simp: attach_null_def 0 1 2 split: if_splits)
  have "fd_install null_device (dp_fds p) = (0, t0)" using 0 fd by (auto simp: open_null_def split: if_splits)
  then have s0: "fd_slot t0 0 = Some null_device" using fds.install_slot [of null_device "dp_fds p" 0] by simp
  then have "fd_install null_device t0 = (1, t1)" using 1 fd by (auto simp: dup_0_def split: if_splits)
  then have s1: "fd_slot t1 j = (if j = 1 then Some null_device else fd_slot t0 j)" for j
    using fds.install_slot [of null_device t0 j] by simp
  then have "fd_install null_device t1 = (2, t2)" using 2 fd s0 by (auto simp: dup_0_def split: if_splits)
  then have "fd_slot t2 j = (if j = 2 then Some null_device else fd_slot t1 j)" for j
    using fds.install_slot [of null_device t1 j] by simp
  with s0 s1 fd show "fd_slot (dp_fds q) 0 = Some null_device" "fd_slot (dp_fds q) 1 = Some null_device"
    "fd_slot (dp_fds q) 2 = Some null_device"
    by simp_all
qed

section \<open>What daemonize achieves\<close>

definition all_granted :: "replies \<Rightarrow> bool" where
  "all_granted r \<longleftrightarrow> r_fork r \<and> r_fork_again r \<and> r_sigaction r \<and> r_chdir r \<and> r_open_null r \<and>
     r_dup r \<and> r_dup_again r"

definition descriptor_limit :: "nat option \<Rightarrow> nat" where
  "descriptor_limit lim = (case lim of None \<Rightarrow> 1024 | Some n \<Rightarrow> n)"

lemma close_and_attach_clean:
  assumes "all_granted r" "descriptor_limit lim < INT_MAX"
    and "\<And>j. int (descriptor_limit lim) \<le> j \<Longrightarrow> fd_slot (dp_fds p) j = None"
  shows "\<exists>t. close_and_attach r lim p = Runs (p\<lparr>dp_fds := t\<rparr>) \<and>
    (\<forall>j. fd_slot t j = (if j \<in> {0, 1, 2} then Some null_device else None))"
proof -
  have "lim = Some (descriptor_limit lim) \<or> lim = None \<and> descriptor_limit lim = 1024"
    by (cases lim) (simp_all add: descriptor_limit_def)
  from close_all_closes [OF this assms(2)] obtain t where t: "close_all lim (dp_fds p) = Some t"
    "\<And>j. fd_slot t j = (if 0 \<le> j \<and> j < int (descriptor_limit lim) then None else fd_slot (dp_fds p) j)"
    by metis
  have "fd_slot t j = None" for j
    using t(2) [of j] assms(3) [of j] fds.no_negative [of j "dp_fds p"] by (cases "j < 0") auto
  then have "\<exists>u. attach_null r (p\<lparr>dp_fds := t\<rparr>) = Runs (p\<lparr>dp_fds := t\<rparr>\<lparr>dp_fds := u\<rparr>) \<and>
      (\<forall>j. fd_slot u j = (if j \<in> {0, 1, 2} then Some null_device else None))"
    using assms(1) by (intro attach_null_clean) (simp_all add: all_granted_def)
  then show ?thesis by (simp add: close_and_attach_def t(1))
qed

lemma daemonize_detached:
  assumes "all_granted r" "r_rlimit r = Some lim" "descriptor_limit lim < INT_MAX"
    and "\<And>j. int (descriptor_limit lim) \<le> j \<Longrightarrow> fd_slot (dp_fds p) j = None"
  shows "\<exists>q. daemonize r p = Runs q \<and> dp_umask q = 0 \<and> dp_cwd q = ''/'' \<and> \<not> dp_terminal q \<and>
    dp_session_leader q \<and> dp_hup_ignored q \<and> dp_parents q = dp_parents p @ [0] \<and>
    (\<forall>j. fd_slot (dp_fds q) j = (if j \<in> {0, 1, 2} then Some null_device else None))"
proof -
  let ?p = "setsid (fork_child (p\<lparr>dp_umask := 0\<rparr>)\<lparr>dp_hup_ignored := True\<rparr>)\<lparr>dp_cwd := ''/''\<rparr>"
  have "\<exists>t. close_and_attach r lim ?p = Runs (?p\<lparr>dp_fds := t\<rparr>) \<and>
      (\<forall>j. fd_slot t j = (if j \<in> {0, 1, 2} then Some null_device else None))"
    using assms by (intro close_and_attach_clean) (simp_all add: setsid_def fork_child_def)
  then obtain t where t: "close_and_attach r lim ?p = Runs (?p\<lparr>dp_fds := t\<rparr>)"
    "\<And>j. fd_slot t j = (if j \<in> {0, 1, 2} then Some null_device else None)"
    by blast
  have "daemonize r p = Runs (?p\<lparr>dp_fds := t\<rparr>)"
    using assms(1,2) t(1) by (simp add: daemonize_def all_granted_def Let_def)
  with t(2) show ?thesis by (simp add: setsid_def fork_child_def)
qed

text \<open>The second fork does not disturb what comes after it.\<close>

lemma close_and_attach_fork:
  "close_and_attach r lim (fork_child p) = on_outcome fork_child (close_and_attach r lim p)"
proof (cases "close_all lim (dp_fds p)")
  case None
  then show ?thesis by (simp add: close_and_attach_def fork_child_def)
next
  case (Some t)
  obtain fd0 t0 where 0: "open_null (r_open_null r) t = (fd0, t0)" by fastforce
  obtain fd1 t1 where 1: "dup_0 (r_dup r) t0 = (fd1, t1)" by fastforce
  obtain fd2 t2 where 2: "dup_0 (r_dup_again r) t1 = (fd2, t2)" by fastforce
  show ?thesis
    by (simp add: close_and_attach_def Some attach_null_def fork_child_def 0 1 2)
qed

lemma daemonize_2_is_daemonize_and_fork:
  assumes "r_rlimit r \<noteq> None" "r_fork r" "r_fork_again r" "r_sigaction r" "r_chdir r"
  shows "daemonize_2 r p = on_outcome fork_child (daemonize r p)"
proof -
  obtain lim where lim: "r_rlimit r = Some lim" using assms(1) by blast
  have "setsid (fork_child (p\<lparr>dp_umask := 0\<rparr>))\<lparr>dp_hup_ignored := True\<rparr> =
      setsid (fork_child (p\<lparr>dp_umask := 0\<rparr>)\<lparr>dp_hup_ignored := True\<rparr>)"
    by (simp add: setsid_def)
  moreover have "fork_child q\<lparr>dp_cwd := ''/''\<rparr> = fork_child (q\<lparr>dp_cwd := ''/''\<rparr>)" for q
    by (simp add: fork_child_def)
  ultimately show ?thesis
    using assms lim by (simp add: daemonize_def daemonize_2_def Let_def close_and_attach_fork)
qed

text \<open>A daemon that goes on, whatever the system answered.\<close>

lemma daemonize_runs:
  assumes "daemonize r p = Runs q"
  shows "fd_slot (dp_fds q) 0 = Some null_device \<and> fd_slot (dp_fds q) 1 = Some null_device \<and>
    fd_slot (dp_fds q) 2 = Some null_device \<and> dp_umask q = 0 \<and> dp_cwd q = ''/'' \<and> \<not> dp_terminal q"
proof -
  from assms obtain lim t where run: "attach_null r
      (setsid (fork_child (p\<lparr>dp_umask := 0\<rparr>)\<lparr>dp_hup_ignored := True\<rparr>)\<lparr>dp_cwd := ''/'', dp_fds := t\<rparr>) = Runs q"
    by (auto simp: daemonize_def err_quit_def Let_def close_and_attach_def split: option.splits if_splits)
  then have "dp_umask q = 0 \<and> dp_cwd q = ''/'' \<and> \<not> dp_terminal q"
    by (auto simp: attach_null_def setsid_def fork_child_def split: prod.splits if_splits)
  with attach_null_runs [OF run] show ?thesis by simp
qed

end
