(* ===== verification/Daemon_System.thy ===== *)
theory Daemon_System
  imports Daemonize C_Strings Transition_Systems
begin

text \<open>
  Several instances of the daemon of sem_05/lab_03/src/main.c, after \<open>daemonize\<close>: the lock on the pid
  file (\<open>already_running\<close>, \<open>lockfile\<close>), the start of the signal thread, and its loop (\<open>thr_fn\<close>).
  A record lock belongs to a process and the kernel drops it when the process ends. What the system
  answers to a call, which signals come, and when an instance is killed is chosen freely.
\<close>

section \<open>State\<close>

datatype answer = Granted | Refused

datatype dm_loc =
  L_open | L_lock | L_truncate | L_write bool | L_sigaction | L_mask | L_thread | L_run |
  L_gone int | L_killed | L_undefined

datatype log_line =
  Log_open | Log_lock | Log_already_running | Log_sigaction | Log_mask | Log_thread | Log_sigwait |
  Log_hup | Log_term | Log_unexpected int | Log_time

text \<open>\<open>d_noted\<close>: both \<open>ftruncate\<close> and \<open>write\<close> did their work; the code looks at neither result.\<close>

record instance_of_daemon =
  d_pid :: nat
  d_loc :: dm_loc
  d_noted :: bool

record dm_system =
  lock_owner :: "nat option"
  pid_file :: "string option"
  instances :: "instance_of_daemon list"
  dm_log :: "(nat \<times> log_line) list"

definition SIGHUP :: int where "SIGHUP = 1"
definition SIGTERM :: int where "SIGTERM = 15"

section \<open>Steps\<close>

definition goes_to :: "nat \<Rightarrow> instance_of_daemon \<Rightarrow> dm_system \<Rightarrow> dm_system" where
  "goes_to i d s = s\<lparr>instances := (instances s)[i := d]\<rparr>"

text \<open>The end of a process: the kernel closes its descriptors and drops its lock.\<close>

definition leaves :: "nat \<Rightarrow> dm_loc \<Rightarrow> dm_system \<Rightarrow> dm_system" where
  "leaves i l s = (goes_to i ((instances s ! i)\<lparr>d_loc := l\<rparr>) s)
     \<lparr>lock_owner := (if lock_owner s = Some i then None else lock_owner s)\<rparr>"

definition syslog :: "nat \<Rightarrow> log_line \<Rightarrow> dm_system \<Rightarrow> dm_system" where
  "syslog i l s = s\<lparr>dm_log := dm_log s @ [(i, l)]\<rparr>"

definition fails :: "nat \<Rightarrow> log_line \<Rightarrow> dm_system \<Rightarrow> dm_system" where
  "fails i l s = leaves i (L_gone 1) (syslog i l s)"

text \<open>
  \<open>lockfile\<close>: \<open>F_SETLK\<close> with a write lock on the whole file. A lock of another process gives
  \<open>EACCES\<close> or \<open>EAGAIN\<close>, with which \<open>already_running\<close> returns 1; \<open>Refused\<close> is any other error.
\<close>

definition lockfile :: "answer \<Rightarrow> nat \<Rightarrow> instance_of_daemon \<Rightarrow> dm_system \<Rightarrow> dm_system" where
  "lockfile r i d s =
     (if r = Refused then fails i Log_lock s
      else if lock_owner s \<notin> {None, Some i} then fails i Log_already_running s
      else goes_to i (d\<lparr>d_loc := L_truncate\<rparr>) (s\<lparr>lock_owner := Some i\<rparr>))"

text \<open>The pid is printed into \<open>char buf[16]\<close> and written with its final zero byte.\<close>

definition write_pid :: "answer \<Rightarrow> bool \<Rightarrow> nat \<Rightarrow> instance_of_daemon \<Rightarrow> dm_system \<Rightarrow> dm_system" where
  "write_pid r truncated i d s =
     (case put_str (show_nat (d_pid d)) (replicate 16 NUL) of
        None \<Rightarrow> leaves i L_undefined s
      | Some buf \<Rightarrow>
          (let text = takeWhile (\<lambda>c. c \<noteq> NUL) buf @ [NUL];
               old = (case pid_file s of None \<Rightarrow> [] | Some c \<Rightarrow> c) in
           goes_to i (d\<lparr>d_loc := L_sigaction, d_noted := truncated \<and> r = Granted\<rparr>)
             (if r = Granted then s\<lparr>pid_file := Some (text @ drop (length text) old)\<rparr> else s)))"

text \<open>The calls of \<open>already_running\<close>, and those of \<open>main\<close> after it with one pass of its loop.\<close>

definition already_running :: "answer \<Rightarrow> nat \<Rightarrow> dm_system \<Rightarrow> dm_system option" where
  "already_running r i s =
     (let d = instances s ! i in
      case d_loc d of
        L_open \<Rightarrow> Some (if r = Refused then fails i Log_open s
           else goes_to i (d\<lparr>d_loc := L_lock\<rparr>) (s\<lparr>pid_file := Some (case pid_file s of None \<Rightarrow> [] | Some c \<Rightarrow> c)\<rparr>))
      | L_lock \<Rightarrow> Some (lockfile r i d s)
      | L_truncate \<Rightarrow> Some (goes_to i (d\<lparr>d_loc := L_write (r = Granted)\<rparr>)
           (if r = Granted then s\<lparr>pid_file := Some []\<rparr> else s))
      | L_write truncated \<Rightarrow> Some (write_pid r truncated i d s)
      | _ \<Rightarrow> None)"

definition daemon_exec :: "answer \<Rightarrow> nat \<Rightarrow> dm_system \<Rightarrow> dm_system option" where
  "daemon_exec r i s =
     (let d = instances s ! i in
      case d_loc d of
        L_sigaction \<Rightarrow> Some (if r = Refused then fails i Log_sigaction s else goes_to i (d\<lparr>d_loc := L_mask\<rparr>) s)
      | L_mask \<Rightarrow> Some (if r = Refused then fails i Log_mask s else goes_to i (d\<lparr>d_loc := L_thread\<rparr>) s)
      | L_thread \<Rightarrow> Some (if r = Refused then fails i Log_thread s else goes_to i (d\<lparr>d_loc := L_run\<rparr>) s)
      | L_run \<Rightarrow> Some (syslog i Log_time s)
      | _ \<Rightarrow> already_running r i s)"

text \<open>One pass of \<open>thr_fn\<close> with what \<open>sigwait\<close> returns and stores.\<close>

definition thr_fn :: "int \<Rightarrow> int \<Rightarrow> nat \<Rightarrow> dm_system \<Rightarrow> dm_system" where
  "thr_fn err signo i s =
     (if err \<noteq> 0 then fails i Log_sigwait s
      else if signo = SIGHUP then syslog i Log_hup s
      else if signo = SIGTERM then leaves i (L_gone 0) (syslog i Log_term s)
      else syslog i (Log_unexpected signo) s)"

definition alive :: "dm_loc \<Rightarrow> bool" where
  "alive l = (case l of L_gone c \<Rightarrow> False | L_killed \<Rightarrow> False | L_undefined \<Rightarrow> False | _ \<Rightarrow> True)"

inductive dm_step :: "dm_system \<Rightarrow> dm_system \<Rightarrow> bool" where
  call: "i < length (instances s) \<Longrightarrow> daemon_exec r i s = Some t \<Longrightarrow> dm_step s t"
| signal: "i < length (instances s) \<Longrightarrow> d_loc (instances s ! i) = L_run \<Longrightarrow> dm_step s (thr_fn err signo i s)"
| killed: "i < length (instances s) \<Longrightarrow> alive (d_loc (instances s ! i)) \<Longrightarrow> dm_step s (leaves i L_killed s)"

definition dm_start :: "string option \<Rightarrow> nat list \<Rightarrow> dm_system" where
  "dm_start f pids = \<lparr>lock_owner = None, pid_file = f,
     instances = map (\<lambda>p. \<lparr>d_pid = p, d_loc = L_open, d_noted = False\<rparr>) pids, dm_log = []\<rparr>"

section \<open>The invariant\<close>

definition holds_lock :: "dm_loc \<Rightarrow> bool" where
  "holds_lock l = (case l of L_truncate \<Rightarrow> True | L_write b \<Rightarrow> True | L_sigaction \<Rightarrow> True | L_mask \<Rightarrow> True
     | L_thread \<Rightarrow> True | L_run \<Rightarrow> True | _ \<Rightarrow> False)"

text \<open>What the pid file holds while instance \<open>d\<close> has the lock.\<close>

definition file_as_noted :: "instance_of_daemon \<Rightarrow> string option \<Rightarrow> bool" where
  "file_as_noted d f =
     (case d_loc d of
        L_truncate \<Rightarrow> \<not> d_noted d
      | L_write b \<Rightarrow> \<not> d_noted d \<and> (b \<longrightarrow> f = Some [])
      | _ \<Rightarrow> d_noted d \<longrightarrow> f = Some (show_nat (d_pid d) @ [NUL]))"

definition instance_ok :: "nat option \<Rightarrow> string option \<Rightarrow> nat \<Rightarrow> instance_of_daemon \<Rightarrow> bool" where
  "instance_ok owner f i d \<longleftrightarrow>
     (holds_lock (d_loc d) \<longleftrightarrow> owner = Some i) \<and>
     (holds_lock (d_loc d) \<longrightarrow> file_as_noted d f) \<and>
     (d_loc d \<in> {L_open, L_lock} \<longrightarrow> \<not> d_noted d)"

definition dm_inv :: "nat list \<Rightarrow> dm_system \<Rightarrow> bool" where
  "dm_inv pids s \<longleftrightarrow>
     map d_pid (instances s) = pids \<and>
     (\<forall>i<length pids. instance_ok (lock_owner s) (pid_file s) i (instances s ! i)) \<and>
     (case lock_owner s of None \<Rightarrow> True | Some i \<Rightarrow> i < length pids)"

lemma dm_inv_start: "dm_inv pids (dm_start f pids)"
  by (simp add: dm_inv_def dm_start_def instance_ok_def holds_lock_def comp_def)

text \<open>A step of one instance: it keeps its own part, and leaves the owner and the file to the owner.\<close>

lemma dm_inv_change:
  assumes inv: "dm_inv pids s" and i: "i < length pids"
    and t: "instances t = (instances s)[i := d]" "d_pid d = d_pid (instances s ! i)"
    and ok: "instance_ok (lock_owner t) (pid_file t) i d"
    and owner: "lock_owner t = lock_owner s \<or> lock_owner s = None \<and> lock_owner t = Some i \<or>
      lock_owner s = Some i \<and> lock_owner t = None"
    and stored: "pid_file t = pid_file s \<or> lock_owner s = Some i \<or>
      (\<exists>c. pid_file s = None \<and> pid_file t = Some c)"
  shows "dm_inv pids t"
proof -
  have len: "length (instances s) = length pids"
    using inv by (auto simp: dm_inv_def)
  have "instance_ok (lock_owner t) (pid_file t) j (instances t ! j)" if j: "j < length pids" for j
  proof (cases "j = i")
    case True
    then show ?thesis using ok t len i by simp
  next
    case False
    have old: "instance_ok (lock_owner s) (pid_file s) j (instances s ! j)"
      using inv j by (simp add: dm_inv_def)
    show ?thesis
    proof (cases "lock_owner s = Some j")
      case True
      with owner False have "lock_owner t = Some j" by auto
      moreover have "pid_file t = pid_file s \<or> pid_file s = None" using stored True False by auto
      ultimately show ?thesis
        using old True False t
        by (auto simp: instance_ok_def file_as_noted_def holds_lock_def split: dm_loc.splits)
    next
      case nj: False
      with owner False have "lock_owner t \<noteq> Some j" by auto
      with nj old False t show ?thesis by (auto simp: instance_ok_def)
    qed
  qed
  moreover have "map d_pid (instances t) = pids"
    using inv t i len nth_map [of i "instances s" d_pid]
    by (simp add: dm_inv_def map_update list_update_same_conv)
  moreover have "case lock_owner t of None \<Rightarrow> True | Some i \<Rightarrow> i < length pids"
    using inv owner i by (auto simp: dm_inv_def split: option.splits)
  ultimately show ?thesis by (simp add: dm_inv_def)
qed

lemma dm_inv_at:
  assumes "dm_inv pids s" "i < length (instances s)"
  shows "i < length pids" "instance_ok (lock_owner s) (pid_file s) i (instances s ! i)"
  using assms by (auto simp: dm_inv_def)

lemma leaves_inv:
  assumes inv: "dm_inv pids s" and i: "i < length (instances s)" and l: "\<not> holds_lock l" "l \<notin> {L_open, L_lock}"
  shows "dm_inv pids (leaves i l s)"
proof -
  note at = dm_inv_at [OF inv i]
  show ?thesis
    by (rule dm_inv_change [OF inv at(1), where d = "(instances s ! i)\<lparr>d_loc := l\<rparr>"])
      (use at(2) l in \<open>auto simp: leaves_def goes_to_def instance_ok_def\<close>)
qed

lemma syslog_inv [simp]: "dm_inv pids (syslog i l s) \<longleftrightarrow> dm_inv pids s"
  "instances (syslog i l s) = instances s" "lock_owner (syslog i l s) = lock_owner s"
  "pid_file (syslog i l s) = pid_file s"
  by (simp_all add: syslog_def dm_inv_def)

lemma fails_inv: "dm_inv pids s \<Longrightarrow> i < length (instances s) \<Longrightarrow> dm_inv pids (fails i l s)"
  by (simp add: fails_def leaves_inv holds_lock_def)

lemma thr_fn_inv: "dm_inv pids s \<Longrightarrow> i < length (instances s) \<Longrightarrow> dm_inv pids (thr_fn err signo i s)"
  by (simp add: thr_fn_def fails_inv leaves_inv holds_lock_def)

lemma goes_to_inv:
  assumes inv: "dm_inv pids s" and i: "i < length (instances s)"
    and d: "d_pid d = d_pid (instances s ! i)" "instance_ok (lock_owner s) (pid_file s) i d"
  shows "dm_inv pids (goes_to i d s)"
  by (rule dm_inv_change [OF inv dm_inv_at(1) [OF inv i], where d = d])
    (use d in \<open>auto simp: goes_to_def\<close>)

lemmas instance_views = instance_ok_def holds_lock_def file_as_noted_def goes_to_def

lemma lockfile_inv:
  assumes inv: "dm_inv pids s" and i: "i < length (instances s)" and L_lock: "d_loc (instances s ! i) = L_lock"
  shows "dm_inv pids (lockfile r i (instances s ! i) s)"
proof -
  let ?d = "instances s ! i"
  note at = dm_inv_at [OF inv i]
  note change = dm_inv_change [OF inv at(1)] and failed = fails_inv [OF inv i]
  show ?thesis
  proof (cases "r = Refused \<or> lock_owner s \<notin> {None, Some i}")
    case True
    then show ?thesis using failed by (auto simp: lockfile_def)
  next
    case False
    then show ?thesis
      by (intro change [where d = "?d\<lparr>d_loc := L_truncate\<rparr>"])
        (use at(2) L_lock in \<open>auto simp: lockfile_def instance_views\<close>)
  qed
qed

lemma write_pid_inv:
  assumes inv: "dm_inv pids s" and i: "i < length (instances s)" and L_write: "d_loc (instances s ! i) = L_write b"
  shows "dm_inv pids (write_pid r b i (instances s ! i) s)"
proof -
  let ?d = "instances s ! i"
  note at = dm_inv_at [OF inv i]
  note change = dm_inv_change [OF inv at(1)] and failed = fails_inv [OF inv i]
  show ?thesis
  proof (cases "put_str (show_nat (d_pid ?d)) (replicate 16 NUL)")
    case None
    then show ?thesis using leaves_inv [OF inv i] by (simp add: write_pid_def holds_lock_def)
  next
    case (Some buf)
    from c_str_put_str [OF this show_nat_no_NUL]
    have "takeWhile (\<lambda>c. c \<noteq> NUL) buf = show_nat (d_pid ?d)"
      by (simp add: c_str_def split: if_splits)
    with Some show ?thesis
      by (intro change [where d = "?d\<lparr>d_loc := L_sigaction, d_noted := b \<and> r = Granted\<rparr>"])
        (use at(2) L_write in \<open>auto simp: write_pid_def Let_def instance_views\<close>)
  qed
qed

lemma daemon_exec_inv:
  assumes inv: "dm_inv pids s" and i: "i < length (instances s)" and run: "daemon_exec r i s = Some t"
  shows "dm_inv pids t"
proof -
  let ?d = "instances s ! i"
  note at = dm_inv_at [OF inv i]
  note change = dm_inv_change [OF inv at(1)] and failed = fails_inv [OF inv i]
  show ?thesis
  proof (cases "d_loc ?d")
    case L_open
    show ?thesis
    proof (cases "r = Refused")
      case True
      with L_open run failed show ?thesis by (auto simp: daemon_exec_def already_running_def Let_def)
    next
      case False
      with L_open run show ?thesis
        by (intro change [where d = "?d\<lparr>d_loc := L_lock\<rparr>"])
          (use at(2) L_open in \<open>auto simp: daemon_exec_def already_running_def Let_def instance_views split: option.splits\<close>)
    qed
  next
    case L_lock
    then have t: "t = lockfile r i ?d s" using run by (simp add: daemon_exec_def already_running_def Let_def)
    from lockfile_inv [OF inv i L_lock] show ?thesis by (simp add: t)
  next
    case L_truncate
    with run show ?thesis
      by (intro change [where d = "?d\<lparr>d_loc := L_write (r = Granted)\<rparr>"])
        (use at(2) L_truncate in \<open>cases r; auto simp: daemon_exec_def already_running_def Let_def instance_views\<close>)+
  next
    case (L_write b)
    then have t: "t = write_pid r b i ?d s" using run by (simp add: daemon_exec_def already_running_def Let_def)
    from write_pid_inv [OF inv i L_write] show ?thesis by (simp add: t)
  next
    case L_sigaction
    with run failed goes_to_inv [OF inv i, of "?d\<lparr>d_loc := L_mask\<rparr>"] at(2) show ?thesis
      by (auto simp: daemon_exec_def already_running_def Let_def instance_views split: if_splits)
  next
    case L_mask
    with run failed goes_to_inv [OF inv i, of "?d\<lparr>d_loc := L_thread\<rparr>"] at(2) show ?thesis
      by (auto simp: daemon_exec_def already_running_def Let_def instance_views split: if_splits)
  next
    case L_thread
    with run failed goes_to_inv [OF inv i, of "?d\<lparr>d_loc := L_run\<rparr>"] at(2) show ?thesis
      by (auto simp: daemon_exec_def already_running_def Let_def instance_views split: if_splits)
  qed (use run inv in \<open>auto simp: daemon_exec_def already_running_def Let_def\<close>)
qed

lemma dm_step_inv:
  assumes "dm_inv pids s" "dm_step s t"
  shows "dm_inv pids t"
  using assms(2)
proof (cases rule: dm_step.cases)
  case (call i r)
  then show ?thesis using daemon_exec_inv [OF assms(1)] by blast
next
  case (signal i err signo)
  then show ?thesis using thr_fn_inv [OF assms(1)] by simp
next
  case (killed i)
  then show ?thesis using leaves_inv [OF assms(1)] by (simp add: holds_lock_def)
qed

interpretation dm: invariant_system "dm_start f pids" dm_step "dm_inv pids" for f pids
  by unfold_locales (use dm_inv_start dm_step_inv in blast)+

section \<open>A start, a second start, and the end\<close>

text \<open>The calls of one instance when the system grants them all and nobody else moves.\<close>

fun run_calls :: "nat \<Rightarrow> nat \<Rightarrow> dm_system \<Rightarrow> dm_system option" where
  "run_calls 0 i s = Some s"
| "run_calls (Suc k) i s =
     (case daemon_exec Granted i s of None \<Rightarrow> None | Some t \<Rightarrow> run_calls k i t)"

lemma pid_fits: "pid < 10 ^ 15 \<Longrightarrow> \<exists>buf. put_str (show_nat pid) (replicate 16 NUL) = Some buf \<and>
    takeWhile (\<lambda>c. c \<noteq> NUL) buf = show_nat pid"
proof -
  assume "pid < 10 ^ 15"
  then have "length (show_nat pid) < length (replicate 16 NUL)"
    using show_digits_le [of pid 15] by (simp add: length_show_nat)
  then obtain buf where buf: "put_str (show_nat pid) (replicate 16 NUL) = Some buf"
    using put_str_fits by blast
  from c_str_put_str [OF this show_nat_no_NUL] have "takeWhile (\<lambda>c. c \<noteq> NUL) buf = show_nat pid"
    by (simp add: c_str_def split: if_splits)
  with buf show ?thesis by blast
qed

lemma length_instances_exec [simp]:
  "daemon_exec r i s = Some t \<Longrightarrow> length (instances t) = length (instances s)"
  by (auto simp: daemon_exec_def already_running_def Let_def goes_to_def fails_def leaves_def lockfile_def write_pid_def syslog_def
      split: dm_loc.splits if_splits option.splits)

lemma run_calls_steps:
  "run_calls k i s = Some t \<Longrightarrow> i < length (instances s) \<Longrightarrow> dm_step\<^sup>*\<^sup>* s t"
proof (induction k arbitrary: s)
  case 0
  then show ?case by simp
next
  case (Suc k)
  then obtain u where u: "daemon_exec Granted i s = Some u" "run_calls k i u = Some t"
    by (auto split: option.splits)
  with Suc.prems have "dm_step s u" by (auto intro: dm_step.call)
  moreover have "dm_step\<^sup>*\<^sup>* u t" using Suc.IH u Suc.prems by simp
  ultimately show ?case by (rule converse_rtranclp_into_rtranclp)
qed

text \<open>Nobody has the lock: an instance comes up and its pid is in the file.\<close>

lemma start_succeeds:
  assumes i: "i < length (instances s)" "d_loc (instances s ! i) = L_open"
    and free: "lock_owner s = None" and pid: "d_pid (instances s ! i) < 10 ^ 15"
  shows "\<exists>t. run_calls 7 i s = Some t \<and> d_loc (instances t ! i) = L_run \<and> d_noted (instances t ! i) \<and>
    length (instances t) = length (instances s) \<and> lock_owner t = Some i \<and>
    pid_file t = Some (show_nat (d_pid (instances s ! i)) @ [NUL]) \<and> dm_log t = dm_log s \<and>
    (\<forall>j. j \<noteq> i \<longrightarrow> instances t ! j = instances s ! j)"
proof -
  obtain buf where buf: "put_str (show_nat (d_pid (instances s ! i))) (replicate 16 NUL) = Some buf"
    "takeWhile (\<lambda>c. c \<noteq> NUL) buf = show_nat (d_pid (instances s ! i))"
    using pid_fits [OF pid] by blast
  show ?thesis
    using i free buf
    by (simp add: numeral_eq_Suc daemon_exec_def already_running_def Let_def goes_to_def lockfile_def write_pid_def)
qed

text \<open>Somebody has the lock: the instance logs that, exits with 1, and nothing else changes.\<close>

lemma second_start_exits:
  assumes i: "i < length (instances s)" "d_loc (instances s ! i) = L_lock"
    and taken: "lock_owner s = Some j" "j \<noteq> i"
  shows "\<exists>t. daemon_exec Granted i s = Some t \<and> d_loc (instances t ! i) = L_gone 1 \<and>
    lock_owner t = Some j \<and> pid_file t = pid_file s \<and> dm_log t = dm_log s @ [(i, Log_already_running)] \<and>
    (\<forall>k. k \<noteq> i \<longrightarrow> instances t ! k = instances s ! k)"
  using assms by (simp add: daemon_exec_def already_running_def Let_def lockfile_def fails_def leaves_def goes_to_def syslog_def)

text \<open>The loop of \<open>thr_fn\<close> over what \<open>sigwait\<close> returns, until the process has ended.\<close>

fun thr_fn_loop :: "nat \<Rightarrow> (int \<times> int) list \<Rightarrow> dm_system \<Rightarrow> dm_system" where
  "thr_fn_loop i [] s = s"
| "thr_fn_loop i ((err, signo) # ws) s =
     (let t = thr_fn err signo i s in
      if alive (d_loc (instances t ! i)) then thr_fn_loop i ws t else t)"

definition logged_as :: "int \<Rightarrow> log_line" where
  "logged_as signo = (if signo = SIGHUP then Log_hup else if signo = SIGTERM then Log_term else Log_unexpected signo)"

lemma thr_fn_loop_signals:
  fixes sigs :: "int list"
  assumes "i < length (instances s)" "d_loc (instances s ! i) = L_run" "lock_owner s = Some i"
  defines "t \<equiv> thr_fn_loop i (map (Pair 0) sigs) s"
  shows "d_loc (instances t ! i) = (if SIGTERM \<in> set sigs then L_gone 0 else L_run) \<and>
    lock_owner t = (if SIGTERM \<in> set sigs then None else Some i) \<and>
    dm_log t = dm_log s @ map (\<lambda>g. (i, logged_as g)) (takeWhile (\<lambda>g. g \<noteq> SIGTERM) sigs) @
      (if SIGTERM \<in> set sigs then [(i, Log_term)] else [])"
  using assms(1-3) unfolding t_def
proof (induction sigs arbitrary: s)
  case Nil
  then show ?case by simp
next
  case (Cons g sigs)
  show ?case
  proof (cases "g = SIGTERM")
    case True
    with Cons.prems show ?thesis
      by (simp add: thr_fn_def Let_def leaves_def goes_to_def alive_def syslog_def SIGTERM_def SIGHUP_def)
  next
    case False
    then have "thr_fn 0 g i s = syslog i (logged_as g) s"
      by (simp add: thr_fn_def logged_as_def)
    moreover have "alive L_run" by (simp add: alive_def)
    ultimately show ?thesis
      using False Cons.prems Cons.IH [of "syslog i (logged_as g) s"]
      by (simp add: Let_def) (simp add: syslog_def)
  qed
qed

end
