(* ===== verification/Daemon_Properties.thy ===== *)
theory Daemon_Properties
  imports Daemon_System
begin

text \<open>
  The properties of the two daemons.
\<close>

section \<open>Detaching\<close>


text \<open>A process started from a shell with five open files, and a system that grants all.\<close>

definition from_shell :: daemon_proc where
  "from_shell = \<lparr>dp_umask = 18, dp_fds = [Some ''/dev/tty'', Some ''/dev/tty'', None, Some ''a'', Some ''b''],
     dp_cwd = ''/home'', dp_session_leader = False, dp_terminal = True, dp_hup_ignored = False,
     dp_parents = [], dp_logged = []\<rparr>"

definition granting :: replies where
  "granting = \<lparr>r_rlimit = Some (Some 1048576), r_fork = True, r_fork_again = True, r_sigaction = True,
     r_chdir = True, r_open_null = True, r_dup = True, r_dup_again = True\<rparr>"

lemma from_shell_fds: "1048576 \<le> j \<Longrightarrow> fd_slot (dp_fds from_shell) j = None"
  by (simp add: from_shell_def fd_slot_def)


text \<open>C26: Where the calls up to \<open>chdir\<close> succeed, the second fork is all that distinguishes
  \<open>daemonize\<close> of sem_06/lab_03/p_2 from that of sem_05/lab_03: the outcome is the same, of a process
  that is not the leader of its session and has one more parent that exited.\<close>

theorem second_fork_is_the_difference:
  assumes "r_rlimit r \<noteq> None" "r_fork r" "r_fork_again r" "r_sigaction r" "r_chdir r"
  shows "daemonize_2 r p = on_outcome fork_child (daemonize r p)"
  using assms by (rule daemonize_2_is_daemonize_and_fork)

lemma second_fork_is_the_difference_witness:
  "daemonize_2 granting from_shell = on_outcome fork_child (daemonize granting from_shell)"
  using second_fork_is_the_difference [of granting from_shell] by (simp add: granting_def)

text \<open>Whatever the system answers, when \<open>daemonize\<close> returns the descriptors 0, 1 and 2 are open on
  /dev/null and the process has left its terminal and its directory.\<close>

theorem daemonize_never_half_done:
  assumes "daemonize r p = Runs q"
  shows "fd_slot (dp_fds q) 0 = Some null_device \<and> fd_slot (dp_fds q) 1 = Some null_device \<and>
    fd_slot (dp_fds q) 2 = Some null_device \<and> dp_umask q = 0 \<and> dp_cwd q = ''/'' \<and> \<not> dp_terminal q"
  using assms by (rule daemonize_runs)

lemma daemonize_never_half_done_witness:
  "\<exists>q. daemonize granting from_shell = Runs q \<and> dp_cwd q = ''/''"
proof -
  obtain q where q: "daemonize granting from_shell = Runs q"
    using daemonize_detached [of granting "Some 1048576" from_shell] from_shell_fds
    by (auto simp: granting_def all_granted_def descriptor_limit_def INT_MAX_def)
  with daemonize_never_half_done [OF q] show ?thesis by simp
qed

section \<open>One daemon at a time\<close>

text \<open>C24: Of any number of instances, started in any interleaving and with any answers, signals and
  kills, at most one has passed \<open>already_running\<close> and is alive, and if its writes succeeded the pid
  file holds exactly its pid.\<close>

theorem one_daemon:
  assumes "dm_step\<^sup>*\<^sup>* (dm_start f pids) s" "i < length pids" "j < length pids"
    and "holds_lock (d_loc (instances s ! i))" "holds_lock (d_loc (instances s ! j))"
  shows "i = j \<and> (d_noted (instances s ! i) \<longrightarrow> pid_file s = Some (show_nat (pids ! i) @ [NUL]))"
proof -
  have inv: "dm_inv pids s" using assms(1) by (rule dm.reachable_inv)
  then have ok: "instance_ok (lock_owner s) (pid_file s) i (instances s ! i)"
    "instance_ok (lock_owner s) (pid_file s) j (instances s ! j)" and pid: "d_pid (instances s ! i) = pids ! i"
    using assms(2,3) by (auto simp: dm_inv_def)
  with assms(4,5) have "i = j" by (simp add: instance_ok_def)
  moreover have "d_noted (instances s ! i) \<Longrightarrow> pid_file s = Some (show_nat (pids ! i) @ [NUL])"
    using ok(1) assms(4) pid
    by (auto simp: instance_ok_def file_as_noted_def holds_lock_def split: dm_loc.splits)
  ultimately show ?thesis by blast
qed

text \<open>Two instances, of which the second comes up.\<close>

lemma second_is_up:
  "\<exists>s. dm_step\<^sup>*\<^sup>* (dm_start None [100, 200]) s \<and> length (instances s) = 2 \<and>
     d_loc (instances s ! 1) = L_run \<and> instances s ! 0 = \<lparr>d_pid = 100, d_loc = L_open, d_noted = False\<rparr> \<and>
     d_noted (instances s ! 1)"
proof -
  let ?s = "dm_start None [100, 200]"
  obtain t where t: "run_calls 7 1 ?s = Some t" "d_loc (instances t ! 1) = L_run" "d_noted (instances t ! 1)"
    "length (instances t) = 2" "instances t ! 0 = \<lparr>d_pid = 100, d_loc = L_open, d_noted = False\<rparr>"
    using start_succeeds [of 1 ?s] by (auto simp: dm_start_def)
  from run_calls_steps [OF t(1)] t show ?thesis by (auto simp: dm_start_def)
qed

lemma one_daemon_witness:
  "\<exists>s. dm_step\<^sup>*\<^sup>* (dm_start None [100, 200]) s \<and> pid_file s = Some (show_nat 200 @ [NUL])"
proof -
  obtain s where s: "dm_step\<^sup>*\<^sup>* (dm_start None [100, 200]) s" "d_loc (instances s ! 1) = L_run"
    "d_noted (instances s ! 1)"
    using second_is_up by blast
  with one_daemon [OF s(1), of 1 1] show ?thesis by (auto simp: holds_lock_def)
qed

text \<open>While an instance has the lock, another one that asks for it logs that a daemon is running
  and exits with 1; the lock, the pid file and every other instance stay as they are.\<close>

theorem second_start_refused:
  assumes "dm_step\<^sup>*\<^sup>* (dm_start f pids) s" "i < length pids" "j < length pids"
    and "holds_lock (d_loc (instances s ! j))" "d_loc (instances s ! i) = L_lock"
  shows "\<exists>t. daemon_exec Granted i s = Some t \<and> d_loc (instances t ! i) = L_gone 1 \<and>
    lock_owner t = Some j \<and> pid_file t = pid_file s \<and> dm_log t = dm_log s @ [(i, Log_already_running)] \<and>
    (\<forall>k. k \<noteq> i \<longrightarrow> instances t ! k = instances s ! k)"
proof (rule second_start_exits)
  have inv: "dm_inv pids s" using assms(1) by (rule dm.reachable_inv)
  show "i < length (instances s)" using inv assms(2) by (auto simp: dm_inv_def)
  show "lock_owner s = Some j" using inv assms(3,4) by (simp add: dm_inv_def instance_ok_def)
  show "j \<noteq> i" using assms(4,5) by (auto simp: holds_lock_def)
qed (rule assms(5))

lemma second_start_refused_witness:
  "\<exists>s t. dm_step\<^sup>*\<^sup>* (dm_start None [100, 200]) s \<and> daemon_exec Granted 0 s = Some t \<and>
     d_loc (instances t ! 0) = L_gone 1"
proof -
  obtain s where s: "dm_step\<^sup>*\<^sup>* (dm_start None [100, 200]) s" "length (instances s) = 2"
    "d_loc (instances s ! 1) = L_run" "instances s ! 0 = \<lparr>d_pid = 100, d_loc = L_open, d_noted = False\<rparr>"
    using second_is_up by blast
  obtain u where u: "daemon_exec Granted 0 s = Some u" "d_loc (instances u ! 0) = L_lock"
    "instances u ! 1 = instances s ! 1"
    using s(2,4) by (auto simp: daemon_exec_def already_running_def Let_def goes_to_def)
  with s(2) have "dm_step s u" by (intro dm_step.call [OF _ u(1)]) simp
  with s(1) have reach: "dm_step\<^sup>*\<^sup>* (dm_start None [100, 200]) u" by (rule rtranclp.rtrancl_into_rtrancl)
  from second_start_refused [OF reach, of 0 1] u s(3) reach show ?thesis by (auto simp: holds_lock_def)
qed

text \<open>Whenever no live instance has the lock, however the earlier ones ended, a new instance whose
  calls are granted comes up, has the lock, and its pid is in the pid file.\<close>

theorem lock_is_reusable:
  assumes "dm_step\<^sup>*\<^sup>* (dm_start f pids) s" "i < length pids" "pids ! i < 10 ^ 15"
    and "\<forall>j<length pids. \<not> holds_lock (d_loc (instances s ! j))" "d_loc (instances s ! i) = L_open"
  shows "\<exists>t. run_calls 7 i s = Some t \<and> d_loc (instances t ! i) = L_run \<and> lock_owner t = Some i \<and>
    pid_file t = Some (show_nat (pids ! i) @ [NUL]) \<and> dm_log t = dm_log s \<and>
    (\<forall>j. j \<noteq> i \<longrightarrow> instances t ! j = instances s ! j)"
proof -
  have inv: "dm_inv pids s" using assms(1) by (rule dm.reachable_inv)
  then have "i < length (instances s)" "d_pid (instances s ! i) = pids ! i" using assms(2) by (auto simp: dm_inv_def)
  moreover have "lock_owner s = None"
    using inv assms(4) by (cases "lock_owner s") (auto simp: dm_inv_def instance_ok_def)
  ultimately show ?thesis using start_succeeds [of i s] assms(3,5) by auto
qed

lemma lock_is_reusable_witness:
  "\<exists>s t. dm_step\<^sup>*\<^sup>* (dm_start None [100, 200]) s \<and> d_loc (instances s ! 1) = L_killed \<and>
     run_calls 7 0 s = Some t \<and> pid_file t = Some (show_nat 100 @ [NUL])"
proof -
  obtain s where s: "dm_step\<^sup>*\<^sup>* (dm_start None [100, 200]) s" "length (instances s) = 2"
    "d_loc (instances s ! 1) = L_run" "instances s ! 0 = \<lparr>d_pid = 100, d_loc = L_open, d_noted = False\<rparr>"
    using second_is_up by blast
  let ?u = "leaves 1 L_killed s"
  have "dm_step s ?u" using s(2,3) by (intro dm_step.killed) (simp_all add: alive_def)
  with s(1) have reach: "dm_step\<^sup>*\<^sup>* (dm_start None [100, 200]) ?u" by (rule rtranclp.rtrancl_into_rtrancl)
  have u: "instances ?u ! 1 = (instances s ! 1)\<lparr>d_loc := L_killed\<rparr>" "instances ?u ! 0 = instances s ! 0"
    using s(2) by (simp_all add: leaves_def goes_to_def)
  have "\<forall>j<length [100, 200::nat]. \<not> holds_lock (d_loc (instances ?u ! j))"
    using u s(4) by (auto simp: less_Suc_eq holds_lock_def)
  with lock_is_reusable [OF reach, of 0] s(4) u
  obtain t where "run_calls 7 0 ?u = Some t" "pid_file t = Some (show_nat 100 @ [NUL])"
    by auto
  with reach u(1) show ?thesis by auto
qed

text \<open>A running daemon logs every signal it receives and goes on, until SIGTERM, on which it exits
  with 0 and gives up the lock; later signals find no process.\<close>

theorem signals_handled:
  fixes sigs :: "int list"
  assumes "dm_step\<^sup>*\<^sup>* (dm_start f pids) s" "i < length pids" "d_loc (instances s ! i) = L_run"
  defines "t \<equiv> thr_fn_loop i (map (Pair 0) sigs) s"
  shows "d_loc (instances t ! i) = (if SIGTERM \<in> set sigs then L_gone 0 else L_run) \<and>
    lock_owner t = (if SIGTERM \<in> set sigs then None else Some i) \<and>
    dm_log t = dm_log s @ map (\<lambda>g. (i, logged_as g)) (takeWhile (\<lambda>g. g \<noteq> SIGTERM) sigs) @
      (if SIGTERM \<in> set sigs then [(i, Log_term)] else [])"
proof -
  have inv: "dm_inv pids s" using assms(1) by (rule dm.reachable_inv)
  then have "i < length (instances s)" "instance_ok (lock_owner s) (pid_file s) i (instances s ! i)"
    using assms(2) by (auto simp: dm_inv_def)
  then show ?thesis
    using thr_fn_loop_signals [of i s sigs] assms(3) unfolding t_def
    by (simp add: instance_ok_def holds_lock_def)
qed

lemma signals_handled_witness:
  "\<exists>s. dm_step\<^sup>*\<^sup>* (dm_start None [100, 200]) s \<and>
     d_loc (instances (thr_fn_loop 1 (map (Pair 0) [1, 2, 15, 1]) s) ! 1) = L_gone 0"
proof -
  obtain s where s: "dm_step\<^sup>*\<^sup>* (dm_start None [100, 200]) s" "d_loc (instances s ! 1) = L_run"
    using second_is_up by blast
  with signals_handled [OF s(1), of 1 "[1, 2, 15, 1]"] show ?thesis by (auto simp: SIGTERM_def)
qed

end
