(* ===== verification/Fork_Tasks.thy ===== *)
theory Fork_Tasks
  imports Transition_Systems
begin

text \<open>
  The fork tasks of sem_05/lab_02 (task_01.c to task_05.c): a parent with two children, which prints
  the end of each child it waits for, and in the last two tasks reads their messages from a pipe. One
  machine with a configuration models the five programs: every task is the machine at its own
  configuration. Which process moves, which child \<open>wait\<close> returns, when the signal comes and when
  \<open>pipe\<close> or \<open>fork\<close> fails is chosen freely. What is printed is kept as values.
\<close>

unbundle bit_operations_syntax

section \<open>Exit statuses\<close>

text \<open>The macros of sys/wait.h.\<close>

definition WTERMSIG :: "u32 \<Rightarrow> u32" where
  "WTERMSIG st = st AND 0x7F"

definition WEXITSTATUS :: "u32 \<Rightarrow> u32" where
  "WEXITSTATUS st = drop_bit 8 (st AND 0xFF00)"

definition WIFEXITED :: "u32 \<Rightarrow> bool" where
  "WIFEXITED st \<longleftrightarrow> WTERMSIG st = 0"

definition WIFSIGNALED :: "u32 \<Rightarrow> bool" where
  "WIFSIGNALED st \<longleftrightarrow> 0 < sint (signed_drop_bit 1 (ucast ((st AND 0x7F) + 1) :: 8 word))"

definition WIFSTOPPED :: "u32 \<Rightarrow> bool" where
  "WIFSTOPPED st \<longleftrightarrow> st AND 0xFF = 0x7F"

datatype verdict = Exit_code u32 | By_signal u32 | Stopped_by u32 | No_line

text \<open>The analysis of a status in the loop over \<open>wait\<close>.\<close>

definition analyse :: "u32 \<Rightarrow> verdict" where
  "analyse st =
     (if WIFEXITED st then Exit_code (WEXITSTATUS st)
      else if WIFSIGNALED st then By_signal (WTERMSIG st)
      else if WIFSTOPPED st then Stopped_by (WEXITSTATUS st)
      else No_line)"

text \<open>What the kernel stores for a child that exits, and for one that a signal kills.\<close>

definition exit_status :: "u32 \<Rightarrow> u32" where
  "exit_status c = push_bit 8 (c AND 0xFF)"

definition SIGPIPE_status :: u32 where
  "SIGPIPE_status = 13"

section \<open>State\<close>

datatype child_loc = C_unborn | C_start | C_body | C_zombie | C_reaped

record ft_child =
  c_loc :: child_loc
  c_flag :: bool
  c_status :: u32
  c_ppid :: "nat list"

datatype parent_at = F_pipe | F_fork nat | F_wait nat | F_read | F_done int

text \<open>
  \<open>ft_reports\<close>: for each child that \<open>wait\<close> returned its number, the status printed, and the
  analysis printed. \<open>ft_text\<close>: what the parent read. \<open>ft_writers\<close>: who wrote, in this order.
\<close>

record ft_state =
  ft_at :: parent_at
  ft_flag :: bool
  ft_children :: "ft_child list"
  ft_pipe :: string
  ft_writers :: "nat list"
  ft_text :: string
  ft_reports :: "(nat \<times> u32 \<times> verdict) list"

text \<open>
  What distinguishes the tasks: whether the parent waits; whether the children sleep and print their
  parent again; the messages, if there is a pipe; whether a message is sent only after the signal; and
  the exit codes of the children.
\<close>

record ft_config =
  cfg_waits :: bool
  cfg_sleeps :: bool
  cfg_messages :: "string list option"
  cfg_on_signal :: bool
  cfg_codes :: "u32 list"

datatype move = Parent | Parent_fails | Child nat | Reap nat | Signal_parent | Signal_child nat

section \<open>Steps\<close>

definition put_child :: "nat \<Rightarrow> ft_child \<Rightarrow> ft_state \<Rightarrow> ft_state" where
  "put_child j c s = s\<lparr>ft_children := (ft_children s)[j := c]\<rparr>"

text \<open>\<open>getppid\<close> of a child: 2 stands for the parent, 1 is the process that adopts orphans.\<close>

definition getppid :: "ft_state \<Rightarrow> nat" where
  "getppid s = (case ft_at s of F_done c \<Rightarrow> 1 | _ \<Rightarrow> 2)"

definition after_fork :: "ft_config \<Rightarrow> parent_at" where
  "after_fork cfg = (if cfg_waits cfg then F_wait 0 else F_done 0)"

text \<open>The parent: \<open>pipe\<close>, the loop over \<open>fork\<close>, and the read once all children have been waited for.\<close>

definition parent_exec :: "ft_config \<Rightarrow> ft_state \<Rightarrow> ft_state option" where
  "parent_exec cfg s =
     (case ft_at s of
        F_pipe \<Rightarrow> Some (s\<lparr>ft_at := F_fork 0\<rparr>)
      | F_fork k \<Rightarrow> Some (if k < 2
          then (put_child k ((ft_children s ! k)\<lparr>c_loc := C_start, c_flag := ft_flag s\<rparr>) s)\<lparr>ft_at := F_fork (k + 1)\<rparr>
          else s\<lparr>ft_at := after_fork cfg\<rparr>)
      | F_wait k \<Rightarrow> if k < 2 then None
          else Some (s\<lparr>ft_at := (if cfg_messages cfg = None then F_done 0 else F_read)\<rparr>)
      | F_read \<Rightarrow> Some (s\<lparr>ft_text := take 64 (ft_pipe s), ft_pipe := drop 64 (ft_pipe s), ft_at := F_done 0\<rparr>)
      | F_done c \<Rightarrow> None)"

definition parent_fails :: "ft_state \<Rightarrow> ft_state option" where
  "parent_fails s =
     (case ft_at s of
        F_pipe \<Rightarrow> Some (s\<lparr>ft_at := F_done 1\<rparr>)
      | F_fork k \<Rightarrow> if k < 2 then Some (s\<lparr>ft_at := F_done 1\<rparr>) else None
      | _ \<Rightarrow> None)"

text \<open>
  One pass of the loop over \<open>wait\<close>: \<open>wait\<close> stores the status in \<open>status\<close>, which is printed; what is
  analysed is \<open>statval\<close>, which is 0.
\<close>

definition reap :: "nat \<Rightarrow> ft_state \<Rightarrow> ft_state option" where
  "reap j s =
     (case ft_at s of
        F_wait k \<Rightarrow>
          if k < 2 \<and> j < 2 \<and> c_loc (ft_children s ! j) = C_zombie
          then (let c = ft_children s ! j; status = c_status c; statval = 0 in
            Some ((put_child j (c\<lparr>c_loc := C_reaped\<rparr>) s)
              \<lparr>ft_at := F_wait (k + 1), ft_reports := ft_reports s @ [(j, status, analyse statval)]\<rparr>))
          else None
      | _ \<Rightarrow> None)"

text \<open>
  A child. A write to the pipe after the parent is gone finds no reader and SIGPIPE ends the child:
  that happens only when a later \<open>fork\<close> failed, so no other child has the read end open.
\<close>

definition child_ends :: "nat \<Rightarrow> ft_child \<Rightarrow> u32 \<Rightarrow> ft_state \<Rightarrow> ft_state" where
  "child_ends j c st s = put_child j (c\<lparr>c_loc := C_zombie, c_status := st\<rparr>) s"

definition child_exec :: "ft_config \<Rightarrow> nat \<Rightarrow> ft_state \<Rightarrow> ft_state option" where
  "child_exec cfg j s =
     (if j < 2 then
        (let c = ft_children s ! j; status = exit_status (cfg_codes cfg ! j) in
         case c_loc c of
           C_start \<Rightarrow> Some (put_child j (c\<lparr>c_loc := C_body, c_ppid := c_ppid c @ [getppid s]\<rparr>) s)
         | C_body \<Rightarrow> Some
             (case cfg_messages cfg of
                None \<Rightarrow> child_ends j (if cfg_sleeps cfg then c\<lparr>c_ppid := c_ppid c @ [getppid s]\<rparr> else c) status s
              | Some mes \<Rightarrow>
                  if cfg_on_signal cfg \<and> \<not> c_flag c then child_ends j c status s
                  else if getppid s = 1 then child_ends j c SIGPIPE_status s
                  else child_ends j c status
                    (s\<lparr>ft_pipe := ft_pipe s @ mes ! j, ft_writers := ft_writers s @ [j]\<rparr>))
         | _ \<Rightarrow> None)
      else None)"

text \<open>\<open>catch_sig\<close> in the parent (after \<open>signal\<close>) and in a child; a repetition changes nothing.\<close>

definition signal_parent :: "ft_config \<Rightarrow> ft_state \<Rightarrow> ft_state option" where
  "signal_parent cfg s =
     (if cfg_on_signal cfg \<and> \<not> ft_flag s \<and> ft_at s \<noteq> F_pipe \<and> getppid s = 2 then Some (s\<lparr>ft_flag := True\<rparr>)
      else None)"

definition signal_child :: "ft_config \<Rightarrow> nat \<Rightarrow> ft_state \<Rightarrow> ft_state option" where
  "signal_child cfg j s =
     (if cfg_on_signal cfg \<and> j < 2 \<and> \<not> c_flag (ft_children s ! j) \<and> c_loc (ft_children s ! j) \<in> {C_start, C_body}
      then Some (put_child j ((ft_children s ! j)\<lparr>c_flag := True\<rparr>) s) else None)"

fun ft_exec :: "ft_config \<Rightarrow> move \<Rightarrow> ft_state \<Rightarrow> ft_state option" where
  "ft_exec cfg Parent s = parent_exec cfg s"
| "ft_exec cfg Parent_fails s = parent_fails s"
| "ft_exec cfg (Child j) s = child_exec cfg j s"
| "ft_exec cfg (Reap j) s = reap j s"
| "ft_exec cfg Signal_parent s = signal_parent cfg s"
| "ft_exec cfg (Signal_child j) s = signal_child cfg j s"

definition new_child :: ft_child where
  "new_child = \<lparr>c_loc = C_unborn, c_flag = False, c_status = 0, c_ppid = []\<rparr>"

definition ft_init :: "ft_config \<Rightarrow> ft_state" where
  "ft_init cfg = \<lparr>ft_at = (if cfg_messages cfg = None then F_fork 0 else F_pipe), ft_flag = False,
     ft_children = [new_child, new_child], ft_pipe = [], ft_writers = [], ft_text = [], ft_reports = []\<rparr>"

section \<open>The tasks\<close>

text \<open>The children of task_03.c run p_1.out and p_2.out, whose exit codes are arguments.\<close>

definition config_01 :: ft_config where
  "config_01 = \<lparr>cfg_waits = False, cfg_sleeps = True, cfg_messages = None, cfg_on_signal = False, cfg_codes = [0, 0]\<rparr>"

definition config_02 :: ft_config where
  "config_02 = \<lparr>cfg_waits = True, cfg_sleeps = False, cfg_messages = None, cfg_on_signal = False, cfg_codes = [0, 0]\<rparr>"

definition config_03 :: "u32 \<Rightarrow> u32 \<Rightarrow> ft_config" where
  "config_03 c1 c2 = \<lparr>cfg_waits = True, cfg_sleeps = False, cfg_messages = None, cfg_on_signal = False, cfg_codes = [c1, c2]\<rparr>"

definition config_04 :: ft_config where
  "config_04 = \<lparr>cfg_waits = True, cfg_sleeps = False,
     cfg_messages = Some [''first message'' @ [CHR 0x0A], ''aaa'' @ [CHR 0x0A]],
     cfg_on_signal = False, cfg_codes = [0, 0]\<rparr>"

definition config_05 :: ft_config where
  "config_05 = \<lparr>cfg_waits = True, cfg_sleeps = False,
     cfg_messages = Some [''aaaaaaaaa'' @ [CHR 0x0A], ''bbb'' @ [CHR 0x0A]],
     cfg_on_signal = True, cfg_codes = [0, 0]\<rparr>"

definition fork_task_01 :: "move \<Rightarrow> ft_state \<Rightarrow> ft_state option" where
  "fork_task_01 = ft_exec config_01"

definition fork_task_02 :: "move \<Rightarrow> ft_state \<Rightarrow> ft_state option" where
  "fork_task_02 = ft_exec config_02"

definition fork_task_03 :: "u32 \<Rightarrow> u32 \<Rightarrow> move \<Rightarrow> ft_state \<Rightarrow> ft_state option" where
  "fork_task_03 c1 c2 = ft_exec (config_03 c1 c2)"

definition fork_task_04 :: "move \<Rightarrow> ft_state \<Rightarrow> ft_state option" where
  "fork_task_04 = ft_exec config_04"

definition fork_task_05 :: "move \<Rightarrow> ft_state \<Rightarrow> ft_state option" where
  "fork_task_05 = ft_exec config_05"

section \<open>Statuses\<close>

lemma analyse_exit_status: "analyse (exit_status c) = Exit_code (c AND 0xFF)"
proof -
  have masks: "(0x7F :: u32) = mask 7" "(0xFF00 :: u32) = push_bit 8 (mask 8)" "(0xFF :: u32) = mask 8"
    by (simp_all add: mask_eq_exp_minus_1)
  have "WTERMSIG (exit_status c) = 0"
    by (rule bit_word_eqI) (auto simp: WTERMSIG_def exit_status_def masks bit_simps)
  moreover have "WEXITSTATUS (exit_status c) = c AND 0xFF"
    by (rule bit_word_eqI) (auto simp: WEXITSTATUS_def exit_status_def masks bit_simps)
  ultimately show ?thesis by (simp add: analyse_def WIFEXITED_def)
qed

lemma analyse_zero: "analyse 0 = Exit_code 0"
  by (simp add: analyse_def WIFEXITED_def WTERMSIG_def WEXITSTATUS_def)

section \<open>The invariant\<close>

definition running :: "ft_child \<Rightarrow> bool" where
  "running c \<longleftrightarrow> c_loc c = C_start \<or> c_loc c = C_body"

definition ended :: "ft_child \<Rightarrow> bool" where
  "ended c \<longleftrightarrow> c_loc c = C_zombie \<or> c_loc c = C_reaped"

definition reaped :: "ft_child \<Rightarrow> nat" where
  "reaped c = (if c_loc c = C_reaped then 1 else 0)"

text \<open>Where the parent is and where its children \<open>a\<close> and \<open>b\<close> are.\<close>

definition place_ok :: "ft_config \<Rightarrow> parent_at \<Rightarrow> ft_child \<Rightarrow> ft_child \<Rightarrow> bool" where
  "place_ok cfg p a b \<longleftrightarrow>
     (case p of
        F_pipe \<Rightarrow> c_loc a = C_unborn \<and> c_loc b = C_unborn
      | F_fork k \<Rightarrow> k \<le> 2 \<and> (c_loc a = C_unborn \<longleftrightarrow> k = 0) \<and> (c_loc b = C_unborn \<longleftrightarrow> k \<le> 1) \<and>
          reaped a + reaped b = 0
      | F_wait k \<Rightarrow> cfg_waits cfg \<and> reaped a + reaped b = k \<and> c_loc a \<noteq> C_unborn \<and> c_loc b \<noteq> C_unborn
      | F_read \<Rightarrow> cfg_messages cfg \<noteq> None \<and> reaped a = 1 \<and> reaped b = 1
      | F_done c \<Rightarrow> (c = 0 \<and> c_loc a \<noteq> C_unborn \<and> c_loc b \<noteq> C_unborn \<and>
            (if cfg_waits cfg then reaped a = 1 \<and> reaped b = 1 else cfg_messages cfg = None)) \<or> c = 1)"

text \<open>While no \<open>fork\<close> has failed: the status of a child that has ended, and whether it has written.\<close>

definition child_ok :: "ft_config \<Rightarrow> nat list \<Rightarrow> nat \<Rightarrow> ft_child \<Rightarrow> bool" where
  "child_ok cfg ws j c \<longleftrightarrow>
     (ended c \<longrightarrow> c_status c = exit_status (cfg_codes cfg ! j)) \<and>
     (j \<in> set ws \<longleftrightarrow> cfg_messages cfg \<noteq> None \<and> ended c \<and> (cfg_on_signal cfg \<longrightarrow> c_flag c))"

definition pipe_ok :: "ft_config \<Rightarrow> ft_state \<Rightarrow> bool" where
  "pipe_ok cfg s \<longleftrightarrow>
     distinct (ft_writers s) \<and> (\<forall>j\<in>set (ft_writers s). j < 2) \<and>
     (case cfg_messages cfg of
        None \<Rightarrow> ft_at s \<noteq> F_pipe \<and> ft_at s \<noteq> F_read
      | Some mes \<Rightarrow> cfg_waits cfg \<and>
          (if ft_at s = F_done 0 then ft_text s = take 64 (concat (map ((!) mes) (ft_writers s)))
           else ft_text s = [] \<and> ft_pipe s = concat (map ((!) mes) (ft_writers s))))"

definition report_ok :: "ft_config \<Rightarrow> nat \<times> u32 \<times> verdict \<Rightarrow> bool" where
  "report_ok cfg r = (case r of (j, st, v) \<Rightarrow> j < 2 \<and> st = exit_status (cfg_codes cfg ! j) \<and> v = Exit_code 0)"

definition ft_inv :: "ft_config \<Rightarrow> ft_state \<Rightarrow> bool" where
  "ft_inv cfg s \<longleftrightarrow>
     (\<exists>a b. ft_children s = [a, b] \<and> place_ok cfg (ft_at s) a b \<and>
        length (ft_reports s) = reaped a + reaped b \<and> distinct (map fst (ft_reports s)) \<and>
        (\<forall>r\<in>set (ft_reports s). c_loc ([a, b] ! fst r) = C_reaped) \<and>
        (ft_at s \<noteq> F_done 1 \<longrightarrow> child_ok cfg (ft_writers s) 0 a \<and> child_ok cfg (ft_writers s) 1 b)) \<and>
     (ft_at s \<noteq> F_done 1 \<longrightarrow> pipe_ok cfg s) \<and>
     list_all (report_ok cfg) (ft_reports s)"

text \<open>A pipe is only used by a parent that waits.\<close>

definition config_ok :: "ft_config \<Rightarrow> bool" where
  "config_ok cfg \<longleftrightarrow> (cfg_messages cfg \<noteq> None \<longrightarrow> cfg_waits cfg)"

definition child_rank :: "ft_child \<Rightarrow> nat" where
  "child_rank c = (if c_flag c then 0 else 1) +
     (case c_loc c of C_unborn \<Rightarrow> 3 | C_start \<Rightarrow> 2 | C_body \<Rightarrow> 1 | _ \<Rightarrow> 0)"

fun parent_at_rank :: "parent_at \<Rightarrow> nat" where
  "parent_at_rank F_pipe = 8"
| "parent_at_rank (F_fork k) = 7 - k"
| "parent_at_rank (F_wait k) = 4 - k"
| "parent_at_rank F_read = 1"
| "parent_at_rank (F_done c) = 0"

definition ft_rank :: "ft_state \<Rightarrow> nat" where
  "ft_rank s = parent_at_rank (ft_at s) + (if ft_flag s then 0 else 1) + sum_list (map child_rank (ft_children s))"

definition ft_final :: "ft_state \<Rightarrow> bool" where
  "ft_final s \<longleftrightarrow> (\<exists>c. ft_at s = F_done c) \<and> list_all (\<lambda>c. \<not> running c) (ft_children s)"

lemma ft_inv_init: "config_ok cfg \<Longrightarrow> ft_inv cfg (ft_init cfg)"
  by (simp add: ft_inv_def ft_init_def place_ok_def child_ok_def pipe_ok_def new_child_def reaped_def
      ended_def config_ok_def split: option.splits)

lemmas ft_ok_defs = place_ok_def child_ok_def pipe_ok_def reaped_def ended_def

lemma ft_invD:
  assumes "ft_inv cfg s" "ft_children s = [a, b]"
  shows "place_ok cfg (ft_at s) a b" "length (ft_reports s) = reaped a + reaped b"
    "distinct (map fst (ft_reports s))" "\<forall>r\<in>set (ft_reports s). c_loc ([a, b] ! fst r) = C_reaped"
    "ft_at s \<noteq> F_done 1 \<Longrightarrow> child_ok cfg (ft_writers s) 0 a"
    "ft_at s \<noteq> F_done 1 \<Longrightarrow> child_ok cfg (ft_writers s) 1 b"
    "ft_at s \<noteq> F_done 1 \<Longrightarrow> pipe_ok cfg s" "list_all (report_ok cfg) (ft_reports s)"
  using assms unfolding ft_inv_def by auto

text \<open>A step that leaves the reports alone.\<close>

lemma ft_inv_same_reports:
  assumes inv: "ft_inv cfg s" and ch: "ft_children s = [a, b]" and t: "ft_children t = [c, d]"
    and reports: "ft_reports t = ft_reports s"
    and same: "c_loc c = C_reaped \<longleftrightarrow> c_loc a = C_reaped" "c_loc d = C_reaped \<longleftrightarrow> c_loc b = C_reaped"
    and place: "place_ok cfg (ft_at t) c d"
    and kids: "ft_at t \<noteq> F_done 1 \<Longrightarrow> child_ok cfg (ft_writers t) 0 c"
      "ft_at t \<noteq> F_done 1 \<Longrightarrow> child_ok cfg (ft_writers t) 1 d"
    and pipe: "ft_at t \<noteq> F_done 1 \<Longrightarrow> pipe_ok cfg t"
  shows "ft_inv cfg t"
proof -
  note D = ft_invD [OF inv ch]
  have "reaped c = reaped a" "reaped d = reaped b" using same by (simp_all add: reaped_def)
  moreover have "c_loc ([c, d] ! fst r) = C_reaped" if "r \<in> set (ft_reports s)" for r
  proof -
    have "fst r < 2" using D(8) that by (auto simp: list_all_iff report_ok_def)
    then show ?thesis using D(4) that same by (auto simp: less_2_cases_iff)
  qed
  ultimately show ?thesis using D t reports place kids pipe unfolding ft_inv_def by auto
qed

text \<open>The loop over \<open>fork\<close>.\<close>

lemma parent_forks_inv:
  assumes inv: "ft_inv cfg s" and cfg: "config_ok cfg" and ch: "ft_children s = [a, b]"
    and at: "ft_at s = F_fork k" and run: "parent_exec cfg s = Some t"
  shows "ft_inv cfg t"
proof -
  note D = ft_invD [OF inv ch]
  note same = ft_inv_same_reports [OF inv ch]
  consider "k = 0" | "k = 1" | "k = 2" using D(1) at by (auto simp: place_ok_def)
  then show ?thesis
  proof cases
    case 1
    let ?a = "a\<lparr>c_loc := C_start, c_flag := ft_flag s\<rparr>"
    have t: "t = s\<lparr>ft_children := [?a, b], ft_at := F_fork 1\<rparr>"
      using run at 1 ch by (simp add: parent_exec_def put_child_def)
    show ?thesis
      by (intro same [of _ ?a b]) (use D at 1 in \<open>auto simp: t ft_ok_defs split: option.splits\<close>)
  next
    case 2
    let ?b = "b\<lparr>c_loc := C_start, c_flag := ft_flag s\<rparr>"
    have t: "t = s\<lparr>ft_children := [a, ?b], ft_at := F_fork 2\<rparr>"
      using run at 2 ch by (simp add: parent_exec_def put_child_def numeral_2_eq_2)
    show ?thesis
      by (intro same [of _ a ?b]) (use D at 2 in \<open>auto simp: t ft_ok_defs split: option.splits\<close>)
  next
    case 3
    then have t: "t = s\<lparr>ft_at := after_fork cfg\<rparr>" using run at by (simp add: parent_exec_def)
    show ?thesis
      by (intro same [of _ a b])
        (use D at 3 ch cfg in \<open>auto simp: t ft_ok_defs after_fork_def config_ok_def split: option.splits\<close>)
  qed
qed

lemma parent_exec_inv:
  assumes inv: "ft_inv cfg s" and cfg: "config_ok cfg" and ch: "ft_children s = [a, b]"
    and run: "parent_exec cfg s = Some t"
  shows "ft_inv cfg t"
proof -
  note D = ft_invD [OF inv ch]
  note same = ft_inv_same_reports [OF inv ch]
  show ?thesis
  proof (cases "ft_at s")
    case F_pipe
    then have "t = s\<lparr>ft_at := F_fork 0\<rparr>" using run by (simp add: parent_exec_def)
    then show ?thesis
      by (intro same [of _ a b]) (use D ch F_pipe in \<open>auto simp: ft_ok_defs split: option.splits\<close>)
  next
    case (F_fork k)
    from parent_forks_inv [OF inv cfg ch this run] show ?thesis .
  next
    case (F_wait k)
    then have t: "t = s\<lparr>ft_at := (if cfg_messages cfg = None then F_done 0 else F_read)\<rparr>" "2 \<le> k"
      using run by (auto simp: parent_exec_def split: if_splits)
    show ?thesis
      by (intro same [of _ a b]) (use D F_wait t(2) ch in \<open>auto simp: t(1) ft_ok_defs split: option.splits if_splits\<close>)
  next
    case F_read
    then have t: "t = s\<lparr>ft_text := take 64 (ft_pipe s), ft_pipe := drop 64 (ft_pipe s), ft_at := F_done 0\<rparr>"
      using run by (simp add: parent_exec_def)
    have "place_ok cfg (F_done 0) a b"
      using D(1) F_read cfg by (auto simp: place_ok_def reaped_def config_ok_def split: if_splits)
    moreover have "pipe_ok cfg t" using D(7) F_read by (simp add: pipe_ok_def t split: option.splits)
    ultimately show ?thesis
      by (intro same [of _ a b]) (use D(5,6) F_read ch in \<open>simp_all add: t\<close>)
  next
    case (F_done c)
    with run show ?thesis by (simp add: parent_exec_def)
  qed
qed

lemma parent_fails_inv:
  assumes inv: "ft_inv cfg s" and ch: "ft_children s = [a, b]" and run: "parent_fails s = Some t"
  shows "ft_inv cfg t"
proof -
  note D = ft_invD [OF inv ch]
  have "t = s\<lparr>ft_at := F_done 1\<rparr>"
    using run by (auto simp: parent_fails_def split: parent_at.splits if_splits)
  then show ?thesis
    by (intro ft_inv_same_reports [OF inv ch, of _ a b]) (use D(1) ch in \<open>simp_all add: place_ok_def\<close>)
qed

lemma place_ok_inside:
  assumes "c_loc a \<notin> {C_unborn, C_reaped}" "c_loc c \<notin> {C_unborn, C_reaped}"
  shows "place_ok cfg p a b = place_ok cfg p c b" "place_ok cfg p b a = place_ok cfg p b c"
  using assms by (simp_all add: place_ok_def reaped_def split: parent_at.split)

lemma running_inside: "running c \<Longrightarrow> c_loc c \<notin> {C_unborn, C_reaped}"
  by (auto simp: running_def)

lemma running_child_ok: "running c \<Longrightarrow> j \<notin> set ws \<Longrightarrow> child_ok cfg ws j c"
  by (auto simp: running_def child_ok_def ended_def)

lemma child_ok_running: "child_ok cfg ws j c \<Longrightarrow> running c \<Longrightarrow> j \<notin> set ws"
  by (auto simp: running_def child_ok_def ended_def)

text \<open>A child that goes on without ending, and one that ends.\<close>

lemma child_changes_inv:
  assumes inv: "ft_inv cfg s" and ch: "ft_children s = [a, b]" and j: "j < 2"
    and c: "running ([a, b] ! j)" "c_loc c \<notin> {C_unborn, C_reaped}"
    and u: "ft_children u = ft_children s" "ft_at u = ft_at s" "ft_reports u = ft_reports s"
    and mine: "ft_at s \<noteq> F_done 1 \<Longrightarrow> j \<notin> set (ft_writers s) \<Longrightarrow> child_ok cfg (ft_writers u) j c"
    and others: "ft_at s \<noteq> F_done 1 \<Longrightarrow> set (ft_writers u) - {j} = set (ft_writers s) - {j}"
    and pipe: "ft_at s \<noteq> F_done 1 \<Longrightarrow> j \<notin> set (ft_writers s) \<Longrightarrow> pipe_ok cfg u"
  shows "ft_inv cfg (put_child j c u)"
proof -
  note D = ft_invD [OF inv ch]
  have notin: "j \<notin> set (ft_writers s)" if "ft_at s \<noteq> F_done 1"
    using D(5,6) that c(1) j by (auto dest: child_ok_running simp: less_2_cases_iff)
  have pipe': "pipe_ok cfg (put_child j c u)" if "ft_at s \<noteq> F_done 1"
    using pipe notin that by (simp add: pipe_ok_def put_child_def split: option.splits)
  have other: "child_ok cfg (ft_writers u) k d"
    if "ft_at s \<noteq> F_done 1" "k \<noteq> j" "child_ok cfg (ft_writers s) k d" for k d
    using others that unfolding child_ok_def by blast
  note same = ft_inv_same_reports [OF inv ch]
  from j consider "j = 0" | "j = 1" by linarith
  then show ?thesis
  proof cases
    case 1
    then have "running a" using c(1) by simp
    then have "place_ok cfg (ft_at s) c b" and "c_loc a \<noteq> C_reaped"
      using D(1) place_ok_inside(1) [OF running_inside c(2)] by (auto simp: running_def)
    then show ?thesis
      by (intro same [of _ c b])
        (use 1 u ch c(2) mine notin pipe' D(6) other in \<open>simp_all add: put_child_def\<close>)
  next
    case 2
    then have "running b" using c(1) by simp
    then have "place_ok cfg (ft_at s) a c" and "c_loc b \<noteq> C_reaped"
      using D(1) place_ok_inside(2) [OF running_inside c(2)] by (auto simp: running_def)
    then show ?thesis
      by (intro same [of _ a c])
        (use 2 u ch c(2) mine notin pipe' D(5) other in \<open>simp_all add: put_child_def\<close>)
  qed
qed

lemma child_moves_inv:
  assumes inv: "ft_inv cfg s" and ch: "ft_children s = [a, b]" and j: "j < 2"
    and c: "running ([a, b] ! j)" "running c"
  shows "ft_inv cfg (put_child j c s)"
  by (rule child_changes_inv [OF inv ch j c(1)])
    (use ft_invD(7) [OF inv ch] c(2) running_inside running_child_ok in auto)

text \<open>The ways in which a child ends: without a write, by SIGPIPE, after its write.\<close>

lemma child_ends_silent_inv:
  assumes inv: "ft_inv cfg s" and ch: "ft_children s = [a, b]" and j: "j < 2" and r: "running ([a, b] ! j)"
    and silent: "cfg_messages cfg = None \<or> cfg_on_signal cfg \<and> \<not> c_flag d"
  shows "ft_inv cfg (child_ends j d (exit_status (cfg_codes cfg ! j)) s)"
  unfolding child_ends_def
  by (intro child_changes_inv [OF inv ch j r] ft_invD(7) [OF inv ch])
    (use silent in \<open>auto simp: child_ok_def ended_def\<close>)

lemma child_sigpipe_inv:
  assumes inv: "ft_inv cfg s" and cfg: "config_ok cfg" and ch: "ft_children s = [a, b]" and j: "j < 2"
    and r: "running ([a, b] ! j)" and m: "cfg_messages cfg \<noteq> None" and gone: "getppid s = 1"
  shows "ft_inv cfg (child_ends j d SIGPIPE_status s)"
proof -
  obtain e where e: "ft_at s = F_done e" using gone by (auto simp: getppid_def split: parent_at.splits)
  have "e = 1"
  proof (rule ccontr)
    assume "e \<noteq> 1"
    with ft_invD(1) [OF inv ch] e have "reaped a = 1 \<and> reaped b = 1"
      using cfg m by (auto simp: place_ok_def config_ok_def split: if_splits)
    then have "c_loc a = C_reaped" "c_loc b = C_reaped" by (simp_all add: reaped_def split: if_splits)
    with r less_2_cases [OF j] show False by (auto simp: running_def)
  qed
  then show ?thesis
    unfolding child_ends_def by (intro child_changes_inv [OF inv ch j r]) (use e in simp_all)
qed

lemma child_writes_inv:
  assumes inv: "ft_inv cfg s" and ch: "ft_children s = [a, b]" and j: "j < 2" and r: "running ([a, b] ! j)"
    and m: "cfg_messages cfg = Some mes" and d: "cfg_on_signal cfg \<longrightarrow> c_flag d" and there: "getppid s \<noteq> 1"
  shows "ft_inv cfg (child_ends j d (exit_status (cfg_codes cfg ! j))
    (s\<lparr>ft_pipe := ft_pipe s @ mes ! j, ft_writers := ft_writers s @ [j]\<rparr>))"
proof -
  let ?u = "s\<lparr>ft_pipe := ft_pipe s @ mes ! j, ft_writers := ft_writers s @ [j]\<rparr>"
  have at: "ft_at s \<noteq> F_done e" for e using there by (auto simp: getppid_def)
  then have "pipe_ok cfg s" using ft_invD(7) [OF inv ch] by blast
  then have "pipe_ok cfg ?u" if "j \<notin> set (ft_writers s)"
    using that \<open>ft_at s \<noteq> F_done 0\<close> m j by (simp add: pipe_ok_def)
  then show ?thesis
    unfolding child_ends_def
    by (intro child_changes_inv [OF inv ch j r]) (use m d in \<open>auto simp: child_ok_def ended_def\<close>)
qed

lemma child_exec_inv:
  assumes inv: "ft_inv cfg s" and cfg: "config_ok cfg" and ch: "ft_children s = [a, b]" and j: "j < 2"
    and run: "child_exec cfg j s = Some t"
  shows "ft_inv cfg t"
proof -
  let ?c = "[a, b] ! j"
  have c: "ft_children s ! j = ?c" by (simp add: ch)
  have r: "running ?c" using run j by (auto simp: child_exec_def c Let_def running_def split: child_loc.splits)
  note ends = child_ends_silent_inv [OF inv ch j r] child_sigpipe_inv [OF inv cfg ch j r]
    child_writes_inv [OF inv ch j r]
  show ?thesis
  proof (cases "c_loc ?c = C_start")
    case True
    then have "t = put_child j (?c\<lparr>c_loc := C_body, c_ppid := c_ppid ?c @ [getppid s]\<rparr>) s"
      using run j by (simp add: child_exec_def c Let_def)
    with True show ?thesis by (auto intro!: child_moves_inv [OF inv ch j] simp: running_def)
  next
    case False
    with r have loc: "c_loc ?c = C_body" by (simp add: running_def)
    show ?thesis
    proof (cases "cfg_messages cfg")
      case None
      then show ?thesis using run j loc ends(1) by (auto simp: child_exec_def c Let_def)
    next
      case (Some mes)
      then show ?thesis using run j loc ends by (auto simp: child_exec_def c Let_def split: if_splits)
    qed
  qed
qed

lemma child_ok_nth:
  "child_ok cfg ws 0 a \<Longrightarrow> child_ok cfg ws 1 b \<Longrightarrow> j < 2 \<Longrightarrow> child_ok cfg ws j ([a, b] ! j)"
  by (auto simp: less_2_cases_iff)

lemma reaped_children:
  assumes "j < 2" "c_loc ([a, b] ! j) = C_zombie" "place_ok cfg (F_wait k) a b"
    "child_ok cfg ws 0 a" "child_ok cfg ws 1 b"
  obtains c d where "[a, b][j := ([a, b] ! j)\<lparr>c_loc := C_reaped\<rparr>] = [c, d]" "place_ok cfg (F_wait (k + 1)) c d"
    "reaped c + reaped d = reaped a + reaped b + 1" "child_ok cfg ws 0 c" "child_ok cfg ws 1 d"
proof (cases "j = 0")
  case True
  then show thesis
    using assms by (intro that [of "a\<lparr>c_loc := C_reaped\<rparr>" b]) (simp_all add: ft_ok_defs)
next
  case False
  with assms(1) have "j = 1" by simp
  then show thesis
    using assms by (intro that [of a "b\<lparr>c_loc := C_reaped\<rparr>"]) (simp_all add: ft_ok_defs)
qed

lemma reap_inv:
  assumes inv: "ft_inv cfg s" and ch: "ft_children s = [a, b]" and run: "reap j s = Some t"
  shows "ft_inv cfg t"
proof -
  note D = ft_invD [OF inv ch]
  let ?c = "[a, b] ! j"
  obtain k where k: "ft_at s = F_wait k" "k < 2" and j: "j < 2" and z: "c_loc ?c = C_zombie"
    using run ch by (auto simp: reap_def split: parent_at.splits if_splits)
  let ?z = "?c\<lparr>c_loc := C_reaped\<rparr>"
  have t: "t = s\<lparr>ft_children := [a, b][j := ?z], ft_at := F_wait (k + 1),
      ft_reports := ft_reports s @ [(j, c_status ?c, analyse 0)]\<rparr>"
    using run k j z ch by (simp add: reap_def Let_def put_child_def)
  have ok: "child_ok cfg (ft_writers s) 0 a" "child_ok cfg (ft_writers s) 1 b" and "pipe_ok cfg s"
    using D(5-7) k by simp_all
  obtain c d where cd: "[a, b][j := ?z] = [c, d]" "place_ok cfg (F_wait (k + 1)) c d"
    "reaped c + reaped d = reaped a + reaped b + 1" "child_ok cfg (ft_writers s) 0 c" "child_ok cfg (ft_writers s) 1 d"
    using reaped_children [OF j z D(1) [unfolded k(1)] ok] by blast
  have new: "j \<notin> fst ` set (ft_reports s)" using D(4) z by auto
  have old: "\<forall>r\<in>set (ft_reports t). c_loc ([c, d] ! fst r) = C_reaped"
    using D(4) j unfolding cd(1) [symmetric]
    by (auto simp: t nth_list_update simp del: list_update.simps split: nat.split)
  have "c_status ?c = exit_status (cfg_codes cfg ! j)"
    using child_ok_nth [OF ok j] z by (simp add: child_ok_def ended_def)
  then have rep: "distinct (map fst (ft_reports t))" "list_all (report_ok cfg) (ft_reports t)"
    using D(3,8) new j by (simp_all add: t report_ok_def analyse_zero)
  have pipe: "pipe_ok cfg t" using \<open>pipe_ok cfg s\<close> k by (simp add: t pipe_ok_def split: option.splits)
  have "ft_children t = [c, d]" "place_ok cfg (ft_at t) c d" "length (ft_reports t) = reaped c + reaped d"
    "child_ok cfg (ft_writers t) 0 c" "child_ok cfg (ft_writers t) 1 d"
    using cd D(2) by (simp_all add: t del: list_update.simps)
  with old rep pipe show ?thesis unfolding ft_inv_def by blast
qed

lemma signal_inv:
  assumes inv: "ft_inv cfg s" and ch: "ft_children s = [a, b]"
  shows "signal_parent cfg s = Some t \<Longrightarrow> ft_inv cfg t" "signal_child cfg j s = Some t \<Longrightarrow> ft_inv cfg t"
proof -
  note D = ft_invD [OF inv ch]
  assume "signal_parent cfg s = Some t"
  then have t: "t = s\<lparr>ft_flag := True\<rparr>" by (auto simp: signal_parent_def split: if_splits)
  have "ft_at s \<noteq> F_done 1 \<Longrightarrow> pipe_ok cfg t" using D(7) by (simp add: t pipe_ok_def split: option.splits)
  then show "ft_inv cfg t"
    by (intro ft_inv_same_reports [OF inv ch, of _ a b]) (use D(1,5,6) ch in \<open>simp_all add: t\<close>)
next
  assume "signal_child cfg j s = Some t"
  then have "j < 2" "running ([a, b] ! j)" "t = put_child j (([a, b] ! j)\<lparr>c_flag := True\<rparr>) s"
    using ch by (auto simp: signal_child_def running_def split: if_splits)
  then show "ft_inv cfg t" using child_moves_inv [OF inv ch] by (simp add: running_def)
qed

lemma ft_exec_inv:
  assumes inv: "ft_inv cfg s" and cfg: "config_ok cfg" and run: "ft_exec cfg m s = Some t"
  shows "ft_inv cfg t"
proof -
  obtain a b where ch: "ft_children s = [a, b]" using inv by (auto simp: ft_inv_def)
  show ?thesis
  proof (cases m)
    case Parent
    with run show ?thesis using parent_exec_inv [OF inv cfg ch] by simp
  next
    case Parent_fails
    with run show ?thesis using parent_fails_inv [OF inv ch] by simp
  next
    case (Child j)
    then have "j < 2" using run by (simp add: child_exec_def split: if_splits)
    with Child run show ?thesis using child_exec_inv [OF inv cfg ch] by simp
  next
    case (Reap j)
    with run show ?thesis using reap_inv [OF inv ch] by simp
  next
    case Signal_parent
    with run show ?thesis using signal_inv(1) [OF inv ch] by simp
  next
    case (Signal_child j)
    with run show ?thesis using signal_inv(2) [OF inv ch] by simp
  qed
qed

end
