(* ===== verification/Fork_Properties.thy ===== *)
theory Fork_Properties
  imports Fork_Tasks
begin

text \<open>
  The fork tasks end, in every interleaving, and what the parent has then waited for, printed and read.
\<close>

section \<open>Every step comes closer to the end\<close>

lemmas ft_rank_defs = ft_rank_def put_child_def child_rank_def Let_def less_2_cases_iff

lemma parent_exec_rank:
  assumes "ft_inv cfg s" "ft_children s = [a, b]" "parent_exec cfg s = Some t"
  shows "ft_rank t < ft_rank s"
  using ft_invD(1) [OF assms(1,2)] assms(2,3)
  by (cases "ft_at s")
    (auto simp: parent_exec_def after_fork_def place_ok_def reaped_def ft_rank_defs split: if_splits)

text \<open>A step of one child that leaves the parent where it is.\<close>

lemma put_child_rank:
  assumes "j < 2" "ft_children s = [a, b]" "ft_children u = [a, b]" "ft_at u = ft_at s" "ft_flag u = ft_flag s"
    and "child_rank c < child_rank ([a, b] ! j)"
  shows "ft_rank (put_child j c u) < ft_rank s"
  using less_2_cases [OF assms(1)] assms(2-) by (auto simp: put_child_def ft_rank_def)

lemma child_exec_rank:
  assumes ch: "ft_children s = [a, b]" and run: "child_exec cfg j s = Some t"
  shows "ft_rank t < ft_rank s"
proof -
  have j: "j < 2" using run by (simp add: child_exec_def split: if_splits)
  show ?thesis
    using run ch j
    by (cases "c_loc ([a, b] ! j)";
        clarsimp simp: child_exec_def child_ends_def Let_def split: if_splits option.splits;
        intro put_child_rank [OF j ch]; simp add: child_rank_def)
qed

lemma reap_rank:
  assumes "ft_children s = [a, b]" "reap j s = Some t"
  shows "ft_rank t < ft_rank s"
  using assms by (auto simp: reap_def ft_rank_defs split: parent_at.splits if_splits)

lemma ft_exec_rank:
  assumes inv: "ft_inv cfg s" and run: "ft_exec cfg m s = Some t"
  shows "ft_rank t < ft_rank s"
proof -
  obtain a b where ch: "ft_children s = [a, b]" using inv by (auto simp: ft_inv_def)
  show ?thesis
  proof (cases m)
    case Parent_fails
    with run show ?thesis by (auto simp: parent_fails_def ft_rank_def split: parent_at.splits if_splits)
  next
    case Signal_parent
    with run ch show ?thesis by (auto simp: signal_parent_def ft_rank_def split: if_splits)
  next
    case (Signal_child j)
    then have j: "j < 2" and t: "t = put_child j (([a, b] ! j)\<lparr>c_flag := True\<rparr>) s" "\<not> c_flag ([a, b] ! j)"
      using run ch by (auto simp: signal_child_def split: if_splits)
    show ?thesis
      unfolding t by (rule put_child_rank [OF j ch]) (use ch t(2) in \<open>simp_all add: child_rank_def split: child_loc.split\<close>)
  qed (use run ch parent_exec_rank [OF inv ch] child_exec_rank [OF ch] reap_rank [OF ch] in simp_all)
qed

lemma ft_enabled:
  assumes inv: "ft_inv cfg s" and "\<not> ft_final s"
  shows "\<exists>m t. ft_exec cfg m s = Some t"
proof -
  obtain a b where ch: "ft_children s = [a, b]" using inv by (auto simp: ft_inv_def)
  note D = ft_invD [OF inv ch]
  have child: "\<exists>m t. ft_exec cfg m s = Some t" if "j < 2" "running ([a, b] ! j)" for j
  proof -
    have "\<exists>t. child_exec cfg j s = Some t"
      using that ch by (auto simp: child_exec_def running_def Let_def)
    then show ?thesis by (metis ft_exec.simps(3))
  qed
  show ?thesis
  proof (cases "running a \<or> running b")
    case True
    then show ?thesis using child [of 0] child [of 1] by auto
  next
    case no: False
    show ?thesis
    proof (cases "\<exists>t. parent_exec cfg s = Some t")
      case True
      then show ?thesis by (metis ft_exec.simps(1))
    next
      case False
      have "\<exists>j t. reap j s = Some t"
      proof (cases "ft_at s")
        case (F_wait k)
        with False have k: "k < 2" by (auto simp: parent_exec_def split: if_splits)
        have loc: "c_loc c = C_zombie \<or> reaped c = 1" if "\<not> running c" "c_loc c \<noteq> C_unborn" for c
          using that by (cases "c_loc c") (auto simp: running_def reaped_def)
        have "c_loc a = C_zombie \<or> c_loc b = C_zombie"
          using D(1) F_wait k no loc [of a] loc [of b] by (auto simp: place_ok_def)
        then obtain j where "j < 2" "c_loc ([a, b] ! j) = C_zombie"
          by (metis less_2_cases_iff nth_Cons_0 nth_Cons_Suc)
        with F_wait k ch show ?thesis by (auto simp: reap_def Let_def)
      next
        case (F_done c)
        with no assms(2) ch show ?thesis by (simp add: ft_final_def)
      qed (use False in \<open>auto simp: parent_exec_def\<close>)
      then show ?thesis by (metis ft_exec.simps(4))
    qed
  qed
qed

lemma config_ok_tasks [simp]:
  "config_ok config_01" "config_ok config_02" "config_ok (config_03 c1 c2)" "config_ok config_04" "config_ok config_05"
  by (simp_all add: config_ok_def config_01_def config_02_def config_03_def config_04_def config_05_def)

text \<open>The task of a number; the exit codes matter to the third only.\<close>

definition task_of :: "nat \<Rightarrow> u32 \<Rightarrow> u32 \<Rightarrow> ft_config" where
  "task_of n c1 c2 = (if n = 1 then config_01 else if n = 2 then config_02 else if n = 3 then config_03 c1 c2
     else if n = 4 then config_04 else config_05)"

lemma config_ok_task_of [simp]: "config_ok (task_of n c1 c2)"
  by (simp add: task_of_def)

interpretation ft: terminating_system "ft_init (task_of n c1 c2)" "sched_step (ft_exec (task_of n c1 c2))"
  "ft_inv (task_of n c1 c2)" ft_final ft_rank for n c1 c2
proof
  show "ft_inv (task_of n c1 c2) (ft_init (task_of n c1 c2))" by (rule ft_inv_init) simp
  show "ft_inv (task_of n c1 c2) t"
    if "ft_inv (task_of n c1 c2) s" "sched_step (ft_exec (task_of n c1 c2)) s t" for s t
    using that ft_exec_inv by auto
  show "\<exists>t. sched_step (ft_exec (task_of n c1 c2)) s t"
    if "ft_inv (task_of n c1 c2) s" "\<not> ft_final s" for s
    using ft_enabled [OF that] by (auto simp: sched_step_iff)
  show "ft_rank t < ft_rank s"
    if "ft_inv (task_of n c1 c2) s" "sched_step (ft_exec (task_of n c1 c2)) s t" for s t
    using that ft_exec_rank by auto
qed

section \<open>The properties\<close>

lemma ft_rank_init: "ft_rank (ft_init cfg) \<le> 17"
  by (simp add: ft_rank_def ft_init_def new_child_def child_rank_def)

lemma reaped_1 [simp]: "reaped c = Suc 0 \<longleftrightarrow> c_loc c = C_reaped"
  by (simp add: reaped_def)

text \<open>C27: A run of any of the five fork tasks has at most 17 steps, whatever is scheduled, signalled or
  fails; it only stops when the parent has returned and no child runs; and a parent that waits and
  returns 0 has waited for both children, each once, and printed the status it exited with.\<close>

theorem fork_tasks_end:
  assumes "(sched_step (ft_exec (task_of n c1 c2)) ^^ k) (ft_init (task_of n c1 c2)) t"
  shows "k \<le> 17 \<and>
    ((\<forall>u. \<not> sched_step (ft_exec (task_of n c1 c2)) t u) \<longrightarrow> ft_final t) \<and>
    (ft_at t = F_done 0 \<and> n \<noteq> 1 \<longrightarrow>
       list_all (\<lambda>c. c_loc c = C_reaped) (ft_children t) \<and>
       distinct (map fst (ft_reports t)) \<and> length (ft_reports t) = 2 \<and>
       list_all (\<lambda>(j, st, v). st = exit_status (cfg_codes (task_of n c1 c2) ! j)) (ft_reports t))"
proof (intro conjI impI)
  have reach: "(sched_step (ft_exec (task_of n c1 c2)))\<^sup>*\<^sup>* (ft_init (task_of n c1 c2)) t"
    using assms by (rule relpowp_imp_rtranclp)
  then have inv: "ft_inv (task_of n c1 c2) t" by (rule ft.reachable_inv)
  obtain a b where ch: "ft_children t = [a, b]" using inv by (auto simp: ft_inv_def)
  note D = ft_invD [OF inv ch]
  show "k \<le> 17" using ft.run_bound [OF assms] ft_rank_init [of "task_of n c1 c2"] by linarith
  show "ft_final t" if "\<forall>u. \<not> sched_step (ft_exec (task_of n c1 c2)) t u"
    using ft.stuck_final [OF reach] that by blast
  show "distinct (map fst (ft_reports t))" by (rule D(3))
  show "list_all (\<lambda>(j, st, v). st = exit_status (cfg_codes (task_of n c1 c2) ! j)) (ft_reports t)"
    using D(8) by (auto simp: list_all_iff report_ok_def)
  assume "ft_at t = F_done 0 \<and> n \<noteq> 1"
  moreover from this have "cfg_waits (task_of n c1 c2)"
    by (simp add: task_of_def config_02_def config_03_def config_04_def config_05_def)
  ultimately have "reaped a = 1" "reaped b = 1" using D(1) by (simp_all add: place_ok_def)
  then show "list_all (\<lambda>c. c_loc c = C_reaped) (ft_children t)" "length (ft_reports t) = 2"
    using D(2) ch by (simp, linarith)
qed

text \<open>A run of the fourth task.\<close>

definition run_04 :: "move list" where
  "run_04 = [Parent, Parent, Parent, Child 1, Child 1, Child 0, Parent, Child 0, Reap 0, Reap 1, Parent, Parent]"

lemmas ft_run_simps = task_of_def config_03_def config_04_def config_05_def ft_init_def new_child_def
  parent_exec_def child_exec_def reap_def signal_parent_def signal_child_def put_child_def child_ends_def
  getppid_def after_fork_def Let_def analyse_zero exit_status_def

lemma length_run_04: "length run_04 = 12"
  by (simp add: run_04_def)

lemma run_04_result:
  "\<exists>t. run_schedule (ft_exec (task_of 4 0 0)) run_04 (ft_init (task_of 4 0 0)) = Some t \<and>
     ft_at t = F_done 0 \<and> ft_text t = ''aaa'' @ [CHR 0x0A] @ ''first message'' @ [CHR 0x0A]"
  by (simp add: run_04_def ft_run_simps)

lemma fork_tasks_end_witness:
  "\<exists>t. (sched_step (ft_exec (task_of 4 0 0)) ^^ 12) (ft_init (task_of 4 0 0)) t \<and>
     list_all (\<lambda>c. c_loc c = C_reaped) (ft_children t)"
proof -
  obtain t where t: "run_schedule (ft_exec (task_of 4 0 0)) run_04 (ft_init (task_of 4 0 0)) = Some t"
    "ft_at t = F_done 0"
    using run_04_result by blast
  have "(sched_step (ft_exec (task_of 4 0 0)) ^^ 12) (ft_init (task_of 4 0 0)) t"
    using run_schedule_relpow [OF t(1)] length_run_04 by (simp only:)
  with fork_tasks_end [OF this] t(2) show ?thesis by auto
qed

lemma two_writers:
  assumes "distinct ws" "\<forall>j\<in>set ws. j < 2" "0 \<in> set ws" "1 \<in> set ws"
  shows "ws = [0, 1::nat] \<or> ws = [1, 0]"
proof -
  have set: "set ws = {0, 1}" using assms(2-4) by (auto simp: less_2_cases_iff)
  then have "length ws = 2" using distinct_card [OF assms(1)] by simp
  then obtain x y where "ws = [x, y]" by (auto simp: numeral_2_eq_2 length_Suc_conv)
  with assms(1) set show ?thesis by (auto simp: doubleton_eq_iff)
qed

lemma pipe_okD:
  assumes "pipe_ok cfg s" "cfg_messages cfg = Some mes" "ft_at s = F_done 0"
  shows "distinct (ft_writers s)" "\<forall>j\<in>set (ft_writers s). j < 2"
    "ft_text s = take 64 (concat (map ((!) mes) (ft_writers s)))"
  using assms by (simp_all add: pipe_ok_def)

text \<open>What a parent with a pipe has read when it returns 0.\<close>

lemma text_of_writers:
  assumes inv: "ft_inv cfg s" and at: "ft_at s = F_done 0" and mes: "cfg_messages cfg = Some mes" and w: "cfg_waits cfg"
  shows "\<exists>ws. distinct ws \<and> (\<forall>j\<in>set ws. j < 2) \<and> ft_text s = take 64 (concat (map ((!) mes) ws)) \<and>
    (\<forall>j<2. j \<in> set ws \<longleftrightarrow> (cfg_on_signal cfg \<longrightarrow> c_flag (ft_children s ! j)))"
proof -
  obtain a b where ch: "ft_children s = [a, b]" using inv by (auto simp: ft_inv_def)
  note D = ft_invD [OF inv ch]
  have "pipe_ok cfg s" "child_ok cfg (ft_writers s) 0 a" "child_ok cfg (ft_writers s) 1 b" using D(5-7) at by simp_all
  moreover have "reaped a = 1" "reaped b = 1" using D(1) at w by (simp_all add: place_ok_def)
  then have "ended a" "ended b" by (simp_all add: ended_def)
  ultimately have "0 \<in> set (ft_writers s) \<longleftrightarrow> (cfg_on_signal cfg \<longrightarrow> c_flag a)"
    "1 \<in> set (ft_writers s) \<longleftrightarrow> (cfg_on_signal cfg \<longrightarrow> c_flag b)"
    using mes by (simp_all add: child_ok_def)
  then have "\<forall>j<2. j \<in> set (ft_writers s) \<longleftrightarrow> (cfg_on_signal cfg \<longrightarrow> c_flag (ft_children s ! j))"
    using ch by (simp add: less_2_cases_iff)
  with pipe_okD [OF \<open>pipe_ok cfg s\<close> mes at] show ?thesis by blast
qed

text \<open>When the parent of task_04.c returns 0, what it has read and printed is the messages of both
  children, each complete and once, in one of the two orders.\<close>

theorem pipe_task_text:
  assumes "(sched_step fork_task_04)\<^sup>*\<^sup>* (ft_init config_04) s" "ft_at s = F_done 0"
  shows "ft_text s \<in> {''first message'' @ [CHR 0x0A] @ ''aaa'' @ [CHR 0x0A],
    ''aaa'' @ [CHR 0x0A] @ ''first message'' @ [CHR 0x0A]}"
proof -
  have "task_of 4 0 0 = config_04" by (simp add: task_of_def)
  then have inv: "ft_inv config_04 s"
    using ft.reachable_inv [of 4 0 0 s] assms(1) by (simp add: fork_task_04_def)
  have "cfg_messages config_04 = Some [''first message'' @ [CHR 0x0A], ''aaa'' @ [CHR 0x0A]]"
    and cfg: "cfg_waits config_04" "\<not> cfg_on_signal config_04"
    by (simp_all add: config_04_def)
  from text_of_writers [OF inv assms(2) this(1) cfg(1)] cfg(2) obtain ws where ws: "distinct ws"
    "\<forall>j\<in>set ws. j < 2" "ft_text s = take 64 (concat (map ((!) [''first message'' @ [CHR 0x0A], ''aaa'' @ [CHR 0x0A]]) ws))"
    "0 \<in> set ws" "1 \<in> set ws"
    by auto
  from two_writers [OF ws(1,2,4,5)] show ?thesis unfolding ws(3) by auto
qed

lemma pipe_task_text_witness:
  "\<exists>s. (sched_step fork_task_04)\<^sup>*\<^sup>* (ft_init config_04) s \<and> ft_at s = F_done 0 \<and> length (ft_text s) = 18"
proof -
  obtain s where s: "run_schedule (ft_exec (task_of 4 0 0)) run_04 (ft_init (task_of 4 0 0)) = Some s"
    "ft_at s = F_done 0"
    using run_04_result by blast
  have "task_of 4 0 0 = config_04" by (simp add: task_of_def)
  with run_schedule_reaches [OF s(1)] have "(sched_step fork_task_04)\<^sup>*\<^sup>* (ft_init config_04) s"
    by (simp add: fork_task_04_def)
  with pipe_task_text [OF this s(2)] s(2) show ?thesis by auto
qed

text \<open>When the parent of task_05.c returns 0, it has read the messages of exactly those children that
  had seen the signal when they looked at \<open>flag\<close>, each complete and once; without a signal it reads
  the end of the pipe and is not blocked.\<close>

theorem signal_task_text:
  assumes "(sched_step fork_task_05)\<^sup>*\<^sup>* (ft_init config_05) s" "ft_at s = F_done 0"
  shows "\<exists>ws. distinct ws \<and> set ws = {j. j < 2 \<and> c_flag (ft_children s ! j)} \<and>
    ft_text s = concat (map ((!) [''aaaaaaaaa'' @ [CHR 0x0A], ''bbb'' @ [CHR 0x0A]]) ws)"
proof -
  let ?mes = "[''aaaaaaaaa'' @ [CHR 0x0A], ''bbb'' @ [CHR 0x0A]]"
  have "task_of 5 0 0 = config_05" by (simp add: task_of_def)
  then have inv: "ft_inv config_05 s"
    using ft.reachable_inv [of 5 0 0 s] assms(1) by (simp add: fork_task_05_def)
  have mes: "cfg_messages config_05 = Some ?mes" and cfg: "cfg_waits config_05" "cfg_on_signal config_05"
    by (simp_all add: config_05_def)
  from text_of_writers [OF inv assms(2) mes cfg(1)] cfg(2) obtain ws where ws: "distinct ws"
    "\<forall>j\<in>set ws. j < 2" "ft_text s = take 64 (concat (map ((!) ?mes) ws))"
    "\<forall>j<2. j \<in> set ws \<longleftrightarrow> c_flag (ft_children s ! j)"
    by auto
  have "length (concat (map ((!) ?mes) ws)) \<le> 64"
  proof -
    have "card (set ws) \<le> card {0, 1::nat}" using ws(2) by (intro card_mono) (auto simp: less_2_cases_iff)
    then have "length ws \<le> 2" using distinct_card [OF ws(1)] by simp
    moreover have "length (?mes ! j) \<le> 10" if "j \<in> set ws" for j
      using ws(2) that less_2_cases [of j] by auto
    then have "sum_list (map (length \<circ> (!) ?mes) ws) \<le> sum_list (map (\<lambda>j. 10) ws)"
      by (intro sum_list_mono) simp
    ultimately show ?thesis by (simp add: length_concat comp_def sum_list_triv)
  qed
  then have "ft_text s = concat (map ((!) ?mes) ws)" using ws(3) by simp
  with ws(1,2,4) show ?thesis by (intro exI [of _ ws]) auto
qed

text \<open>The signal comes between the two forks, and the second child runs first.\<close>

definition run_05 :: "move list" where
  "run_05 = [Parent, Parent, Signal_parent, Parent, Child 1, Child 1, Child 0, Parent, Child 0, Reap 0, Reap 1, Parent, Parent]"

lemma signal_task_text_witness:
  "\<exists>s. (sched_step fork_task_05)\<^sup>*\<^sup>* (ft_init config_05) s \<and> ft_at s = F_done 0 \<and> ft_text s = ''bbb'' @ [CHR 0x0A]"
proof -
  obtain s where s: "run_schedule fork_task_05 run_05 (ft_init config_05) = Some s"
    "ft_at s = F_done 0" "\<not> c_flag (ft_children s ! 0)" "c_flag (ft_children s ! 1)"
    by (simp add: run_05_def ft_run_simps fork_task_05_def)
  from s(1) have reach: "(sched_step fork_task_05)\<^sup>*\<^sup>* (ft_init config_05) s" by (rule run_schedule_reaches)
  have "{j. j < 2 \<and> c_flag (ft_children s ! j)} = {1}" using s(3,4) by (auto simp: less_2_cases_iff)
  with signal_task_text [OF reach s(2)] obtain ws where "distinct ws" "set ws = {1}"
    and tx: "ft_text s = concat (map ((!) [''aaaaaaaaa'' @ [CHR 0x0A], ''bbb'' @ [CHR 0x0A]]) ws)"
    by auto
  then have "length ws = 1" using distinct_card [of ws] by simp
  with \<open>set ws = {1}\<close> have "ws = [1]" by (cases ws) auto
  with tx have "ft_text s = ''bbb'' @ [CHR 0x0A]" by simp
  with reach s(2) show ?thesis by blast
qed

text \<open>The parent of task_03.c analyses \<open>statval\<close>, which is always 0, and not the status that
  \<open>wait\<close> stored: it reports code 0 for every child, whatever code the child exited with, while the same
  analysis of the status would have given the code.\<close>

theorem reported_code_is_always_0:
  assumes "(sched_step (fork_task_03 c1 c2))\<^sup>*\<^sup>* (ft_init (config_03 c1 c2)) s"
  shows "list_all (\<lambda>(j, st, v). v = Exit_code 0 \<and> analyse st = Exit_code ([c1, c2] ! j AND 0xFF)) (ft_reports s)"
proof -
  have "task_of 3 c1 c2 = config_03 c1 c2" by (simp add: task_of_def)
  then have "ft_inv (config_03 c1 c2) s"
    using ft.reachable_inv [of 3 c1 c2 s] assms by (simp add: fork_task_03_def)
  then have "list_all (report_ok (config_03 c1 c2)) (ft_reports s)" by (simp add: ft_inv_def)
  then show ?thesis
    by (auto simp: list_all_iff report_ok_def analyse_exit_status config_03_def)
qed

definition run_03 :: "move list" where
  "run_03 = [Parent, Child 0, Child 0, Parent, Parent, Reap 0]"

lemma reported_code_is_always_0_witness:
  "\<exists>s. (sched_step (fork_task_03 2 5))\<^sup>*\<^sup>* (ft_init (config_03 2 5)) s \<and> ft_reports s \<noteq> [] \<and>
     list_all (\<lambda>(j, st, v). v = Exit_code 0 \<and> analyse st = Exit_code ([2, 5] ! j AND 0xFF)) (ft_reports s)"
proof -
  obtain s where s: "run_schedule (fork_task_03 2 5) run_03 (ft_init (config_03 2 5)) = Some s" "ft_reports s \<noteq> []"
    by (simp add: run_03_def ft_run_simps fork_task_03_def)
  with reported_code_is_always_0 [OF run_schedule_reaches [OF s(1)]] run_schedule_reaches [OF s(1)]
  show ?thesis by blast
qed

end
