(* ===== verification/Sockets.thy ===== *)
theory Sockets
  imports C_Strings Transition_Systems Sysv_Processes
begin

text \<open>
  The socket programs of sem_06/lab_01. task_01: a parent and a child over a pair of datagram sockets;
  task_02: a server that prints what clients send; task_03: a server that answers each client, with any
  number of clients in any interleaving. A datagram is received as a whole, cut to the size of the
  buffer. Arrays start with arbitrary bytes.
\<close>

section \<open>A pair of sockets (task_01/main.c)\<close>

text \<open>
  The exchange of \<open>child_work\<close> and \<open>main\<close>: each side blocks in \<open>read\<close> until the other has written, so
  the data have one order (Socket_Pair has the processes step by step). \<open>msg\<close> and \<open>buf\<close> are the child's arrays, \<open>p_msg\<close> and \<open>p_buf\<close> the parent's. The
  result is what the parent and what the child print as received.
\<close>

definition child_sends :: "nat \<Rightarrow> string \<Rightarrow> string option" where
  "child_sends pid msg = put_str (show_nat pid) msg"

definition receives :: "string \<Rightarrow> string \<Rightarrow> string option" where
  "receives d a = (case recv_into d a of (n, b) \<Rightarrow> c_str b)"

definition socketpair_main ::
    "nat \<Rightarrow> nat \<Rightarrow> string \<Rightarrow> string \<Rightarrow> string \<Rightarrow> string \<Rightarrow> (string \<times> string) option" where
  "socketpair_main ppid cpid p_msg p_buf msg buf = do {
     p_out \<leftarrow> put_str (show_nat ppid) p_msg;
     c_out \<leftarrow> child_sends cpid msg;
     at_parent \<leftarrow> receives c_out p_buf;
     at_child \<leftarrow> receives p_out buf;
     Some (at_parent, at_child) }"

lemma put_str_shape: "put_str d a = Some b \<Longrightarrow> \<exists>r. b = d @ NUL # r \<and> length a = length d + 1 + length r"
  by (auto simp: put_str_def put_bytes_def split: if_splits)

lemma receives_string:
  assumes "NUL \<notin> set d" "length d < length a"
  shows "receives (d @ NUL # r) a = Some d"
proof -
  have "\<forall>x\<in>set d. x \<noteq> NUL" using assms(1) by auto
  moreover have "take (length a) (d @ NUL # r) = d @ NUL # take (length a - length d - 1) r"
    using assms(2) by (simp add: take_Cons' take_append)
  ultimately show ?thesis
    using assms(2) by (simp add: receives_def recv_into_def Let_def c_str_def)
qed

lemma socketpair_exchanges:
  assumes "length p_msg = 10" "length p_buf = 10" "length msg = 100" "length buf = 1024"
    and "ppid < 10 ^ 9" "cpid < 10 ^ 9"
  shows "socketpair_main ppid cpid p_msg p_buf msg buf = Some (show_nat cpid, show_nat ppid)"
proof -
  have len: "length (show_nat ppid) \<le> 9" "length (show_nat cpid) \<le> 9"
    using show_digits_le [of ppid 9] show_digits_le [of cpid 9] assms(5,6) by (simp_all add: length_show_nat)
  then have "put_str (show_nat ppid) p_msg \<noteq> None" "put_str (show_nat cpid) msg \<noteq> None"
    using assms by (simp_all add: put_str_fits del: not_None_eq)
  then obtain p c where pc: "put_str (show_nat ppid) p_msg = Some p" "put_str (show_nat cpid) msg = Some c"
    by blast
  moreover obtain r1 r2 where "p = show_nat ppid @ NUL # r1" "c = show_nat cpid @ NUL # r2"
    using put_str_shape pc by blast
  ultimately show ?thesis
    using len assms by (simp add: socketpair_main_def child_sends_def receives_string show_nat_no_NUL)
qed

section \<open>A server that prints (task_02)\<close>

text \<open>
  The name mysocket.soc in the file system, and which server's socket it leads to. A second server
  fails in \<open>bind\<close> and calls \<open>del_socket\<close>, which removes the name.
\<close>

record socket_name =
  led_to :: "nat option"

definition del_socket :: "socket_name \<Rightarrow> socket_name" where
  "del_socket s = s\<lparr>led_to := None\<rparr>"

datatype start_result = Serving | Exit_failure

definition server_02_start :: "nat \<Rightarrow> socket_name \<Rightarrow> start_result \<times> socket_name" where
  "server_02_start i s =
     (if led_to s \<noteq> None then (Exit_failure, del_socket s) else (Serving, s\<lparr>led_to := Some i\<rparr>))"

text \<open>\<open>sendto\<close> of the client: the server that gets the datagram, or the end of the client.\<close>

definition client_02_send :: "socket_name \<Rightarrow> nat option" where
  "client_02_send s = led_to s"

text \<open>A pass of the server's loop: the printed line and the array it goes on with.\<close>

definition server_02_pass :: "string \<Rightarrow> string \<Rightarrow> (string \<times> string) option" where
  "server_02_pass d buf =
     (case recv_into d buf of (n, b) \<Rightarrow> do {
        c \<leftarrow> put_NUL n b;
        line \<leftarrow> c_str c;
        Some (''Server recieved: '' @ line @ nl, c) })"

fun server_02_loop :: "string list \<Rightarrow> string \<Rightarrow> string option" where
  "server_02_loop [] buf = Some []"
| "server_02_loop (d # ds) buf =
     (case server_02_pass d buf of
        None \<Rightarrow> None
      | Some (line, buf') \<Rightarrow> map_option ((@) line) (server_02_loop ds buf'))"

definition client_02_message :: "nat \<Rightarrow> string" where
  "client_02_message pid = ''pid '' @ show_nat pid"

lemma server_02_pass_prints:
  assumes "NUL \<notin> set d" "length d < length buf"
  shows "\<exists>c. server_02_pass d buf = Some (''Server recieved: '' @ d @ nl, c) \<and> length c = length buf"
proof -
  obtain b c where "recv_into d buf = (length d, b)" "put_NUL (length d) b = Some c" "c_str c = Some d"
    "length c = length buf"
    using c_str_recv [of d buf "[]"] assms by auto
  then show ?thesis by (simp add: server_02_pass_def)
qed

lemma server_02_loop_prints:
  assumes "\<And>d. d \<in> set ds \<Longrightarrow> NUL \<notin> set d \<and> length d < 256" "length buf = 256"
  shows "server_02_loop ds buf = Some (concat (map (\<lambda>d. ''Server recieved: '' @ d @ nl) ds))"
  using assms
proof (induction ds arbitrary: buf)
  case Nil
  then show ?case by simp
next
  case (Cons d ds)
  then obtain c where c: "server_02_pass d buf = Some (''Server recieved: '' @ d @ nl, c)" "length c = 256"
    using server_02_pass_prints [of d buf] by auto
  with Cons show ?case by simp
qed

lemma server_02_overrun:
  assumes "length buf = 256"
  shows "server_02_pass d buf = None \<longleftrightarrow> 256 \<le> length d"
proof
  assume "256 \<le> length d"
  then obtain b where "recv_into d buf = (256, b)" "length b = 256"
    using length_recv_into [of d buf] assms by (cases "recv_into d buf") auto
  then show "server_02_pass d buf = None"
    by (simp add: server_02_pass_def put_NUL_def set_cell_def)
next
  assume none: "server_02_pass d buf = None"
  show "256 \<le> length d"
  proof (rule ccontr)
    assume "\<not> 256 \<le> length d"
    then obtain n b where r: "recv_into d buf = (n, b)" "n = length d" "length b = 256" "n < 256"
      using length_recv_into [of d buf] assms by (cases "recv_into d buf") auto
    then have "put_NUL n b = Some (b[n := NUL])" by (simp add: put_NUL_def set_cell_def)
    moreover have "NUL \<in> set (b[n := NUL])" using r by (simp add: set_update_memI)
    ultimately have "server_02_pass d buf \<noteq> None" using r by (simp add: server_02_pass_def c_str_def)
    with none show False by simp
  qed
qed

section \<open>A server that answers (task_03)\<close>

datatype server_loc = V_recv | V_send string string | V_exit | V_undefined

datatype client_loc = K_bind | K_send | K_recv | K_done | K_undefined

text \<open>\<open>ec_box\<close>: the datagrams for the client's socket; \<open>ec_msg\<close>: its array of 256 bytes.\<close>

record echo_client =
  ec_pid :: nat
  ec_loc :: client_loc
  ec_msg :: string
  ec_box :: "string list"
  ec_printed :: "string option"

record echo_state =
  es_pid :: nat
  es_loc :: server_loc
  es_msg :: string
  es_queue :: "string list"
  es_clients :: "echo_client list"

text \<open>\<open>strcpy(client_name.sa_data, msg)\<close>: \<open>sa_data\<close> has 14 bytes.\<close>

definition sa_data :: "string \<Rightarrow> string option" where
  "sa_data name = (if length name < 14 then Some name else None)"

text \<open>\<open>sprintf(new_mes, "%s %d", msg, getpid())\<close> with 256 bytes; what \<open>sendto\<close> sends of it.\<close>

definition new_mes :: "string \<Rightarrow> nat \<Rightarrow> string option" where
  "new_mes m pid =
     (let d = m @ '' '' @ show_nat pid in if length d < 256 then Some (d @ [NUL]) else None)"

text \<open>The client whose socket is bound to a name.\<close>

definition bound_to :: "string \<Rightarrow> echo_client list \<Rightarrow> nat option" where
  "bound_to name cs = find (\<lambda>j. ec_loc (cs ! j) \<noteq> K_bind \<and> show_nat (ec_pid (cs ! j)) = name) [0..<length cs]"

definition put_client :: "nat \<Rightarrow> echo_client \<Rightarrow> echo_state \<Rightarrow> echo_state" where
  "put_client j c s = s\<lparr>es_clients := (es_clients s)[j := c]\<rparr>"

text \<open>The server's loop: up to the text of the answer, and the send.\<close>

definition server_03_receive :: "string \<Rightarrow> nat \<Rightarrow> string \<Rightarrow> (string \<times> string \<times> string) option" where
  "server_03_receive d pid msg =
     (case recv_into d msg of (n, b) \<Rightarrow> do {
        c \<leftarrow> put_NUL n b;
        m \<leftarrow> c_str c;
        name \<leftarrow> sa_data m;
        r \<leftarrow> new_mes m pid;
        Some (name, r, c) })"

definition server_03_exec :: "echo_state \<Rightarrow> echo_state option" where
  "server_03_exec s =
     (case es_loc s of
        V_recv \<Rightarrow>
          (case es_queue s of
             [] \<Rightarrow> None
           | d # ds \<Rightarrow> Some
               (case server_03_receive d (es_pid s) (es_msg s) of
                  None \<Rightarrow> s\<lparr>es_loc := V_undefined\<rparr>
                | Some (name, r, c) \<Rightarrow> s\<lparr>es_loc := V_send name r, es_msg := c, es_queue := ds\<rparr>))
      | V_send name r \<Rightarrow> Some
          (case bound_to name (es_clients s) of
             None \<Rightarrow> s\<lparr>es_loc := V_exit\<rparr>
           | Some j \<Rightarrow>
               (put_client j ((es_clients s ! j)\<lparr>ec_box := ec_box (es_clients s ! j) @ [r]\<rparr>) s)\<lparr>es_loc := V_recv\<rparr>)
      | _ \<Rightarrow> None)"

text \<open>\<open>main\<close> of the client: \<open>bind\<close> to the name that is its pid, \<open>sendto\<close>, \<open>recv\<close>.\<close>

definition client_03_exec :: "nat \<Rightarrow> echo_state \<Rightarrow> echo_state option" where
  "client_03_exec j s =
     (let c = es_clients s ! j; me = show_nat (ec_pid c) in
      case ec_loc c of
        K_bind \<Rightarrow> Some (put_client j
          (case sa_data me of None \<Rightarrow> c\<lparr>ec_loc := K_undefined\<rparr> | Some name \<Rightarrow> c\<lparr>ec_loc := K_send\<rparr>) s)
      | K_send \<Rightarrow> Some ((put_client j (c\<lparr>ec_loc := K_recv\<rparr>) s)\<lparr>es_queue := es_queue s @ [me @ [NUL]]\<rparr>)
      | K_recv \<Rightarrow>
          (case ec_box c of
             [] \<Rightarrow> None
           | d # ds \<Rightarrow>
               (case recv_into d (ec_msg c) of (n, b) \<Rightarrow> Some (put_client j
                  (case Option.bind (put_NUL n b) c_str of
                     None \<Rightarrow> c\<lparr>ec_loc := K_undefined\<rparr>
                   | Some m \<Rightarrow> c\<lparr>ec_loc := K_done, ec_box := ds, ec_printed := Some m\<rparr>) s)))
      | _ \<Rightarrow> None)"

text \<open>Process 0 is the server, process \<open>j + 1\<close> the client \<open>j\<close>.\<close>

definition echo_exec :: "nat \<Rightarrow> echo_state \<Rightarrow> echo_state option" where
  "echo_exec i s =
     (case i of 0 \<Rightarrow> server_03_exec s
      | Suc j \<Rightarrow> if j < length (es_clients s) then client_03_exec j s else None)"

definition echo_init :: "nat \<Rightarrow> string \<Rightarrow> (nat \<times> string) list \<Rightarrow> echo_state" where
  "echo_init pid msg cs = \<lparr>es_pid = pid, es_loc = V_recv, es_msg = msg, es_queue = [],
     es_clients = map (\<lambda>(p, m). \<lparr>ec_pid = p, ec_loc = K_bind, ec_msg = m, ec_box = [], ec_printed = None\<rparr>) cs\<rparr>"

text \<open>Arrays of the sizes of the code, pids the system gives out, each once.\<close>

definition echo_sane :: "nat \<Rightarrow> string \<Rightarrow> (nat \<times> string) list \<Rightarrow> bool" where
  "echo_sane pid msg cs \<longleftrightarrow> length msg = 100 \<and> pid < 10 ^ 13 \<and> distinct (map fst cs) \<and>
     (\<forall>(p, m)\<in>set cs. p < 10 ^ 13 \<and> length m = 256)"

section \<open>The invariant of the answering server\<close>

definition answer_for :: "nat \<Rightarrow> nat \<Rightarrow> string" where
  "answer_for pid p = show_nat p @ '' '' @ show_nat pid @ [NUL]"

text \<open>The messages of or for a client that are under way.\<close>

fun being_sent :: "server_loc \<Rightarrow> string \<Rightarrow> nat" where
  "being_sent (V_send name r) n = (if name = n then 1 else 0)"
| "being_sent _ n = 0"

definition under_way :: "echo_state \<Rightarrow> echo_client \<Rightarrow> nat" where
  "under_way s c =
     count_list (es_queue s) (show_nat (ec_pid c) @ [NUL]) +
     being_sent (es_loc s) (show_nat (ec_pid c)) + length (ec_box c)"

definition client_ok :: "nat \<Rightarrow> echo_client \<Rightarrow> bool" where
  "client_ok pid c \<longleftrightarrow> ec_pid c < 10 ^ 13 \<and> length (ec_msg c) = 256 \<and> ec_loc c \<noteq> K_undefined \<and>
     (\<forall>d\<in>set (ec_box c). d = answer_for pid (ec_pid c)) \<and>
     (ec_printed c = (if ec_loc c = K_done then Some (show_nat (ec_pid c) @ '' '' @ show_nat pid) else None))"

definition echo_inv :: "echo_state \<Rightarrow> bool" where
  "echo_inv s \<longleftrightarrow>
     es_pid s < 10 ^ 13 \<and> length (es_msg s) = 100 \<and>
     distinct (map ec_pid (es_clients s)) \<and>
     (\<forall>c\<in>set (es_clients s). client_ok (es_pid s) c \<and> under_way s c = (if ec_loc c = K_recv then 1 else 0)) \<and>
     (\<forall>d\<in>set (es_queue s). \<exists>c\<in>set (es_clients s). d = show_nat (ec_pid c) @ [NUL]) \<and>
     (case es_loc s of
        V_recv \<Rightarrow> True
      | V_send name r \<Rightarrow> \<exists>c\<in>set (es_clients s). name = show_nat (ec_pid c) \<and> r = answer_for (es_pid s) (ec_pid c)
      | _ \<Rightarrow> False)"

definition client_rank :: "echo_client \<Rightarrow> nat" where
  "client_rank c = (case ec_loc c of K_bind \<Rightarrow> 6 | K_send \<Rightarrow> 5 | K_recv \<Rightarrow> 1 | _ \<Rightarrow> 0)"

definition echo_rank :: "echo_state \<Rightarrow> nat" where
  "echo_rank s = tally client_rank (es_clients s) + 3 * length (es_queue s) +
     (case es_loc s of V_send name r \<Rightarrow> 2 | _ \<Rightarrow> 0)"

definition echo_final :: "echo_state \<Rightarrow> bool" where
  "echo_final s \<longleftrightarrow> list_all (\<lambda>c. ec_loc c = K_done) (es_clients s)"

lemma echo_inv_init:
  assumes "echo_sane pid msg cs"
  shows "echo_inv (echo_init pid msg cs)"
proof -
  have "map ec_pid (es_clients (echo_init pid msg cs)) = map fst cs"
    by (simp add: echo_init_def split_def)
  then have "distinct (map ec_pid (es_clients (echo_init pid msg cs)))"
    using assms by (simp only: echo_sane_def)
  moreover have "client_ok pid c \<and> under_way (echo_init pid msg cs) c = (if ec_loc c = K_recv then 1 else 0)"
    if "c \<in> set (es_clients (echo_init pid msg cs))" for c
    using that assms by (auto simp: echo_init_def echo_sane_def client_ok_def under_way_def)
  moreover have "es_pid (echo_init pid msg cs) = pid" "es_msg (echo_init pid msg cs) = msg"
    "es_queue (echo_init pid msg cs) = []" "es_loc (echo_init pid msg cs) = V_recv"
    by (simp_all add: echo_init_def)
  ultimately show ?thesis using assms by (simp add: echo_inv_def echo_sane_def)
qed

lemma length_pid: "p < 10 ^ 13 \<Longrightarrow> length (show_nat p) \<le> 13"
  using show_digits_le [of p 13] by (simp add: length_show_nat)

lemma server_03_receive_pid:
  assumes "p < 10 ^ 13" "pid < 10 ^ 13" "length msg = 100"
  shows "\<exists>c. server_03_receive (show_nat p @ [NUL]) pid msg = Some (show_nat p, answer_for pid p, c) \<and> length c = 100"
proof -
  have len: "length (show_nat p) \<le> 13" "length (show_nat pid) \<le> 13" using assms length_pid by blast+
  obtain b c where "recv_into (show_nat p @ [NUL]) msg = (length (show_nat p @ [NUL]), b)"
    "put_NUL (length (show_nat p @ [NUL])) b = Some c" "c_str c = Some (show_nat p)" "length c = length msg"
    using c_str_recv [of "show_nat p" msg "[NUL]"] len assms(3) show_nat_no_NUL by auto
  then show ?thesis
    using len assms(3) by (simp add: server_03_receive_def sa_data_def new_mes_def answer_for_def Let_def)
qed

lemma bound_to_pid:
  assumes "distinct (map ec_pid cs)" "j < length cs" "ec_loc (cs ! j) \<noteq> K_bind"
  shows "bound_to (show_nat (ec_pid (cs ! j))) cs = Some j"
proof -
  let ?P = "\<lambda>k. ec_loc (cs ! k) \<noteq> K_bind \<and> show_nat (ec_pid (cs ! k)) = show_nat (ec_pid (cs ! j))"
  have "find ?P [0..<length cs] \<noteq> None" using assms(2,3) by (auto simp: find_None_iff)
  then obtain k where k: "find ?P [0..<length cs] = Some k" by blast
  then have "k < length cs" "ec_pid (cs ! k) = ec_pid (cs ! j)" by (auto simp: find_Some_iff)
  then have "k = j" using assms(1,2) by (metis length_map nth_eq_iff_index_eq nth_map)
  with k show ?thesis by (simp add: bound_to_def)
qed

lemma echo_invD:
  assumes "echo_inv s"
  shows "es_pid s < 10 ^ 13" "length (es_msg s) = 100" "distinct (map ec_pid (es_clients s))"
    "\<And>c. c \<in> set (es_clients s) \<Longrightarrow> client_ok (es_pid s) c"
    "\<And>c. c \<in> set (es_clients s) \<Longrightarrow> under_way s c = (if ec_loc c = K_recv then 1 else 0)"
    "\<And>d. d \<in> set (es_queue s) \<Longrightarrow> \<exists>c\<in>set (es_clients s). d = show_nat (ec_pid c) @ [NUL]"
  using assms by (simp_all add: echo_inv_def)

lemma server_recv_step:
  assumes inv: "echo_inv s" and loc: "es_loc s = V_recv" and q: "es_queue s = d # ds"
    and run: "server_03_exec s = Some t"
  shows "echo_inv t \<and> echo_rank t < echo_rank s"
proof -
  note I = echo_invD [OF inv]
  obtain c where c: "c \<in> set (es_clients s)" "d = show_nat (ec_pid c) @ [NUL]" using I(6) [of d] q by auto
  have "ec_pid c < 10 ^ 13" using I(4) [OF c(1)] by (simp add: client_ok_def)
  from server_03_receive_pid [OF this I(1,2)] obtain m where
    m: "server_03_receive d (es_pid s) (es_msg s) = Some (show_nat (ec_pid c), answer_for (es_pid s) (ec_pid c), m)"
    "length m = 100"
    unfolding c(2) by blast
  have t: "t = s\<lparr>es_loc := V_send (show_nat (ec_pid c)) (answer_for (es_pid s) (ec_pid c)), es_msg := m, es_queue := ds\<rparr>"
    using run loc q m(1) by (simp add: server_03_exec_def)
  have "under_way t e = under_way s e" for e
    using loc q by (auto simp: under_way_def t c(2))
  then have "echo_inv t"
    using I m(2) c(1) q unfolding echo_inv_def by (auto simp: t)
  then show ?thesis using loc q by (simp add: t echo_rank_def)
qed

text \<open>The clients after one of them has changed.\<close>

lemma changed_client:
  assumes "distinct (map ec_pid cs)" "j < length cs" "ec_pid c = ec_pid (cs ! j)" "e \<in> set (cs[j := c])"
  shows "e = c \<or> e \<in> set cs \<and> ec_pid e \<noteq> ec_pid c"
proof -
  obtain k where k: "k < length cs" "e = cs[j := c] ! k"
    using assms(4) by (auto simp: in_set_conv_nth)
  show ?thesis
  proof (cases "k = j")
    case False
    then have "e = cs ! k" using k by simp
    moreover have "ec_pid (cs ! k) \<noteq> ec_pid (cs ! j)"
      using False assms(1,2) k(1) by (metis length_map nth_eq_iff_index_eq nth_map)
    ultimately show ?thesis using k(1) assms(3) by simp
  qed (use k assms(2) in simp)
qed

lemma pids_kept: "j < length cs \<Longrightarrow> ec_pid c = ec_pid (cs ! j) \<Longrightarrow> map ec_pid (cs[j := c]) = map ec_pid cs"
  by (simp add: map_update list_update_same_conv)

lemma client_step:
  assumes inv: "echo_inv s" and j: "j < length (es_clients s)"
    and t: "es_clients t = (es_clients s)[j := c]" "ec_pid c = ec_pid (es_clients s ! j)"
      "es_pid t = es_pid s" "length (es_msg t) = 100"
    and c: "client_ok (es_pid s) c" "under_way t c = (if ec_loc c = K_recv then 1 else 0)"
    and others: "\<And>e. e \<in> set (es_clients s) \<Longrightarrow> ec_pid e \<noteq> ec_pid c \<Longrightarrow> under_way t e = under_way s e"
    and queue: "\<And>d. d \<in> set (es_queue t) \<Longrightarrow> d \<in> set (es_queue s) \<or> d = show_nat (ec_pid c) @ [NUL]"
    and loc: "es_loc t = es_loc s \<or> es_loc t = V_recv"
  shows "echo_inv t"
proof -
  note I = echo_invD [OF inv]
  let ?cs = "es_clients s"
  have pids: "map ec_pid (es_clients t) = map ec_pid ?cs" using j t by (simp add: pids_kept)
  then have same: "ec_pid ` set (es_clients t) = ec_pid ` set ?cs" by (metis list.set_map)
  have member: "\<exists>e'\<in>set (es_clients t). ec_pid e' = ec_pid e" if "e \<in> set ?cs" for e
    using same that by (metis (mono_tags, opaque_lifting) imageE image_eqI)
  have "client_ok (es_pid s) e \<and> under_way t e = (if ec_loc e = K_recv then 1 else 0)"
    if "e \<in> set (es_clients t)" for e
  proof -
    have "e = c \<or> e \<in> set ?cs \<and> ec_pid e \<noteq> ec_pid c"
      using changed_client [OF I(3) j t(2)] that t(1) by simp
    then show ?thesis using c others I(4,5) by auto
  qed
  moreover have "\<exists>e\<in>set (es_clients t). d = show_nat (ec_pid e) @ [NUL]" if "d \<in> set (es_queue t)" for d
  proof -
    have "c \<in> set (es_clients t)" using j t(1) by (simp add: set_update_memI)
    with queue [OF that] I(6) member show ?thesis by metis
  qed
  moreover have "case es_loc t of V_recv \<Rightarrow> True
      | V_send name r \<Rightarrow> \<exists>e\<in>set (es_clients t). name = show_nat (ec_pid e) \<and> r = answer_for (es_pid t) (ec_pid e)
      | _ \<Rightarrow> False"
  proof (cases "es_loc t = V_recv")
    case False
    with loc have l: "es_loc t = es_loc s" by simp
    have "case es_loc s of V_recv \<Rightarrow> True
      | V_send name r \<Rightarrow> \<exists>e\<in>set ?cs. name = show_nat (ec_pid e) \<and> r = answer_for (es_pid s) (ec_pid e)
      | _ \<Rightarrow> False"
      using inv by (simp add: echo_inv_def)
    then show ?thesis unfolding l t(3) using member by (auto split: server_loc.splits) metis
  qed simp
  ultimately show ?thesis using I(1,3) t pids by (simp add: echo_inv_def)
qed

lemma server_send_step:
  assumes inv: "echo_inv s" and loc: "es_loc s = V_send name r" and run: "server_03_exec s = Some t"
  shows "echo_inv t \<and> echo_rank t < echo_rank s"
proof -
  note I = echo_invD [OF inv]
  let ?cs = "es_clients s"
  obtain e where e: "e \<in> set ?cs" "name = show_nat (ec_pid e)" "r = answer_for (es_pid s) (ec_pid e)"
    using inv loc by (auto simp: echo_inv_def)
  then obtain j where j: "j < length ?cs" "?cs ! j = e" by (auto simp: in_set_conv_nth)
  have "under_way s e \<noteq> 0" using loc e(2) by (simp add: under_way_def)
  then have recv: "ec_loc e = K_recv" using I(5) [OF e(1)] by (simp split: if_splits)
  have bound: "bound_to name ?cs = Some j"
    using bound_to_pid [OF I(3) j(1)] j(2) recv e(2) by simp
  let ?c = "e\<lparr>ec_box := ec_box e @ [r]\<rparr>"
  have t: "t = s\<lparr>es_clients := ?cs[j := ?c], es_loc := V_recv\<rparr>"
    using run loc bound j(2) by (simp add: server_03_exec_def put_client_def)
  have "echo_inv t"
  proof (rule client_step [OF inv j(1), where c = ?c])
    show "client_ok (es_pid s) ?c" using I(4) [OF e(1)] e(3) by (auto simp: client_ok_def)
    show "under_way t ?c = (if ec_loc ?c = K_recv then 1 else 0)"
      using I(5) [OF e(1)] loc e(2) recv by (simp add: under_way_def t)
    show "under_way t f = under_way s f" if "ec_pid f \<noteq> ec_pid ?c" for f
      using that loc e(2) by (simp add: under_way_def t)
  qed (use I(2) j(2) in \<open>simp_all add: t\<close>)
  moreover have "tally client_rank (?cs[j := ?c]) = tally client_rank ?cs"
    using j by (intro tally_update_same) (simp_all add: client_rank_def)
  ultimately show ?thesis using loc by (simp add: t echo_rank_def)
qed

lemma client_receives_step:
  assumes inv: "echo_inv s" and j: "j < length (es_clients s)" and K_recv: "ec_loc (es_clients s ! j) = K_recv"
    and run: "client_03_exec j s = Some t"
  shows "echo_inv t \<and> echo_rank t < echo_rank s"
proof -
  note I = echo_invD [OF inv]
  let ?cs = "es_clients s"
  let ?c = "?cs ! j"
  have mem: "?c \<in> set ?cs" using j by simp
  note ok = I(4) [OF mem] and way = I(5) [OF mem]
  have pid: "ec_pid ?c < 10 ^ 13" using ok by (simp add: client_ok_def)
  obtain d ds where box: "ec_box ?c = d # ds"
    using run K_recv by (auto simp: client_03_exec_def Let_def split: list.splits)
  have ds: "ds = []" using way K_recv box by (simp add: under_way_def)
  have d: "d = answer_for (es_pid s) (ec_pid ?c)" using ok box by (simp add: client_ok_def)
  let ?a = "show_nat (ec_pid ?c) @ '' '' @ show_nat (es_pid s)"
  have len: "length ?a < 255" using length_pid [OF pid] length_pid [OF I(1)] by simp
  obtain b m where b: "recv_into d (ec_msg ?c) = (length d, b)" "put_NUL (length d) b = Some m" "c_str m = Some ?a"
    using c_str_recv [of ?a "ec_msg ?c" "[NUL]"] len ok show_nat_no_NUL
    by (auto simp: client_ok_def d answer_for_def)
  let ?d = "?c\<lparr>ec_loc := K_done, ec_box := [], ec_printed := Some ?a\<rparr>"
  have t: "t = s\<lparr>es_clients := ?cs[j := ?d]\<rparr>"
    using run K_recv box b ds by (simp add: client_03_exec_def put_client_def Let_def)
  have "echo_inv t"
    by (rule client_step [OF inv j, where c = ?d])
      (use I(2) ok way K_recv box in \<open>simp_all add: t client_ok_def under_way_def\<close>)
  moreover have "tally client_rank (?cs[j := ?d]) < tally client_rank ?cs"
    using tally_update [of j ?cs client_rank ?d] j K_recv by (simp add: client_rank_def)
  ultimately show ?thesis by (simp add: t echo_rank_def)
qed

lemma client_exec_step:
  assumes inv: "echo_inv s" and j: "j < length (es_clients s)" and run: "client_03_exec j s = Some t"
  shows "echo_inv t \<and> echo_rank t < echo_rank s"
proof -
  note I = echo_invD [OF inv]
  let ?cs = "es_clients s"
  let ?c = "?cs ! j"
  have mem: "?c \<in> set ?cs" using j by simp
  note ok = I(4) [OF mem] and way = I(5) [OF mem]
  note step = client_step [OF inv j]
  have rank: "tally client_rank (?cs[j := c]) < tally client_rank ?cs + k"
    if "client_rank c < client_rank ?c + k" for c k
    using tally_update [of j ?cs client_rank c] j that by linarith
  have pid: "ec_pid ?c < 10 ^ 13" using ok by (simp add: client_ok_def)
  show ?thesis
  proof (cases "ec_loc ?c")
    case K_bind
    let ?d = "?c\<lparr>ec_loc := K_send\<rparr>"
    have "sa_data (show_nat (ec_pid ?c)) = Some (show_nat (ec_pid ?c))"
      using length_pid [OF pid] by (simp add: sa_data_def)
    then have t: "t = s\<lparr>es_clients := ?cs[j := ?d]\<rparr>"
      using run K_bind by (simp add: client_03_exec_def put_client_def Let_def)
    have "echo_inv t"
      by (rule step [where c = ?d])
        (use I(2) ok way K_bind in \<open>simp_all add: t client_ok_def under_way_def\<close>)
    moreover have "tally client_rank (?cs[j := ?d]) < tally client_rank ?cs"
      using rank [of ?d 0] K_bind by (simp add: client_rank_def)
    ultimately show ?thesis by (simp add: t echo_rank_def)
  next
    case K_send
    let ?d = "?c\<lparr>ec_loc := K_recv\<rparr>" and ?m = "show_nat (ec_pid ?c) @ [NUL]"
    have t: "t = s\<lparr>es_clients := ?cs[j := ?d], es_queue := es_queue s @ [?m]\<rparr>"
      using run K_send by (simp add: client_03_exec_def put_client_def Let_def)
    have "echo_inv t"
      by (rule step [where c = ?d])
        (use I(2) ok way K_send in \<open>auto simp: t client_ok_def under_way_def\<close>)
    moreover have "tally client_rank (?cs[j := ?d]) + 3 < tally client_rank ?cs"
      using tally_update [of j ?cs client_rank ?d] j K_send by (simp add: client_rank_def)
    ultimately show ?thesis by (simp add: t echo_rank_def)
  next
    case K_recv
    from client_receives_step [OF inv j this run] show ?thesis .
  qed (use run in \<open>simp_all add: client_03_exec_def Let_def\<close>)
qed

lemma echo_exec_step:
  assumes "echo_inv s" "echo_exec i s = Some t"
  shows "echo_inv t \<and> echo_rank t < echo_rank s"
proof (cases i)
  case 0
  then have run: "server_03_exec s = Some t" using assms(2) by (simp add: echo_exec_def)
  then consider d ds where "es_loc s = V_recv" "es_queue s = d # ds" | name r where "es_loc s = V_send name r"
    by (auto simp: server_03_exec_def split: server_loc.splits list.splits)
  then show ?thesis
    using server_recv_step [OF assms(1) _ _ run] server_send_step [OF assms(1) _ run] by cases blast+
next
  case (Suc j)
  then show ?thesis
    using assms client_exec_step by (auto simp: echo_exec_def split: if_splits)
qed

lemma echo_enabled:
  assumes inv: "echo_inv s" and "\<not> echo_final s"
  shows "\<exists>i t. echo_exec i s = Some t"
proof -
  note I = echo_invD [OF inv]
  obtain j where j: "j < length (es_clients s)" "ec_loc (es_clients s ! j) \<noteq> K_done"
    using assms(2) by (auto simp: echo_final_def list_all_length)
  let ?c = "es_clients s ! j"
  have mem: "?c \<in> set (es_clients s)" using j(1) by simp
  have client: "\<exists>i t. echo_exec i s = Some t" if "client_03_exec j s \<noteq> None"
    using that j(1) by (intro exI [of _ "Suc j"]) (auto simp: echo_exec_def)
  have server: "\<exists>i t. echo_exec i s = Some t" if "server_03_exec s \<noteq> None"
    using that by (intro exI [of _ 0]) (auto simp: echo_exec_def)
  show ?thesis
  proof (cases "ec_loc ?c = K_recv \<and> ec_box ?c = []")
    case True
    then have "under_way s ?c = 1" using I(5) [OF mem] by simp
    with True have "es_queue s \<noteq> [] \<or> (\<exists>name r. es_loc s = V_send name r)"
      by (cases "es_loc s") (auto simp: under_way_def)
    moreover have "es_loc s = V_recv \<or> (\<exists>name r. es_loc s = V_send name r)"
      using inv by (auto simp: echo_inv_def split: server_loc.splits)
    ultimately show ?thesis
      by (intro server) (auto simp: server_03_exec_def split: list.splits option.splits)
  next
    case False
    have "ec_loc ?c \<noteq> K_undefined" using I(4) [OF mem] by (simp add: client_ok_def)
    with False j(2) show ?thesis
      by (intro client) (auto simp: client_03_exec_def Let_def split: client_loc.splits list.splits prod.splits)
  qed
qed

end
