(* ===== verification/Socket_Properties.thy ===== *)
theory Socket_Properties
  imports Sockets
begin

text \<open>
  The properties of the socket programs of sem_06/lab_01.
\<close>

text \<open>task_01: for pids of at most nine digits the parent prints the child's pid and the child the
  parent's, whatever the arrays held before, and no call leaves its array.\<close>

theorem socketpair_delivers:
  assumes "length p_msg = 10" "length p_buf = 10" "length msg = 100" "length buf = 1024"
    and "ppid < 10 ^ 9" "cpid < 10 ^ 9"
  shows "socketpair_main ppid cpid p_msg p_buf msg buf = Some (show_nat cpid, show_nat ppid)"
  using assms by (rule socketpair_exchanges)

lemma socketpair_delivers_witness:
  "socketpair_main 4194303 4194304 (replicate 10 (CHR ''x'')) (replicate 10 (CHR ''x''))
     (replicate 100 (CHR ''x'')) (replicate 1024 (CHR ''x'')) = Some (show_nat 4194304, show_nat 4194303)"
  by (rule socketpair_delivers) simp_all

text \<open>The server of task_02 prints the datagrams it receives, in order, as they were sent, as long as
  each is shorter than its array of 256 bytes.\<close>

theorem printing_server_prints:
  assumes "\<And>d. d \<in> set ds \<Longrightarrow> NUL \<notin> set d \<and> length d < 256" "length buf = 256"
  shows "server_02_loop ds buf = Some (concat (map (\<lambda>d. ''Server recieved: '' @ d @ nl) ds))"
  using assms by (rule server_02_loop_prints)

lemma client_02_message_fits: "pid < 10 ^ 13 \<Longrightarrow> NUL \<notin> set (client_02_message pid) \<and> length (client_02_message pid) < 256"
  using length_pid [of pid] show_nat_no_NUL by (simp add: client_02_message_def)

lemma printing_server_prints_witness:
  "server_02_loop [client_02_message 12, client_02_message 345] (replicate 256 (CHR ''x'')) =
     Some (''Server recieved: '' @ client_02_message 12 @ nl @ ''Server recieved: '' @ client_02_message 345 @ nl)"
  using printing_server_prints [of "[client_02_message 12, client_02_message 345]" "replicate 256 (CHR ''x'')"]
    client_02_message_fits [of 12] client_02_message_fits [of 345] by auto

text \<open>\<open>buf[bytes] = 0\<close> in the loop of the server of task_02 writes outside the array exactly when a
  datagram of 256 bytes or more arrives.\<close>

theorem printing_server_overruns:
  assumes "length buf = 256"
  shows "server_02_pass d buf = None \<longleftrightarrow> 256 \<le> length d"
  using assms by (rule server_02_overrun)

lemma printing_server_overruns_witness:
  "server_02_pass (replicate 256 (CHR ''a'')) (replicate 256 (CHR ''x'')) = None"
  using printing_server_overruns [of "replicate 256 (CHR ''x'')" "replicate 256 (CHR ''a'')"] by simp

text \<open>A second server of task_02 takes the name of the first one away: it fails, exits, and the
  clients of the running server can no longer send.\<close>

theorem second_server_unlinks:
  assumes "led_to s = Some i"
  shows "\<exists>s'. server_02_start k s = (Exit_failure, s') \<and> client_02_send s = Some i \<and> client_02_send s' = None"
  using assms by (simp add: server_02_start_def client_02_send_def del_socket_def)

lemma second_server_unlinks_witness:
  "client_02_send (snd (server_02_start 2 (snd (server_02_start 1 \<lparr>led_to = None\<rparr>)))) = None"
  using second_server_unlinks [of "snd (server_02_start 1 \<lparr>led_to = None\<rparr>)" 1 2]
  by (auto simp: server_02_start_def)

lemma echo_system:
  assumes "echo_sane pid msg cs"
  shows "terminating_system (echo_init pid msg cs) (sched_step echo_exec) echo_inv echo_final echo_rank"
proof
  show "echo_inv (echo_init pid msg cs)" using assms by (rule echo_inv_init)
  show "echo_inv t" if "echo_inv s" "sched_step echo_exec s t" for s t
    using that echo_exec_step by auto
  show "\<exists>t. sched_step echo_exec s t" if "echo_inv s" "\<not> echo_final s" for s
    using echo_enabled [OF that] by (auto simp: sched_step_iff)
  show "echo_rank t < echo_rank s" if "echo_inv s" "sched_step echo_exec s t" for s t
    using that echo_exec_step by auto
qed

lemma echo_attainable:
  assumes "echo_sane pid msg cs"
  shows "attainable_system (echo_init pid msg cs) (sched_step echo_exec) echo_inv echo_final echo_rank"
proof
  show "echo_inv (echo_init pid msg cs)" using assms by (rule echo_inv_init)
  show "echo_inv t" if "echo_inv s" "sched_step echo_exec s t" for s t
    using that echo_exec_step by auto
  show "\<exists>t. sched_step echo_exec s t \<and> echo_rank t < echo_rank s" if s: "echo_inv s" "\<not> echo_final s" for s
  proof -
    obtain i t where "echo_exec i s = Some t" using echo_enabled [OF s] by blast
    moreover from this have "echo_rank t < echo_rank s" using echo_exec_step [OF s(1)] by blast
    ultimately show ?thesis by (auto simp: sched_step_iff)
  qed
qed

text \<open>When all clients are done the server has nothing left to do.\<close>

lemma echo_final_stuck:
  assumes inv: "echo_inv s" and fin: "echo_final s"
  shows "\<not> sched_step echo_exec s t"
proof -
  note I = echo_invD [OF inv]
  have done_: "ec_loc c = K_done" "under_way s c = 0" if "c \<in> set (es_clients s)" for c
    using fin I(5) [OF that] that by (auto simp: echo_final_def list_all_iff)
  have "es_queue s = []"
  proof (rule ccontr)
    assume "es_queue s \<noteq> []"
    then obtain d where d: "d \<in> set (es_queue s)" by (cases "es_queue s") auto
    with I(6) obtain c where "c \<in> set (es_clients s)" "d = show_nat (ec_pid c) @ [NUL]" by blast
    with d done_(2) [of c] show False by (simp add: under_way_def count_list_0_iff)
  qed
  moreover have "es_loc s = V_recv"
  proof (cases "es_loc s")
    case (V_send name r)
    with inv obtain c where "c \<in> set (es_clients s)" "name = show_nat (ec_pid c)" by (auto simp: echo_inv_def)
    with V_send done_(2) [of c] show ?thesis by (simp add: under_way_def)
  qed (use inv in \<open>auto simp: echo_inv_def\<close>)
  ultimately have "server_03_exec s = None" by (simp add: server_03_exec_def)
  moreover have "client_03_exec j s = None" if "j < length (es_clients s)" for j
    using done_(1) [of "es_clients s ! j"] that by (simp add: client_03_exec_def Let_def)
  ultimately show ?thesis by (auto simp: echo_exec_def split: nat.splits if_splits)
qed

lemma echo_rank_init: "echo_rank (echo_init pid msg cs) = 6 * length cs"
proof -
  have "tally client_rank (map (\<lambda>(p, m). \<lparr>ec_pid = p, ec_loc = K_bind, ec_msg = m, ec_box = [], ec_printed = None\<rparr>) cs) =
      6 * length cs"
    by (induction cs) (auto simp: client_rank_def)
  then show ?thesis by (simp add: echo_rank_def echo_init_def)
qed

text \<open>C23: task_03: with any number of clients with different pids, in any interleaving, no array is
  overrun and the program takes at most six steps for each client; when nothing can move any more,
  every client has printed its own pid followed by the server's.\<close>

theorem every_client_answered:
  assumes "echo_sane pid msg cs" "(sched_step echo_exec ^^ n) (echo_init pid msg cs) t"
  shows "n \<le> 6 * length cs \<and> es_loc t \<notin> {V_exit, V_undefined} \<and>
    ((\<forall>u. \<not> sched_step echo_exec t u) \<longrightarrow>
       list_all (\<lambda>c. ec_printed c = Some (show_nat (ec_pid c) @ '' '' @ show_nat (es_pid t))) (es_clients t))"
proof (intro conjI impI)
  have system: "terminating_system (echo_init pid msg cs) (sched_step echo_exec) echo_inv echo_final echo_rank"
    using assms(1) by (rule echo_system)
  have reach: "(sched_step echo_exec)\<^sup>*\<^sup>* (echo_init pid msg cs) t"
    using assms(2) by (rule relpowp_imp_rtranclp)
  have inv: "echo_inv t"
    using terminating_system.axioms(1) [OF system] reach
    by (meson deadlock_free_system.axioms(1) invariant_system.reachable_inv)
  show "n \<le> 6 * length cs"
    using terminating_system.run_bound [OF system assms(2)] by (simp add: echo_rank_init)
  show "es_loc t \<notin> {V_exit, V_undefined}" using inv by (auto simp: echo_inv_def)
  assume "\<forall>u. \<not> sched_step echo_exec t u"
  with deadlock_free_system.stuck_final [OF terminating_system.axioms(1) [OF system] reach]
  have "echo_final t" by metis
  then show "list_all (\<lambda>c. ec_printed c = Some (show_nat (ec_pid c) @ '' '' @ show_nat (es_pid t))) (es_clients t)"
    using inv by (auto simp: echo_final_def list_all_iff echo_inv_def client_ok_def)
qed

text \<open>Two clients.\<close>

definition two_clients :: "(nat \<times> string) list" where
  "two_clients = [(71, replicate 256 (CHR ''x'')), (72, replicate 256 (CHR ''y''))]"

lemma two_clients_sane: "echo_sane 5 (replicate 100 (CHR ''z'')) two_clients"
  by (simp add: echo_sane_def two_clients_def)

lemma every_client_answered_witness:
  "\<exists>n t. (sched_step echo_exec ^^ n) (echo_init 5 (replicate 100 (CHR ''z'')) two_clients) t \<and> n \<le> 12 \<and>
     list_all (\<lambda>c. ec_printed c = Some (show_nat (ec_pid c) @ '' '' @ show_nat (es_pid t))) (es_clients t)"
proof -
  let ?s = "echo_init 5 (replicate 100 (CHR ''z'')) two_clients"
  note attainable = echo_attainable [OF two_clients_sane]
  obtain t where t: "(sched_step echo_exec)\<^sup>*\<^sup>* ?s t" "echo_final t"
    using attainable_system.reachable_can_finish [OF attainable] by blast
  then obtain n where n: "(sched_step echo_exec ^^ n) ?s t" by (metis rtranclp_imp_relpowp)
  have "echo_inv t"
    using invariant_system.reachable_inv [OF attainable_system.axioms(1) [OF attainable] t(1)] .
  with echo_final_stuck t(2) have "\<forall>u. \<not> sched_step echo_exec t u" by metis
  with every_client_answered [OF two_clients_sane n] n show ?thesis by (auto simp: two_clients_def)
qed

end
