(* ===== verification/Epoll_Server.thy ===== *)
theory Epoll_Server
  imports C_Strings Transition_Systems Sysv_Processes
begin

text \<open>
  The echo server of sem_06/lab_02 and its client. The server registers each connection with epoll in
  edge-triggered mode (\<open>EPOLLIN | EPOLLET\<close>) and non-blocking: the connection becomes ready when bytes
  arrive or the peer closes, and is not ready any more once \<open>epoll_wait\<close> has reported it, read or not.
  \<open>epoll_wait\<close> may report any of the ready descriptors in any order. The bytes an array holds before it
  is filled are arbitrary.
\<close>

section \<open>A connection and its handler\<close>

text \<open>
  \<open>cn_in\<close>: arrived and not read; \<open>cn_closed\<close>: the client has closed its end; \<open>cn_out\<close>: written by the
  server and not read by the client.
\<close>

record connection =
  cn_accepted :: bool
  cn_in :: string
  cn_closed :: bool
  cn_out :: string

definition MSG_LEN :: nat where
  "MSG_LEN = 64"

datatype event_result = Handled connection string | Failed | Overrun

text \<open>
  \<open>handle_event\<close>, with what it prints. \<open>in_msg\<close> and \<open>out_msg\<close> are the two arrays as they are found;
  printing the input and \<open>sprintf("%s %d")\<close> need its final zero byte. \<open>read\<close> of an open connection
  without bytes fails (\<open>EAGAIN\<close>), \<open>write\<close> sends all 64 bytes.
\<close>

definition handle_event :: "nat \<Rightarrow> string \<Rightarrow> string \<Rightarrow> connection \<Rightarrow> event_result" where
  "handle_event pid in_msg out_msg c =
     (if cn_in c = [] then (if cn_closed c then Handled c [] else Failed)
      else
        (case c_str (snd (recv_into (cn_in c) in_msg)) of
           None \<Rightarrow> Overrun
         | Some m \<Rightarrow>
             (let r = m @ '' '' @ show_nat pid in
              case put_str r out_msg of
                None \<Rightarrow> Overrun
              | Some b \<Rightarrow>
                  Handled (c\<lparr>cn_in := drop (length in_msg) (cn_in c), cn_out := cn_out c @ b\<rparr>)
                    (''Server receive: '' @ m @ '' '' @ nl @ ''Server send:    '' @ r @ '' '' @ nl))))"

section \<open>The server and its clients\<close>

datatype client_at = T_connect | T_write | T_read | T_done | T_overrun

record ep_client =
  ep_pid :: nat
  ep_at :: client_at
  ep_conn :: connection
  ep_printed :: "string option"

datatype server_at = E_serving | E_failed | E_overrun

datatype ep_event = Listening | Conn nat

text \<open>
  \<open>ep_backlog\<close>: the connections that wait for \<open>accept\<close>; \<open>ep_ready\<close>: the ready list of epoll;
  \<open>ep_batch\<close>: the events of the last \<open>epoll_wait\<close> that the loop has still to handle; \<open>ep_handled\<close>:
  how many events it has handled; \<open>ep_log\<close>: what the server has printed.
\<close>

record ep_state =
  ep_server :: server_at
  ep_backlog :: "nat list"
  ep_ready :: "nat list"
  ep_batch :: "ep_event list"
  ep_clients :: "ep_client list"
  ep_handled :: nat
  ep_log :: string

definition put_ep :: "nat \<Rightarrow> ep_client \<Rightarrow> ep_state \<Rightarrow> ep_state" where
  "put_ep j c s = s\<lparr>ep_clients := (ep_clients s)[j := c]\<rparr>"

definition become_ready :: "bool \<Rightarrow> nat \<Rightarrow> ep_state \<Rightarrow> ep_state" where
  "become_ready p j s = (if p then s\<lparr>ep_ready := List.insert j (ep_ready s)\<rparr> else s)"

text \<open>Bytes sent over a connection.\<close>

definition arrives :: "nat \<Rightarrow> string \<Rightarrow> ep_state \<Rightarrow> ep_state" where
  "arrives j d s =
     (let c = ep_clients s ! j; n = ep_conn c in
      become_ready (cn_accepted n) j (put_ep j (c\<lparr>ep_conn := n\<lparr>cn_in := cn_in n @ d\<rparr>\<rparr>) s))"

text \<open>
  \<open>main\<close> of the client: \<open>connect\<close>, \<open>write\<close> of the pid with its zero byte, \<open>read\<close> of 64 bytes, and
  \<open>close\<close>. \<open>junk\<close> is what the array holds before.
\<close>

definition ep_client_exec :: "string \<Rightarrow> nat \<Rightarrow> ep_state \<Rightarrow> ep_state option" where
  "ep_client_exec junk j s =
     (let c = ep_clients s ! j; n = ep_conn c in
      case ep_at c of
        T_connect \<Rightarrow> Some ((put_ep j (c\<lparr>ep_at := T_write\<rparr>) s)\<lparr>ep_backlog := ep_backlog s @ [j]\<rparr>)
      | T_write \<Rightarrow> Some (arrives j (show_nat (ep_pid c) @ [NUL]) (put_ep j (c\<lparr>ep_at := T_read\<rparr>) s))
      | T_read \<Rightarrow>
          if cn_out n = [] then None
          else Some
            (case c_str (snd (recv_into (cn_out n) junk)) of
               None \<Rightarrow> put_ep j (c\<lparr>ep_at := T_overrun\<rparr>) s
             | Some m \<Rightarrow> become_ready (cn_accepted n) j (put_ep j
                 (c\<lparr>ep_at := T_done, ep_printed := Some m,
                    ep_conn := n\<lparr>cn_out := drop (length junk) (cn_out n), cn_closed := True\<rparr>\<rparr>) s))
      | _ \<Rightarrow> None)"

text \<open>\<open>epoll_wait\<close>: some of what is ready, at most 100 events. The listening socket is level-triggered.\<close>

definition MAX_EVENTS_COUNT :: nat where
  "MAX_EVENTS_COUNT = 100"

definition epoll_wait :: "ep_event list \<Rightarrow> ep_state \<Rightarrow> ep_state option" where
  "epoll_wait evs s =
     (if ep_batch s = [] \<and> evs \<noteq> [] \<and> distinct evs \<and> length evs \<le> MAX_EVENTS_COUNT \<and>
         list_all (\<lambda>e. case e of Listening \<Rightarrow> ep_backlog s \<noteq> [] | Conn j \<Rightarrow> j \<in> set (ep_ready s)) evs
      then Some (s\<lparr>ep_batch := evs, ep_ready := filter (\<lambda>j. Conn j \<notin> set evs) (ep_ready s)\<rparr>)
      else None)"

text \<open>
  The body of the loop over the events: a new connection is registered, and is ready at once when
  something has arrived; an event of a connection is handled.
\<close>

definition accept_exec :: "ep_state \<Rightarrow> ep_state option" where
  "accept_exec s =
     (case ep_backlog s of
        [] \<Rightarrow> None
      | j # js \<Rightarrow>
          (let c = ep_clients s ! j; n = ep_conn c in
           Some (become_ready (cn_in n \<noteq> [] \<or> cn_closed n) j
             ((put_ep j (c\<lparr>ep_conn := n\<lparr>cn_accepted := True\<rparr>\<rparr>) s)\<lparr>ep_backlog := js\<rparr>))))"

definition serve_exec :: "nat \<Rightarrow> string \<times> string \<Rightarrow> nat \<Rightarrow> ep_state \<Rightarrow> ep_state" where
  "serve_exec pid junk j s =
     (let c = ep_clients s ! j in
      case handle_event pid (fst junk) (snd junk) (ep_conn c) of
        Handled n d \<Rightarrow> (put_ep j (c\<lparr>ep_conn := n\<rparr>) s)\<lparr>ep_log := ep_log s @ d\<rparr>
      | Failed \<Rightarrow> s\<lparr>ep_server := E_failed\<rparr>
      | Overrun \<Rightarrow> s\<lparr>ep_server := E_overrun\<rparr>)"

definition event_exec :: "nat \<Rightarrow> (nat \<Rightarrow> string \<times> string) \<Rightarrow> ep_state \<Rightarrow> ep_state option" where
  "event_exec pid junk s =
     (case ep_batch s of
        [] \<Rightarrow> None
      | e # es \<Rightarrow>
          (let s' = s\<lparr>ep_batch := es, ep_handled := ep_handled s + 1\<rparr> in
           case e of
             Listening \<Rightarrow> accept_exec s'
           | Conn j \<Rightarrow> Some (serve_exec pid (junk (ep_handled s)) j s')))"

datatype ep_move = Client_moves nat | Wait "ep_event list" | Handle

definition ep_exec ::
    "nat \<Rightarrow> (nat \<Rightarrow> string \<times> string) \<Rightarrow> (nat \<Rightarrow> string) \<Rightarrow> ep_move \<Rightarrow> ep_state \<Rightarrow> ep_state option" where
  "ep_exec pid junk cjunk m s =
     (case m of
        Client_moves j \<Rightarrow> if j < length (ep_clients s) then ep_client_exec (cjunk j) j s else None
      | Wait evs \<Rightarrow> if ep_server s = E_serving then epoll_wait evs s else None
      | Handle \<Rightarrow> if ep_server s = E_serving then event_exec pid junk s else None)"

definition new_ep_client :: "nat \<Rightarrow> ep_client" where
  "new_ep_client p = \<lparr>ep_pid = p, ep_at = T_connect,
     ep_conn = \<lparr>cn_accepted = False, cn_in = [], cn_closed = False, cn_out = []\<rparr>, ep_printed = None\<rparr>"

definition ep_init :: "nat list \<Rightarrow> ep_state" where
  "ep_init pids = \<lparr>ep_server = E_serving, ep_backlog = [], ep_ready = [], ep_batch = [],
     ep_clients = map new_ep_client pids, ep_handled = 0, ep_log = []\<rparr>"

section \<open>The handler\<close>

lemma read_message:
  assumes "NUL \<notin> set m" "length m < length a"
  shows "c_str (snd (recv_into (m @ [NUL]) a)) = Some m"
proof -
  have "\<forall>x\<in>set m. x \<noteq> NUL" using assms(1) by auto
  then show ?thesis using assms(2) by (simp add: recv_into_def Let_def c_str_def)
qed

text \<open>A whole message that fits is answered with itself and the pid.\<close>

lemma handle_event_answers:
  assumes "cn_in c = m @ [NUL]" "NUL \<notin> set m" "length in_msg = 64" "length out_msg = 64"
    and "length m + 1 + length (show_nat pid) < 64"
  obtains b d where
    "handle_event pid in_msg out_msg c = Handled (c\<lparr>cn_in := [], cn_out := cn_out c @ b\<rparr>) d"
    "length b = 64" "c_str b = Some (m @ '' '' @ show_nat pid)"
proof -
  let ?r = "m @ '' '' @ show_nat pid"
  have "put_str ?r out_msg \<noteq> None" using assms(4,5) by (simp add: put_str_fits del: not_None_eq)
  then obtain b where b: "put_str ?r out_msg = Some b" by blast
  then have "length b = 64" using assms(4) by (auto simp: put_str_def dest: length_put_bytes)
  moreover have "c_str b = Some ?r" using c_str_put_str [OF b] assms(2) show_nat_no_NUL by simp
  moreover have "handle_event pid in_msg out_msg c = Handled (c\<lparr>cn_in := [], cn_out := cn_out c @ b\<rparr>)
     (''Server receive: '' @ m @ '' '' @ nl @ ''Server send:    '' @ ?r @ '' '' @ nl)"
    using assms b read_message [of m in_msg] by (simp add: handle_event_def)
  ultimately show ?thesis using that by blast
qed

text \<open>A message that does not fit with the pid overruns the second array.\<close>

lemma handle_event_overruns:
  assumes "cn_in c = m @ [NUL]" "NUL \<notin> set m" "length m < 64" "length in_msg = 64" "length out_msg = 64"
  shows "handle_event pid in_msg out_msg c = Overrun \<longleftrightarrow> 64 \<le> length m + 1 + length (show_nat pid)"
proof (cases "length m + 1 + length (show_nat pid) < 64")
  case True
  obtain b d where "handle_event pid in_msg out_msg c = Handled (c\<lparr>cn_in := [], cn_out := cn_out c @ b\<rparr>) d"
    using handle_event_answers [OF assms(1,2,4,5) True] .
  with True show ?thesis by simp
next
  case False
  then have "put_str (m @ '' '' @ show_nat pid) out_msg = None"
    using put_str_fits [of "m @ '' '' @ show_nat pid" out_msg] assms(5) by simp
  then show ?thesis
    using False assms read_message [of m in_msg] by (simp add: handle_event_def)
qed

section \<open>The invariant of the whole\<close>

definition ep_answer :: "nat \<Rightarrow> nat \<Rightarrow> string" where
  "ep_answer pid p = show_nat p @ '' '' @ show_nat pid"

text \<open>The reports of a connection that are under way.\<close>

definition reports :: "ep_state \<Rightarrow> nat \<Rightarrow> nat" where
  "reports s j = count_list (ep_ready s) j + count_list (ep_batch s) (Conn j)"

definition conn_ok :: "nat \<Rightarrow> bool \<Rightarrow> nat \<Rightarrow> ep_client \<Rightarrow> bool" where
  "conn_ok pid waits ev c \<longleftrightarrow>
     (let n = ep_conn c in
      ep_pid c < 10 ^ 13 \<and>
      (cn_accepted n \<longleftrightarrow> ep_at c \<noteq> T_connect \<and> \<not> waits) \<and> (ep_at c = T_connect \<longrightarrow> \<not> waits) \<and>
      ep_printed c = (if ep_at c = T_done then Some (ep_answer pid (ep_pid c)) else None) \<and>
      (case ep_at c of
         T_read \<Rightarrow> \<not> cn_closed n \<and>
           (if cn_in n = [] then cn_accepted n \<and> ev = 0 \<and> length (cn_out n) = 64 \<and>
              c_str (cn_out n) = Some (ep_answer pid (ep_pid c))
            else cn_in n = show_nat (ep_pid c) @ [NUL] \<and> cn_out n = [] \<and> ev = (if cn_accepted n then 1 else 0))
       | T_done \<Rightarrow> cn_in n = [] \<and> cn_out n = [] \<and> cn_closed n \<and> cn_accepted n
       | T_overrun \<Rightarrow> False
       | _ \<Rightarrow> cn_in n = [] \<and> cn_out n = [] \<and> \<not> cn_closed n \<and> ev = 0))"

text \<open>A client that has ended early: its connection, if there is one, is closed at its end.\<close>

definition gone_ok :: "nat \<Rightarrow> bool \<Rightarrow> nat \<Rightarrow> ep_client \<Rightarrow> bool" where
  "gone_ok pid waits ev c \<longleftrightarrow>
     (let n = ep_conn c in
      ep_pid c < 10 ^ 13 \<and> ep_printed c = None \<and>
      (cn_accepted n \<longleftrightarrow> ep_at c \<noteq> T_connect \<and> \<not> waits) \<and>
      (\<not> cn_accepted n \<longrightarrow> ev = 0) \<and>
      (if ep_at c = T_connect then \<not> waits \<and> cn_in n = []
       else (ep_at c = T_write \<or> ep_at c = T_read) \<and> cn_closed n \<and>
         (cn_in n = [] \<or> cn_in n = show_nat (ep_pid c) @ [NUL])))"

definition client_fine :: "nat \<Rightarrow> bool \<Rightarrow> bool \<Rightarrow> nat \<Rightarrow> ep_client \<Rightarrow> bool" where
  "client_fine pid g waits ev c \<longleftrightarrow> (if g then gone_ok pid waits ev c else conn_ok pid waits ev c)"

definition queues_ok :: "ep_state \<Rightarrow> bool" where
  "queues_ok s \<longleftrightarrow>
     distinct (ep_backlog s) \<and> distinct (ep_batch s) \<and>
     (\<forall>j. j \<in> set (ep_backlog s) \<or> j \<in> set (ep_ready s) \<or> Conn j \<in> set (ep_batch s) \<longrightarrow> j < length (ep_clients s)) \<and>
     (Listening \<in> set (ep_batch s) \<longrightarrow> ep_backlog s \<noteq> [])"

text \<open>The invariant, when the clients in \<open>G\<close> have ended early.\<close>

definition ep_inv :: "nat \<Rightarrow> nat set \<Rightarrow> ep_state \<Rightarrow> bool" where
  "ep_inv pid G s \<longleftrightarrow> queues_ok s \<and>
     (\<forall>j<length (ep_clients s). client_fine pid (j \<in> G) (j \<in> set (ep_backlog s)) (reports s j) (ep_clients s ! j))"

definition ep_client_rank :: "ep_client \<Rightarrow> nat" where
  "ep_client_rank c = (case ep_at c of T_connect \<Rightarrow> 11 | T_write \<Rightarrow> 6 | T_read \<Rightarrow> 3 | _ \<Rightarrow> 0)"

definition ep_rank :: "ep_state \<Rightarrow> nat" where
  "ep_rank s = tally ep_client_rank (ep_clients s) + 4 * length (ep_backlog s) + 2 * length (ep_ready s) +
     length (ep_batch s) + (if Listening \<in> set (ep_batch s) then 0 else 2)"

definition ep_final :: "ep_state \<Rightarrow> bool" where
  "ep_final s \<longleftrightarrow> list_all (\<lambda>c. ep_at c = T_done) (ep_clients s)"

text \<open>Arrays of the size of the code, and pids the system gives out.\<close>

definition ep_sane :: "nat \<Rightarrow> (nat \<Rightarrow> string \<times> string) \<Rightarrow> (nat \<Rightarrow> string) \<Rightarrow> nat list \<Rightarrow> bool" where
  "ep_sane pid junk cjunk pids \<longleftrightarrow> pid < 10 ^ 13 \<and> list_all (\<lambda>p. p < 10 ^ 13) pids \<and>
     (\<forall>k. length (fst (junk k)) = MSG_LEN \<and> length (snd (junk k)) = MSG_LEN \<and> length (cjunk k) = MSG_LEN)"

lemma ep_inv_init: "ep_sane pid junk cjunk pids \<Longrightarrow> ep_inv pid {} (ep_init pids)"
  by (simp add: ep_inv_def client_fine_def ep_init_def queues_ok_def reports_def conn_ok_def new_ep_client_def
      ep_sane_def list_all_length)

lemma ep_rank_init: "ep_rank (ep_init pids) = 11 * length pids + 2"
proof -
  have "tally ep_client_rank (map new_ep_client pids) = 11 * length pids"
    by (induction pids) (simp_all add: ep_client_rank_def new_ep_client_def)
  then show ?thesis by (simp add: ep_rank_def ep_init_def)
qed

lemma one_client_changed:
  assumes "ep_inv pid G s" "j < length (ep_clients s)" "ep_clients t = (ep_clients s)[j := c]"
    and "\<And>k. k \<noteq> j \<Longrightarrow> (k \<in> set (ep_backlog t) \<longleftrightarrow> k \<in> set (ep_backlog s)) \<and> reports t k = reports s k \<and>
      (k \<in> H \<longleftrightarrow> k \<in> G)"
    and "client_fine pid (j \<in> H) (j \<in> set (ep_backlog t)) (reports t j) c"
    and "queues_ok t"
  shows "ep_inv pid H t"
  using assms by (auto simp: ep_inv_def nth_list_update)

lemma count_insert: "count_list (List.insert j xs) k = count_list xs k + (if k = j \<and> j \<notin> set xs then 1 else 0)"
  by (auto simp: List.insert_def count_list_0_iff)

lemma length_insert_le: "length (List.insert j xs) \<le> length xs + 1"
  by (simp add: List.insert_def)

lemmas ep_unfold = put_ep_def become_ready_def reports_def count_insert

lemma ep_invD:
  assumes "ep_inv pid G s"
  shows "queues_ok s"
    "\<And>j. j < length (ep_clients s) \<Longrightarrow>
       client_fine pid (j \<in> G) (j \<in> set (ep_backlog s)) (reports s j) (ep_clients s ! j)"
    "\<And>j. j < length (ep_clients s) \<Longrightarrow> j \<notin> G \<Longrightarrow>
       conn_ok pid (j \<in> set (ep_backlog s)) (reports s j) (ep_clients s ! j)"
  using assms unfolding ep_inv_def client_fine_def by auto

lemma ep_client_reads_step:
  assumes inv: "ep_inv pid G s" and j: "j < length (ep_clients s)" "j \<notin> G" and junk: "length junk = 64"
    and T_read: "ep_at (ep_clients s ! j) = T_read" and run: "ep_client_exec junk j s = Some t"
  shows "ep_inv pid G t \<and> ep_rank t < ep_rank s \<and> ep_server t = ep_server s"
proof -
  let ?c = "ep_clients s ! j"
  note ok = ep_invD(3) [OF inv j] and q = ep_invD(1) [OF inv]
  have ins: "length (List.insert j (ep_ready s)) \<le> length (ep_ready s) + 1" by (rule length_insert_le)
  let ?n = "ep_conn ?c"
  have out: "cn_out ?n \<noteq> []" using run T_read by (auto simp: ep_client_exec_def Let_def)
  then have ready: "cn_in ?n = []" "length (cn_out ?n) = 64" "reports s j = 0"
    "c_str (cn_out ?n) = Some (ep_answer pid (ep_pid ?c))" "cn_accepted ?n" "j \<notin> set (ep_backlog s)"
    using ok T_read by (auto simp: conn_ok_def Let_def split: if_splits)
  let ?d = "?c\<lparr>ep_at := T_done, ep_printed := Some (ep_answer pid (ep_pid ?c)),
    ep_conn := ?n\<lparr>cn_out := [], cn_closed := True\<rparr>\<rparr>"
  have t: "t = become_ready True j (put_ep j ?d s)"
    using run T_read out ready junk by (simp add: ep_client_exec_def Let_def recv_into_def)
  have "ep_inv pid G t"
    by (rule one_client_changed [OF inv j(1), where c = ?d])
      (use ok q j T_read ready in \<open>auto simp: t ep_unfold client_fine_def conn_ok_def Let_def queues_ok_def\<close>)
  moreover have "ep_rank t < ep_rank s \<and> ep_server t = ep_server s"
    using tally_update [OF j(1), of ep_client_rank ?d] T_read ins by (simp add: t ep_unfold ep_rank_def ep_client_rank_def)
  ultimately show ?thesis ..
qed

lemma ep_client_step:
  assumes inv: "ep_inv pid G s" and j: "j < length (ep_clients s)" "j \<notin> G" and junk: "length junk = 64"
    and run: "ep_client_exec junk j s = Some t"
  shows "ep_inv pid G t \<and> ep_rank t < ep_rank s \<and> ep_server t = ep_server s"
proof -
  let ?c = "ep_clients s ! j"
  note ok = ep_invD(3) [OF inv j] and q = ep_invD(1) [OF inv]
  note change = one_client_changed [OF inv j(1)]
  have rank: "tally ep_client_rank ((ep_clients s)[j := c]) + ep_client_rank ?c =
      tally ep_client_rank (ep_clients s) + ep_client_rank c" for c
    by (rule tally_update [OF j(1)])
  have ins: "length (List.insert j (ep_ready s)) \<le> length (ep_ready s) + 1" by (rule length_insert_le)
  show ?thesis
  proof (cases "ep_at ?c")
    case T_connect
    let ?d = "?c\<lparr>ep_at := T_write\<rparr>"
    have t: "t = (put_ep j ?d s)\<lparr>ep_backlog := ep_backlog s @ [j]\<rparr>"
      using run T_connect by (simp add: ep_client_exec_def Let_def)
    have "ep_inv pid G t"
      by (rule change [where c = ?d])
        (use ok q j T_connect in \<open>auto simp: t ep_unfold client_fine_def conn_ok_def Let_def queues_ok_def\<close>)
    moreover have "ep_rank t < ep_rank s \<and> ep_server t = ep_server s"
      using rank [of ?d] T_connect by (simp add: t ep_unfold ep_rank_def ep_client_rank_def)
    ultimately show ?thesis ..
  next
    case T_write
    let ?n = "ep_conn ?c"
    let ?d = "?c\<lparr>ep_at := T_read, ep_conn := ?n\<lparr>cn_in := cn_in ?n @ show_nat (ep_pid ?c) @ [NUL]\<rparr>\<rparr>"
    have t: "t = become_ready (cn_accepted ?n) j (put_ep j ?d s)"
      using run T_write j(1) by (simp add: ep_client_exec_def arrives_def put_ep_def Let_def)
    have "j \<notin> set (ep_ready s)" using ok T_write by (simp add: conn_ok_def Let_def reports_def count_list_0_iff)
    then have "ep_inv pid G t"
      by (intro change [where c = ?d])
        (use ok q j T_write in \<open>auto simp: t ep_unfold client_fine_def conn_ok_def Let_def queues_ok_def\<close>)
    moreover have "ep_rank t < ep_rank s \<and> ep_server t = ep_server s"
      using rank [of ?d] T_write ins by (simp add: t ep_unfold ep_rank_def ep_client_rank_def)
    ultimately show ?thesis ..
  next
    case T_read
    from ep_client_reads_step [OF inv j junk this run] show ?thesis .
  qed (use run in \<open>simp_all add: ep_client_exec_def Let_def\<close>)
qed

lemma accepted_fine:
  assumes ok: "client_fine pid g True ev c" and ready: "ev' = (if cn_in (ep_conn c) \<noteq> [] \<or> cn_closed (ep_conn c) then Suc ev else ev)"
  shows "client_fine pid g False ev' (c\<lparr>ep_conn := (ep_conn c)\<lparr>cn_accepted := True\<rparr>\<rparr>)"
  using assms by (auto simp: client_fine_def gone_ok_def conn_ok_def Let_def split: client_at.splits if_splits)

lemma waiting_unready: "client_fine pid g True ev c \<Longrightarrow> ev = 0"
  by (auto simp: client_fine_def gone_ok_def conn_ok_def Let_def split: client_at.splits if_splits)

lemma accept_step:
  assumes inv: "ep_inv pid G s" and b: "ep_batch s = Listening # es"
    and run: "accept_exec (s\<lparr>ep_batch := es, ep_handled := k\<rparr>) = Some t"
  shows "ep_inv pid G t \<and> ep_rank t < ep_rank s \<and> ep_server t = ep_server s"
proof -
  note q = ep_invD(1) [OF inv]
  obtain j js where js: "ep_backlog s = j # js" using run by (auto simp: accept_exec_def split: list.splits)
  then have j: "j < length (ep_clients s)" "j \<notin> set js" using q by (auto simp: queues_ok_def)
  let ?c = "ep_clients s ! j"
  let ?n = "ep_conn ?c"
  let ?d = "?c\<lparr>ep_conn := ?n\<lparr>cn_accepted := True\<rparr>\<rparr>"
  note ok = ep_invD(2) [OF inv j(1)]
  have t: "t = become_ready (cn_in ?n \<noteq> [] \<or> cn_closed ?n) j
      ((put_ep j ?d (s\<lparr>ep_batch := es, ep_handled := k\<rparr>))\<lparr>ep_backlog := js\<rparr>)"
    using run js by (simp add: accept_exec_def Let_def)
  have "reports s j = 0" using ok js waiting_unready by simp
  then have unready: "j \<notin> set (ep_ready s)" "Conn j \<notin> set es"
    using b by (auto simp: reports_def count_list_0_iff)
  have new: "Listening \<notin> set es" using q b by (simp add: queues_ok_def)
  have "client_fine pid (j \<in> G) False (reports t j) ?d"
    by (rule accepted_fine [where ev = "reports s j"])
      (use ok js b unready in \<open>auto simp: t ep_unfold count_list_0_iff\<close>)
  moreover have "queues_ok t" using q b js new j by (auto simp: t ep_unfold queues_ok_def)
  ultimately have "ep_inv pid G t"
    by (intro one_client_changed [OF inv j(1), where c = ?d]) (use js b j in \<open>auto simp: t ep_unfold\<close>)
  moreover have "tally ep_client_rank ((ep_clients s)[j := ?d]) = tally ep_client_rank (ep_clients s)"
    by (rule tally_update_same [OF j(1)]) (simp add: ep_client_rank_def)
  then have "ep_rank t < ep_rank s \<and> ep_server t = ep_server s"
    using js b new length_insert_le [of j "ep_ready s"] by (simp add: t ep_unfold ep_rank_def)
  ultimately show ?thesis by blast
qed

lemma length_ep_answer: "p < 10 ^ 13 \<Longrightarrow> pid < 10 ^ 13 \<Longrightarrow> length (show_nat p) + 1 + length (show_nat pid) < 64"
  using show_digits_le [of p 13] show_digits_le [of pid 13] by (simp add: length_show_nat)

text \<open>An event is answered, or finds the connection closed; the server never fails of itself.\<close>

lemma event_handled:
  assumes ok: "client_fine pid g waits (Suc ev) c" and pid: "pid < 10 ^ 13"
    and arrays: "length in_msg = 64" "length out_msg = 64"
  obtains n d where "handle_event pid in_msg out_msg (ep_conn c) = Handled n d"
    "client_fine pid g waits ev (c\<lparr>ep_conn := n\<rparr>)"
proof -
  let ?n = "ep_conn c"
  have "cn_in ?n = show_nat (ep_pid c) @ [NUL] \<or> cn_in ?n = [] \<and> cn_closed ?n" and p: "ep_pid c < 10 ^ 13"
    using ok by (auto simp: client_fine_def gone_ok_def conn_ok_def Let_def split: client_at.splits if_splits)
  then show thesis
  proof (elim disjE)
    assume m: "cn_in ?n = show_nat (ep_pid c) @ [NUL]"
    obtain b d where h: "handle_event pid in_msg out_msg ?n = Handled (?n\<lparr>cn_in := [], cn_out := cn_out ?n @ b\<rparr>) d"
      "length b = 64" "c_str b = Some (show_nat (ep_pid c) @ '' '' @ show_nat pid)"
      using handle_event_answers [OF m show_nat_no_NUL arrays length_ep_answer [OF p pid]] .
    show thesis
      by (rule that [OF h(1)])
        (use ok m h(2,3) in \<open>auto simp: client_fine_def gone_ok_def conn_ok_def Let_def ep_answer_def
          split: client_at.splits if_splits\<close>)
  next
    assume e: "cn_in ?n = [] \<and> cn_closed ?n"
    then have h: "handle_event pid in_msg out_msg ?n = Handled ?n []" by (simp add: handle_event_def)
    show thesis
      by (rule that [OF h])
        (use ok e in \<open>auto simp: client_fine_def gone_ok_def conn_ok_def Let_def split: client_at.splits if_splits\<close>)
  qed
qed

lemma serve_step:
  assumes inv: "ep_inv pid G s" and b: "ep_batch s = Conn j # es" and pid: "pid < 10 ^ 13"
    and junk: "length (fst junk) = 64" "length (snd junk) = 64"
    and t: "t = serve_exec pid junk j (s\<lparr>ep_batch := es, ep_handled := k\<rparr>)"
  shows "ep_inv pid G t \<and> ep_rank t < ep_rank s \<and> ep_server t = ep_server s"
proof -
  note q = ep_invD(1) [OF inv]
  have j: "j < length (ep_clients s)" using q b by (auto simp: queues_ok_def)
  let ?c = "ep_clients s ! j"
  have "reports s j = Suc (reports s j - 1)" using b by (simp add: reports_def)
  with ep_invD(2) [OF inv j]
  have "client_fine pid (j \<in> G) (j \<in> set (ep_backlog s)) (Suc (reports s j - 1)) ?c" by simp
  then obtain n d where h: "handle_event pid (fst junk) (snd junk) (ep_conn ?c) = Handled n d"
    and n: "client_fine pid (j \<in> G) (j \<in> set (ep_backlog s)) (reports s j - 1) (?c\<lparr>ep_conn := n\<rparr>)"
    using event_handled [OF _ pid junk] by blast
  have t': "t = (put_ep j (?c\<lparr>ep_conn := n\<rparr>) s)
      \<lparr>ep_batch := es, ep_handled := k, ep_log := ep_log s @ d\<rparr>"
    using h by (simp add: t serve_exec_def put_ep_def)
  have "ep_inv pid G t"
    by (rule one_client_changed [OF inv j, where c = "?c\<lparr>ep_conn := n\<rparr>"])
      (use n q b in \<open>auto simp: t' put_ep_def reports_def queues_ok_def\<close>)
  moreover have "tally ep_client_rank ((ep_clients s)[j := ?c\<lparr>ep_conn := n\<rparr>]) = tally ep_client_rank (ep_clients s)"
    by (rule tally_update_same [OF j]) (simp add: ep_client_rank_def)
  then have "ep_rank t < ep_rank s \<and> ep_server t = ep_server s" using b by (simp add: t' put_ep_def ep_rank_def)
  ultimately show ?thesis by blast
qed

lemma distinct_reported:
  assumes "distinct evs" "set evs \<subseteq> Conn ` set rs"
  shows "length evs \<le> length rs"
  using assms by (metis card_image_le card_length card_mono distinct_card finite_imageI finite_set le_trans)

lemma count_kept: "count_list (filter P xs) x = (if P x then count_list xs x else 0)"
  by (induction xs) auto

lemma count_distinct: "distinct xs \<Longrightarrow> count_list xs x = (if x \<in> set xs then 1 else 0)"
  by (induction xs) auto

lemma reported_once:
  "client_fine pid g waits ev c \<Longrightarrow> 1 \<le> ev \<Longrightarrow> client_fine pid g waits 1 c"
  by (auto simp: client_fine_def gone_ok_def conn_ok_def Let_def split: client_at.splits if_splits)

lemma wait_step:
  assumes inv: "ep_inv pid G s" and run: "epoll_wait evs s = Some t"
  shows "ep_inv pid G t \<and> ep_rank t < ep_rank s \<and> ep_server t = ep_server s"
proof -
  note q = ep_invD(1) [OF inv]
  let ?kept = "filter (\<lambda>j. Conn j \<notin> set evs) (ep_ready s)" and ?gone = "filter (\<lambda>j. Conn j \<in> set evs) (ep_ready s)"
  have evs: "ep_batch s = []" "evs \<noteq> []" "distinct evs" "Listening \<in> set evs \<Longrightarrow> ep_backlog s \<noteq> []"
    "\<And>j. Conn j \<in> set evs \<Longrightarrow> j \<in> set (ep_ready s)" "t = s\<lparr>ep_batch := evs, ep_ready := ?kept\<rparr>"
    using run by (auto simp: epoll_wait_def list_all_iff split: if_splits ep_event.splits)
  have "reports t j = (if Conn j \<in> set evs then 1 else reports s j)" for j
    using evs(1,3,6) by (simp add: reports_def count_kept count_distinct)
  moreover have "1 \<le> reports s j" if "Conn j \<in> set evs" for j
    using evs(5) [OF that] using count_list_0_iff [of "ep_ready s" j] by (simp add: reports_def)
  ultimately have ok: "client_fine pid (j \<in> G) (j \<in> set (ep_backlog s)) (reports t j) (ep_clients s ! j)"
    if "j < length (ep_clients s)" for j
    using reported_once [OF ep_invD(2) [OF inv that]] ep_invD(2) [OF inv that] by simp
  have "queues_ok t" using q evs by (auto simp: queues_ok_def)
  then have "ep_inv pid G t" using ok by (simp add: ep_inv_def evs(6))
  moreover have "ep_rank t < ep_rank s"
  proof -
    have "set (remove1 Listening evs) \<subseteq> Conn ` set ?gone"
      using evs(3,5) by (auto simp: set_remove1_eq) (metis ep_event.exhaust image_eqI mem_Collect_eq)
    then have "length (remove1 Listening evs) \<le> length ?gone"
      using distinct_reported [of "remove1 Listening evs"] evs(3) by simp
    moreover have "length ?gone + length ?kept = length (ep_ready s)"
      using sum_length_filter_compl [of "\<lambda>j. Conn j \<in> set evs" "ep_ready s"] by simp
    moreover have "0 < length evs" using evs(2) by simp
    ultimately show ?thesis
      using evs(1) by (auto simp: evs(6) ep_rank_def length_remove1 simp del: length_greater_0_conv split: if_splits)
  qed
  moreover have "ep_server t = ep_server s" by (simp add: evs(6))
  ultimately show ?thesis by blast
qed

lemma ep_exec_step:
  assumes sane: "ep_sane pid junk cjunk pids" and inv: "ep_inv pid G s" and run: "ep_exec pid junk cjunk m s = Some t"
    and live: "\<And>j. m = Client_moves j \<Longrightarrow> j \<notin> G"
  shows "ep_inv pid G t \<and> ep_rank t < ep_rank s \<and> ep_server t = ep_server s"
proof (cases m)
  case (Client_moves j)
  then have j: "j < length (ep_clients s)" "ep_client_exec (cjunk j) j s = Some t"
    using run by (simp_all add: ep_exec_def split: if_splits)
  have "length (cjunk j) = 64" using sane by (simp add: ep_sane_def MSG_LEN_def)
  from ep_client_step [OF inv j(1) live [OF Client_moves] this j(2)] show ?thesis .
next
  case (Wait evs)
  then show ?thesis using run wait_step [OF inv] by (simp add: ep_exec_def split: if_splits)
next
  case Handle
  then obtain e es where b: "ep_batch s = e # es"
    using run by (auto simp: ep_exec_def event_exec_def split: if_splits list.splits)
  show ?thesis
  proof (cases e)
    case Listening
    then have "accept_exec (s\<lparr>ep_batch := es, ep_handled := ep_handled s + 1\<rparr>) = Some t"
      using Handle run b by (simp add: ep_exec_def event_exec_def split: if_splits)
    then show ?thesis using accept_step [OF inv] b Listening by blast
  next
    case (Conn j)
    then have "t = serve_exec pid (junk (ep_handled s)) j (s\<lparr>ep_batch := es, ep_handled := ep_handled s + 1\<rparr>)"
      using Handle run b by (simp add: ep_exec_def event_exec_def split: if_splits)
    then show ?thesis
      using serve_step [OF inv] b Conn sane by (simp add: ep_sane_def MSG_LEN_def)
  qed
qed

lemma ep_exec_clients: "ep_exec pid junk cjunk m s = Some t \<Longrightarrow> length (ep_clients t) = length (ep_clients s)"
  by (auto simp: ep_exec_def ep_client_exec_def epoll_wait_def event_exec_def accept_exec_def serve_exec_def
      arrives_def become_ready_def put_ep_def Let_def
      split: ep_move.splits client_at.splits ep_event.splits event_result.splits list.splits option.splits if_splits)

lemma ep_enabled:
  assumes sane: "ep_sane pid junk cjunk pids" and inv: "ep_inv pid G s"
    and serving: "ep_server s = E_serving" and j: "j < length (ep_clients s)" "j \<notin> G" "ep_at (ep_clients s ! j) \<noteq> T_done"
  shows "\<exists>m t. ep_exec pid junk cjunk m s = Some t \<and> (\<forall>k. m = Client_moves k \<longrightarrow> k = j)"
proof (cases "ep_batch s")
  case (Cons e es)
  then have "ep_exec pid junk cjunk Handle s \<noteq> None"
    using ep_invD(1) [OF inv] serving
    by (auto simp: ep_exec_def event_exec_def accept_exec_def Let_def queues_ok_def split: ep_event.splits list.splits)
  then show ?thesis by blast
next
  case Nil
  let ?c = "ep_clients s ! j"
  note ok = ep_invD(3) [OF inv j(1,2)]
  have wait: "ep_exec pid junk cjunk (Wait [e]) s \<noteq> None"
    if "case e of Listening \<Rightarrow> ep_backlog s \<noteq> [] | Conn j \<Rightarrow> j \<in> set (ep_ready s)" for e
    using that Nil serving by (simp add: ep_exec_def epoll_wait_def MAX_EVENTS_COUNT_def)
  show ?thesis
  proof (cases "ep_backlog s = [] \<and> ep_ready s = []")
    case True
    then have "ep_client_exec (cjunk j) j s \<noteq> None"
      using ok j(3) Nil by (auto simp: conn_ok_def Let_def reports_def ep_client_exec_def split: client_at.splits if_splits)
    then have "ep_exec pid junk cjunk (Client_moves j) s \<noteq> None" using j(1) by (simp add: ep_exec_def)
    then show ?thesis by blast
  next
    case False
    then have "ep_backlog s \<noteq> [] \<or> hd (ep_ready s) \<in> set (ep_ready s)"
      by auto
    then show ?thesis using wait [of Listening] wait [of "Conn (hd (ep_ready s))"] by auto
  qed
qed

end
