(* ===== verification/Epoll_Properties.thy ===== *)
theory Epoll_Properties
  imports Epoll_Server
begin

text \<open>
  The properties of the epoll echo server of sem_06/lab_02.
\<close>

definition ep_serves :: "nat \<Rightarrow> ep_state \<Rightarrow> bool" where
  "ep_serves pid s \<longleftrightarrow> ep_inv pid {} s \<and> ep_server s = E_serving"

lemma ep_serves_init: "ep_sane pid junk cjunk pids \<Longrightarrow> ep_serves pid (ep_init pids)"
  using ep_inv_init by (simp add: ep_serves_def ep_init_def)

lemma epoll_system:
  assumes "ep_sane pid junk cjunk pids"
  shows "terminating_system (ep_init pids) (sched_step (ep_exec pid junk cjunk)) (ep_serves pid) ep_final ep_rank"
proof
  show "ep_serves pid (ep_init pids)" using assms by (rule ep_serves_init)
  show "ep_serves pid t" if "ep_serves pid s" "sched_step (ep_exec pid junk cjunk) s t" for s t
    using that ep_exec_step [OF assms] by (auto simp: ep_serves_def)
  show "\<exists>t. sched_step (ep_exec pid junk cjunk) s t" if "ep_serves pid s" "\<not> ep_final s" for s
    using that ep_enabled [OF assms, of "{}" s]
    by (auto simp: sched_step_iff ep_serves_def ep_final_def list_all_length) metis
  show "ep_rank t < ep_rank s" if "ep_serves pid s" "sched_step (ep_exec pid junk cjunk) s t" for s t
    using that ep_exec_step [OF assms] by (auto simp: ep_serves_def)
qed

text \<open>With any number of clients, in any interleaving with the server, whatever events
  \<open>epoll_wait\<close> reports in whatever order and whatever the arrays hold: the server keeps serving, the
  program takes at most eleven steps for each client and two more, and when nothing moves any more,
  every client has printed its own pid followed by the server's.\<close>

theorem every_epoll_client_answered:
  assumes "ep_sane pid junk cjunk pids" "(sched_step (ep_exec pid junk cjunk) ^^ n) (ep_init pids) t"
  shows "n \<le> 11 * length pids + 2 \<and> ep_server t = E_serving \<and>
    ((\<forall>u. \<not> sched_step (ep_exec pid junk cjunk) t u) \<longrightarrow>
       list_all (\<lambda>c. ep_printed c = Some (show_nat (ep_pid c) @ '' '' @ show_nat pid)) (ep_clients t))"
proof (intro conjI impI)
  note system = epoll_system [OF assms(1)]
  have inv: "n + ep_rank t \<le> ep_rank (ep_init pids) \<and> ep_serves pid t"
    using terminating_system.inv_run_bound [OF system assms(2) ep_serves_init [OF assms(1)]] .
  then show "n \<le> 11 * length pids + 2" by (simp add: ep_rank_init)
  show "ep_server t = E_serving" using inv by (simp add: ep_serves_def)
  assume "\<forall>u. \<not> sched_step (ep_exec pid junk cjunk) t u"
  then have "ep_final t"
    using inv ep_enabled [OF assms(1), of "{}" t]
    by (auto simp: ep_serves_def ep_final_def list_all_length sched_step_iff)
  then show "list_all (\<lambda>c. ep_printed c = Some (show_nat (ep_pid c) @ '' '' @ show_nat pid)) (ep_clients t)"
    using inv by (auto simp: ep_final_def list_all_length ep_serves_def ep_inv_def client_fine_def conn_ok_def Let_def ep_answer_def)
qed

lemma every_epoll_client_answered_witness:
  "\<exists>n t. (sched_step (ep_exec 5 (\<lambda>k. (replicate 64 (CHR ''x''), replicate 64 (CHR ''y''))) (\<lambda>j. replicate 64 (CHR ''z'')))
       ^^ n) (ep_init [71, 72]) t \<and> n \<le> 24 \<and>
     list_all (\<lambda>c. ep_printed c = Some (show_nat (ep_pid c) @ '' '' @ show_nat 5)) (ep_clients t)"
proof -
  let ?j = "\<lambda>k::nat. (replicate 64 (CHR ''x''), replicate 64 (CHR ''y''))" and ?c = "\<lambda>j::nat. replicate 64 (CHR ''z'')"
  have sane: "ep_sane 5 ?j ?c [71, 72]" by (simp add: ep_sane_def MSG_LEN_def)
  obtain n t where nt: "(sched_step (ep_exec 5 ?j ?c) ^^ n) (ep_init [71, 72]) t"
    "\<forall>u. \<not> sched_step (ep_exec 5 ?j ?c) t u"
    using terminating_system.maximal_run [OF epoll_system [OF sane] ep_serves_init [OF sane]] by blast
  with every_epoll_client_answered [OF sane nt(1)] show ?thesis by auto
qed

text \<open>The answer overruns the server's second array exactly when a message of less than 64 bytes and
  the pid, with a space and the final zero byte, need more than 64 bytes.\<close>

theorem epoll_answer_overruns:
  assumes "cn_in c = m @ [NUL]" "NUL \<notin> set m" "length m < MSG_LEN"
    and "length in_msg = MSG_LEN" "length out_msg = MSG_LEN"
  shows "handle_event pid in_msg out_msg c = Overrun \<longleftrightarrow> MSG_LEN \<le> length m + 1 + length (show_nat pid)"
  using assms handle_event_overruns by (simp add: MSG_LEN_def)

lemma epoll_answer_overruns_witness:
  "handle_event 12345 (replicate 64 (CHR ''x'')) (replicate 64 (CHR ''x''))
     \<lparr>cn_accepted = True, cn_in = replicate 58 (CHR ''m'') @ [NUL], cn_closed = False, cn_out = []\<rparr> = Overrun"
proof -
  have "length (show_nat 12345) = 5" by (simp add: length_show_nat show_digits.simps)
  then show ?thesis
    using epoll_answer_overruns [of "\<lparr>cn_accepted = True, cn_in = replicate 58 (CHR ''m'') @ [NUL], cn_closed = False, cn_out = []\<rparr>"
        "replicate 58 (CHR ''m'')" "replicate 64 (CHR ''x'')" "replicate 64 (CHR ''x'')" 12345]
    by (simp add: MSG_LEN_def)
qed

text \<open>A message that arrives, is reported, and another one that arrives before the handler reads.\<close>

definition second_message :: "nat \<Rightarrow> (nat \<Rightarrow> string \<times> string) \<Rightarrow> nat \<Rightarrow> string \<Rightarrow> string \<Rightarrow> ep_state \<Rightarrow> ep_state option" where
  "second_message pid junk j d e s = do {
     s1 \<leftarrow> epoll_wait [Conn j] (arrives j d s);
     s2 \<leftarrow> event_exec pid junk (arrives j e s1);
     s3 \<leftarrow> epoll_wait [Conn j] s2;
     event_exec pid junk s3 }"

text \<open>Two messages of one connection end the server when the second arrives between \<open>epoll_wait\<close> and
  \<open>read\<close>: the first pass reads both, the second report finds nothing, \<open>read\<close> fails with \<open>EAGAIN\<close> and
  \<open>main\<close> exits. No client of the repository sends twice.\<close>

theorem second_message_ends_server:
  assumes "j < length (ep_clients s)" "ep_batch s = []"
    and "cn_accepted (ep_conn (ep_clients s ! j))" "cn_in (ep_conn (ep_clients s ! j)) = []"
    and "\<not> cn_closed (ep_conn (ep_clients s ! j))"
    and "NUL \<notin> set m" "e \<noteq> []" "length m + 1 + length e \<le> MSG_LEN"
    and "length m + 1 + length (show_nat pid) < MSG_LEN"
    and "\<forall>k. length (fst (junk k)) = MSG_LEN \<and> length (snd (junk k)) = MSG_LEN"
  shows "map_option ep_server (second_message pid junk j (m @ [NUL]) e s) = Some E_failed"
proof -
  let ?in = "fst (junk (ep_handled s))" and ?out = "snd (junk (ep_handled s))"
  have m: "\<forall>x\<in>set m. x \<noteq> NUL" using assms(6) by auto
  have "c_str (snd (recv_into (m @ NUL # e) ?in)) = Some m"
    using assms(8,10) m by (simp add: recv_into_def Let_def c_str_def MSG_LEN_def take_Cons')
  moreover have "put_str (m @ '' '' @ show_nat pid) ?out \<noteq> None"
    using assms(9,10) by (simp add: put_str_fits MSG_LEN_def del: not_None_eq)
  then obtain b where "put_str (m @ '' '' @ show_nat pid) ?out = Some b" by blast
  ultimately show ?thesis
    using assms by (simp add: second_message_def epoll_wait_def arrives_def become_ready_def put_ep_def Let_def
        event_exec_def serve_exec_def handle_event_def MAX_EVENTS_COUNT_def MSG_LEN_def)
qed

lemma second_message_ends_server_witness:
  "map_option ep_server (second_message 5 (\<lambda>k. (replicate 64 (CHR ''x''), replicate 64 (CHR ''y''))) 0 (''71'' @ [NUL]) ''72''
     ((ep_init [71])\<lparr>ep_clients := [(new_ep_client 71)\<lparr>ep_conn :=
        \<lparr>cn_accepted = True, cn_in = [], cn_closed = False, cn_out = []\<rparr>\<rparr>]\<rparr>)) = Some E_failed"
proof -
  have "length (show_nat 5) = 1" by (simp add: length_show_nat show_digits.simps)
  then show ?thesis by (intro second_message_ends_server) (simp_all add: ep_init_def MSG_LEN_def)
qed

end
