(* ===== verification/Traffic_Types.thy ===== *)
theory Traffic_Types
  imports Module_Control Traffic_Core
begin

text \<open>
  The well-formed states of the traffic module (course_work/code/core_module.c): tables of their
  size, indices within them, distinct sources, marks of rows that agree with each other. Unlike the
  refinement of Traffic_Core this is a property of single states, whatever counters they hold: every
  entry of the module keeps it and none traps in it.
\<close>

section \<open>Well-formed states\<close>

definition row_typed :: "second_layer_schema \<Rightarrow> bool" where
  "row_typed r \<longleftrightarrow>
     (if sl_crit_behaviour r = 0
      then sl_property r = CRIT_BEHAVIOUR_PROPERTY_UNDEFINED \<and> sl_type r = CRIT_BEHAVIOUR_TYPE_UNDEFINED
      else sl_crit_behaviour r = 1 \<and> sl_property r \<noteq> CRIT_BEHAVIOUR_PROPERTY_UNDEFINED \<and>
        sl_type r = CRIT_BEHAVIOUR_TYPE_INCREASE)"

definition first_typed :: "first_layer \<Rightarrow> bool" where
  "first_typed f \<longleftrightarrow>
     length (first_layer_table f) = FIRST_LAYER_TABLE_LENGTH \<and>
     first_layer_table_next_index f \<le> FIRST_LAYER_TABLE_LENGTH \<and>
     distinct (map fl_unique_saddr (take (first_layer_table_next_index f) (first_layer_table f)))"

definition second_typed :: "second_layer \<Rightarrow> bool" where
  "second_typed s \<longleftrightarrow>
     wf_second s \<and> second_layer_table_read_index s \<le> second_layer_table_next_index s \<and>
     list_all row_typed (history s)"

definition core_typed :: "core \<Rightarrow> bool" where
  "core_typed s \<longleftrightarrow>
     first_typed (first_tab s) \<and> second_typed (second_tab s) \<and>
     (from_time s \<noteq> 0 \<longrightarrow> 0 < first_layer_table_next_index (first_tab s))"

lemma core_start_typed: "core_typed core_start"
  by (simp add: core_typed_def core_start_def first_typed_def second_typed_def first_layer_start_def
      wf_second_start history_start) (simp add: second_layer_start_def)

section \<open>The first layer\<close>

lemma account_loop_shape:
  assumes "n \<le> length t"
  shows "\<exists>found t'. account_loop p n i t = Some (found, t') \<and> map fl_unique_saddr t' = map fl_unique_saddr t \<and>
    (\<not> found \<longrightarrow> (\<forall>k. i \<le> k \<longrightarrow> k < n \<longrightarrow> fl_unique_saddr (t ! k) \<noteq> pi_saddr p))"
  using assms
proof (induction p n i t rule: account_loop.induct)
  case (1 p n i t)
  show ?case
  proof (cases "i < n \<and> fl_unique_saddr (t ! i) \<noteq> pi_saddr p")
    case True
    then obtain found t' where u: "account_loop p n (Suc i) t = Some (found, t')" "map fl_unique_saddr t' = map fl_unique_saddr t"
      "\<not> found \<longrightarrow> (\<forall>k. Suc i \<le> k \<longrightarrow> k < n \<longrightarrow> fl_unique_saddr (t ! k) \<noteq> pi_saddr p)"
      using 1 by (metis cell_some order_less_le_trans)
    have "\<not> found \<longrightarrow> (\<forall>k. i \<le> k \<longrightarrow> k < n \<longrightarrow> fl_unique_saddr (t ! k) \<noteq> pi_saddr p)"
      using True u(3) by (metis Suc_leI le_neq_implies_less)
    moreover have "account_loop p n i t = account_loop p n (Suc i) t"
      using True 1(2) by (simp add: account_loop.simps [of p n i t] cell_some)
    ultimately show ?thesis using u(1,2) by auto
  next
    case False
    moreover have "map fl_unique_saddr (t[i := account_row p (t ! i)]) = map fl_unique_saddr t"
      using list_update_id [of "map fl_unique_saddr t" i]
      by (cases "i < length t") (simp_all add: map_update account_row_def list_update_beyond)
    ultimately show ?thesis using 1(2) by (auto simp: account_loop.simps [of p n i t] cell_some)
  qed
qed

lemma account_packet_typed:
  assumes "first_typed f"
  shows "\<exists>f'. account_packet p f = Some f' \<and> first_typed f' \<and> 0 < first_layer_table_next_index f'"
proof -
  let ?n = "first_layer_table_next_index f" and ?t = "first_layer_table f"
  have f: "length ?t = FIRST_LAYER_TABLE_LENGTH" "?n \<le> FIRST_LAYER_TABLE_LENGTH" "distinct (map fl_unique_saddr (take ?n ?t))"
    using assms by (simp_all add: first_typed_def)
  obtain found t' where loop: "account_loop p ?n 0 ?t = Some (found, t')" "map fl_unique_saddr t' = map fl_unique_saddr ?t"
    "\<not> found \<longrightarrow> (\<forall>k<?n. fl_unique_saddr (?t ! k) \<noteq> pi_saddr p)"
    using account_loop_shape [of ?n ?t p 0] f by auto
  have len: "length t' = FIRST_LAYER_TABLE_LENGTH" using f(1) loop(2) by (metis length_map)
  have same: "map fl_unique_saddr (take ?n t') = map fl_unique_saddr (take ?n ?t)" using loop(2) by (metis take_map)
  show ?thesis
  proof (cases "\<not> found \<and> ?n < FIRST_LAYER_TABLE_LENGTH")
    case True
    have "pi_saddr p \<notin> set (map fl_unique_saddr (take ?n ?t))"
      using True loop(3) f by (auto simp: in_set_conv_nth) (metis)
    then have "distinct (map fl_unique_saddr (take (Suc ?n) (t'[?n := new_row p])))"
      using True f len same by (simp add: take_Suc_update new_row_def del: set_map)
    then show ?thesis
      using True loop(1) len by (auto simp: account_packet_def Let_def set_cell_some first_typed_def)
  next
    case False
    have "0 < ?n" if "found" using loop(1) that by (cases "?n = 0") (auto simp: account_loop.simps)
    then have "0 < ?n" using False f(2) by (cases "?n") (auto simp: FIRST_LAYER_TABLE_LENGTH_def)
    then show ?thesis using False loop(1) len same f by (auto simp: account_packet_def Let_def first_typed_def)
  qed
qed

section \<open>The second layer\<close>

lemma list_all_lastn: "list_all P xs \<Longrightarrow> list_all P (lastn k xs)"
  by (auto simp: lastn_def list_all_iff dest: in_set_dropD)

lemma classify_typed:
  assumes "row_typed r" "sl_crit_behaviour r = 0"
  shows "row_typed (classify h r)"
proof (cases "inspect_verdict r (average h)")
  case None
  then show ?thesis using assms by (simp add: classify_def)
next
  case (Some p)
  then obtain g where "find (\<lambda>(p, g). exceeds (g r) (g (average h)) (g initial_vec)) watched = Some (p, g)"
    by (auto simp: inspect_verdict_find)
  then have "(p, g) \<in> set watched" by (auto simp: find_Some_iff in_set_conv_nth)
  then have "p \<noteq> CRIT_BEHAVIOUR_PROPERTY_UNDEFINED" by (auto simp: watched_def)
  then show ?thesis using Some assms(1) by (simp add: classify_def row_typed_def mark_crit_def)
qed

lemma slice_row_typed: "row_typed (slice_row secs n v)" "sl_crit_behaviour (slice_row secs n v) = 0"
  by (simp_all add: row_typed_def slice_row_def)

text \<open>A dump stores one row, classified, and leaves the reader where it was, in the table.\<close>

lemma dump_typed:
  assumes "core_typed s" "0 < first_layer_table_next_index (first_tab s)"
  shows "\<exists>s'. dump_first_layer_table secs s = Some s' \<and> second_typed (second_tab s') \<and>
    first_tab s' = (first_tab s)\<lparr>first_layer_table_next_index := 0\<rparr>"
proof -
  let ?n = "first_layer_table_next_index (first_tab s)"
  have first: "?n \<le> length (first_layer_table (first_tab s))" using assms(1) by (simp add: core_typed_def first_typed_def)
  have second: "wf_second (second_tab s)" "second_layer_table_read_index (second_tab s) \<le> second_layer_table_next_index (second_tab s)"
    "list_all row_typed (history (second_tab s))"
    using assms(1) by (simp_all add: core_typed_def second_typed_def)
  let ?v = "fold add_first_row (take ?n (first_layer_table (first_tab s))) zero_totals"
  obtain u where u: "make_room (second_tab s) = Some u" "wf_second u"
    "history u = lastn (SECOND_LAYER_TABLE_LENGTH - 1) (history (second_tab s))"
    "second_layer_table_next_index u < SECOND_LAYER_TABLE_LENGTH"
    "second_layer_table_read_index u = second_layer_table_read_index (second_tab s)"
    using make_room_spec [OF second(1)] by blast
  obtain w where w: "store_slice (slice_row secs ?n ?v) u = Some w" "wf_second w"
    "history w = history u @ [slice_row secs ?n ?v]" "second_layer_table_read_index w = second_layer_table_read_index u"
    using store_slice_spec [OF u(2,4)] by blast
  obtain x where x: "inspect_last w = Some x" "wf_second x"
    "history x = history u @ [classify (history u) (slice_row secs ?n ?v)]"
    "second_layer_table_read_index x = second_layer_table_read_index w"
    using inspect_last_spec [OF w(2,3)] by blast
  have "second_layer_table_next_index x = Suc (min (SECOND_LAYER_TABLE_LENGTH - 1) (second_layer_table_next_index (second_tab s)))"
    using length_history [OF x(2)] x(3) u(3) length_history [OF second(1)] by simp
  then have "second_layer_table_read_index x \<le> second_layer_table_next_index x"
    using x(4) w(4) u(5) second(1,2) by (simp add: wf_second_def SECOND_LAYER_TABLE_LENGTH_def min_def)
  moreover have "list_all row_typed (history x)"
    using second(3) by (simp add: x(3) u(3) list_all_lastn classify_typed slice_row_typed)
  ultimately have "second_typed x" using x(2) by (simp add: second_typed_def)
  moreover have "dump_first_layer_table secs s =
      Some (s\<lparr>first_tab := (first_tab s)\<lparr>first_layer_table_next_index := 0\<rparr>, second_tab := x\<rparr>)"
    using u w x first assms(2) by (simp add: dump_first_layer_table_def fold_prefix_some)
  ultimately show ?thesis by simp
qed

section \<open>The entries of the module\<close>

lemma rotate_typed:
  assumes "core_typed s"
  shows "\<exists>s'. rotate_window c s = Some s' \<and> first_typed (first_tab s') \<and> second_typed (second_tab s')"
proof (cases "ck_ns_test c - from_time s > dump_ns_periud \<and> from_time s \<noteq> 0")
  case True
  then have "0 < first_layer_table_next_index (first_tab s)" using assms by (simp add: core_typed_def)
  from dump_typed [OF assms this, of "ck_seconds c"] obtain s' where "dump_first_layer_table (ck_seconds c) s = Some s'"
    "second_typed (second_tab s')" "first_tab s' = (first_tab s)\<lparr>first_layer_table_next_index := 0\<rparr>" by blast
  then show ?thesis using True assms by (simp add: rotate_window_def core_typed_def first_typed_def)
next
  case False
  then show ?thesis using assms by (auto simp: rotate_window_def core_typed_def)
qed

lemma add_packet_info_typed:
  assumes "core_typed s"
  shows "\<exists>s'. add_packet_info c p s = Some s' \<and> core_typed s'"
proof -
  obtain u where u: "rotate_window c s = Some u" "first_typed (first_tab u)" "second_typed (second_tab u)"
    using rotate_typed [OF assms] by blast
  obtain f where "account_packet p (first_tab u) = Some f" "first_typed f" "0 < first_layer_table_next_index f"
    using account_packet_typed [OF u(2)] by blast
  then show ?thesis using u by (simp add: add_packet_info_def core_typed_def)
qed

lemma catch_traffic_typed:
  assumes "core_typed s"
  shows "\<exists>s'. catch_traffic c skb s = Some (NF_ACCEPT, s') \<and> core_typed s'"
proof (cases "\<exists>b iph. skb = Some b \<and> skb_network_header b = Some iph")
  case True
  then obtain b iph where b: "skb = Some b" "skb_network_header b = Some iph" by blast
  obtain s' where "add_packet_info c (packet_of iph (skb_transport_syn b)) s = Some s'" "core_typed s'"
    using add_packet_info_typed [OF assms] by blast
  then show ?thesis using b by (simp add: catch_traffic_def)
next
  case False
  then have "catch_traffic c skb s = Some (NF_ACCEPT, s)" by (auto simp: catch_traffic_def split: option.split)
  then show ?thesis using assms by simp
qed

lemma read_l2_data_typed:
  assumes "second_typed s"
  shows "\<exists>n d s'. read_l2_data cnt left s = Some (n, d, s') \<and> second_typed s'"
proof (cases "cnt = sizeof_l2_data_slice \<and> second_layer_table_read_index s < second_layer_table_next_index s")
  case True
  then have "second_layer_table_read_index s < length (second_layer_table s)"
    using assms by (auto simp: second_typed_def wf_second_def)
  then show ?thesis
    using True assms by (auto simp: read_l2_data_def cell_some second_typed_def wf_second_def history_def)
next
  case False
  then show ?thesis using assms by (auto simp: read_l2_data_def second_typed_def wf_second_def history_def)
qed

lemma read_stats_typed:
  assumes "second_typed s"
  shows "read_stats cnt left s \<noteq> None"
proof -
  have "second_layer_table_next_index s \<le> length (second_layer_table s)" using assms by (simp add: second_typed_def wf_second_def)
  then show ?thesis by (auto simp: read_stats_def fold_prefix_some cell_def Let_def)
qed

text \<open>C32: The entries of the module keep a well-formed state well-formed and do not trap in it, whatever
  the counters in the tables: the hook accepts every packet, and the reads of both devices return. The
  tables keep their size, the indices stay within them, no source has two rows, the mark, the
  property and the type of a slice agree, and the reader is not past the newest slice.\<close>

theorem entries_keep_types:
  assumes "core_typed s"
  shows "(\<exists>s'. catch_traffic c skb s = Some (NF_ACCEPT, s') \<and> core_typed s') \<and>
    (\<exists>n d t. read_l2_data cnt left (second_tab s) = Some (n, d, t) \<and> core_typed (s\<lparr>second_tab := t\<rparr>)) \<and>
    read_stats cnt left (second_tab s) \<noteq> None"
proof (intro conjI)
  show "\<exists>s'. catch_traffic c skb s = Some (NF_ACCEPT, s') \<and> core_typed s'"
    by (rule catch_traffic_typed [OF assms])
  have second: "second_typed (second_tab s)" using assms by (simp add: core_typed_def)
  show "\<exists>n d t. read_l2_data cnt left (second_tab s) = Some (n, d, t) \<and> core_typed (s\<lparr>second_tab := t\<rparr>)"
    using read_l2_data_typed [OF second, of cnt left] assms by (auto simp: core_typed_def)
  show "read_stats cnt left (second_tab s) \<noteq> None" by (rule read_stats_typed [OF second])
qed

lemma entries_keep_types_witness:
  "\<exists>s'. catch_traffic \<lparr>ck_ns_test = 5, ck_seconds = 0, ck_ns_reset = 5\<rparr>
      (Some \<lparr>skb_network_header = Some \<lparr>ip_saddr = 1, ip_tot_len = 40, ip_protocol = 6\<rparr>, skb_transport_syn = True\<rparr>) core_start =
    Some (NF_ACCEPT, s') \<and> core_typed s'"
  using entries_keep_types [OF core_start_typed] by blast

end
