(* ===== verification/Traffic_Smp.thy ===== *)
theory Traffic_Smp
  imports Traffic_Types Transition_Systems
begin

text \<open>
  The hook of course_work/code/core_module.c on several processors. The kernel calls \<open>catch_traffic\<close> on
  every processor that receives packets, and \<open>add_packet_info\<close> and \<open>dump_first_layer_table\<close> share their
  tables without a lock. A call is a sequence of steps on the shared state; any processor may move
  between two of them. A step is a test, an assignment to a shared variable, or one turn of a loop; it
  loads or stores at most one row and one index of each table.
\<close>

section \<open>One call, step by step\<close>

datatype hook_at =
    H_time | H_first | H_room | H_shift nat | H_drop | H_fits | H_sum nat layer_totals | H_average layer_totals
  | H_slice second_layer_schema | H_clear | H_grow | H_inspect | H_sums nat second_layer_schema
  | H_means second_layer_schema | H_last second_layer_schema
  | H_judge second_layer_schema second_layer_schema | H_mark crit_behaviour_property | H_reset | H_scan nat | H_count nat first_layer_schema | H_check bool | H_row | H_incr
  | H_done | H_trap

text \<open>A step that traps when it has no result.\<close>

definition or_trap :: "('a \<Rightarrow> hook_at \<times> core) \<Rightarrow> core \<Rightarrow> 'a option \<Rightarrow> (hook_at \<times> core) option" where
  "or_trap f s r = Some (case r of None \<Rightarrow> (H_trap, s) | Some x \<Rightarrow> f x)"

abbreviation put_second :: "core \<Rightarrow> hook_at \<Rightarrow> second_layer \<Rightarrow> hook_at \<times> core" where
  "put_second s a t \<equiv> (a, s\<lparr>second_tab := t\<rparr>)"

text \<open>\<open>k - 1\<close> for an index of type \<open>size_t\<close>.\<close>

definition size_pred :: "nat \<Rightarrow> nat" where
  "size_pred k = (if k = 0 then 2 ^ 64 - 1 else k - 1)"

lemma size_pred_pos [simp]: "0 < k \<Longrightarrow> size_pred k = k - 1"
  by (simp add: size_pred_def)

abbreviation put_slices :: "core \<Rightarrow> hook_at \<Rightarrow> second_layer_schema list \<Rightarrow> hook_at \<times> core" where
  "put_slices s a x \<equiv> (a, s\<lparr>second_tab := (second_tab s)\<lparr>second_layer_table := x\<rparr>\<rparr>)"

text \<open>The steps of \<open>inspect_last\<close>.\<close>

definition inspect_step :: "hook_at \<Rightarrow> core \<Rightarrow> (hook_at \<times> core) option" where
  "inspect_step a s =
     (let t = second_tab s; k = second_layer_table_next_index t in
      case a of
        H_inspect \<Rightarrow> Some (if k < 2 then H_reset else H_sums 0 zero_slice, s)
      | H_sums i v \<Rightarrow>
          if i < size_pred k then or_trap (\<lambda>r. (H_sums (Suc i) (add_slice r v), s)) s (cell (second_layer_table t) i)
          else Some (H_means v, s)
      | H_means v \<Rightarrow> Some (if k = 1 then H_trap else H_last (divide_slice (size_pred k) v), s)
      | H_last v \<Rightarrow> or_trap (\<lambda>r. (H_judge r v, s)) s (cell (second_layer_table t) (size_pred k))
      | H_judge r v \<Rightarrow> Some (case inspect_verdict r v of None \<Rightarrow> H_reset | Some q \<Rightarrow> H_mark q, s)
      | H_mark q \<Rightarrow>
          or_trap (put_slices s H_reset) s
            (do { r \<leftarrow> cell (second_layer_table t) (size_pred k);
                  set_cell (second_layer_table t) (size_pred k) (mark_crit q r) })
      | _ \<Rightarrow> None)"

text \<open>The steps of \<open>dump_first_layer_table\<close>, which ends with the call of \<open>inspect_last\<close>.\<close>

definition dump_step :: "clock \<Rightarrow> hook_at \<Rightarrow> core \<Rightarrow> (hook_at \<times> core) option" where
  "dump_step c a s =
     (let f = first_tab s; t = second_tab s; n = first_layer_table_next_index f; k = second_layer_table_next_index t in
      case a of
        H_room \<Rightarrow> Some (if k \<ge> SECOND_LAYER_TABLE_LENGTH then H_shift 0 else H_fits, s)
      | H_shift i \<Rightarrow>
          if i < SECOND_LAYER_TABLE_LENGTH - 1 then
            or_trap (put_slices s (H_shift (Suc i))) s
              (do { x \<leftarrow> cell (second_layer_table t) (i + 1); set_cell (second_layer_table t) i x })
          else Some (H_drop, s)
      | H_drop \<Rightarrow> Some (H_fits, s\<lparr>second_tab := t\<lparr>second_layer_table_next_index := size_pred k\<rparr>\<rparr>)
      | H_fits \<Rightarrow> Some (if k < SECOND_LAYER_TABLE_LENGTH then H_sum 0 zero_totals else H_reset, s)
      | H_sum i v \<Rightarrow>
          if i < n then or_trap (\<lambda>r. (H_sum (Suc i) (add_first_row r v), s)) s (cell (first_layer_table f) i)
          else Some (H_average v, s)
      | H_average v \<Rightarrow> Some (if n = 0 then H_trap else H_slice (slice_row (ck_seconds c) n v), s)
      | H_slice r \<Rightarrow> or_trap (put_slices s H_clear) s (set_cell (second_layer_table t) k r)
      | H_clear \<Rightarrow> Some (H_grow, s\<lparr>first_tab := f\<lparr>first_layer_table_next_index := 0\<rparr>\<rparr>)
      | H_grow \<Rightarrow> Some (H_inspect, s\<lparr>second_tab := t\<lparr>second_layer_table_next_index := k + 1\<rparr>\<rparr>)
      | _ \<Rightarrow> inspect_step a s)"

text \<open>The steps of \<open>add_packet_info\<close>.\<close>

definition hook_step :: "clock \<Rightarrow> packet_info \<Rightarrow> hook_at \<times> core \<Rightarrow> (hook_at \<times> core) option" where
  "hook_step c p x =
     (case x of (a, s) \<Rightarrow>
      (let f = first_tab s; n = first_layer_table_next_index f in
       case a of
         H_time \<Rightarrow> Some (if ck_ns_test c - from_time s > dump_ns_periud then H_first else H_scan 0, s)
       | H_first \<Rightarrow> Some (if from_time s \<noteq> 0 then H_room else H_reset, s)
       | H_reset \<Rightarrow> Some (H_scan 0, s\<lparr>from_time := ck_ns_reset c\<rparr>)
       | H_scan i \<Rightarrow>
           if i < n then
             or_trap (\<lambda>r. (if fl_unique_saddr r = pi_saddr p then H_count i r else H_scan (Suc i), s)) s
               (cell (first_layer_table f) i)
           else Some (H_check False, s)
       | H_count i r \<Rightarrow>
           or_trap (\<lambda>t. (H_check True, s\<lparr>first_tab := f\<lparr>first_layer_table := t\<rparr>\<rparr>)) s
             (set_cell (first_layer_table f) i (account_row p r))
       | H_check found \<Rightarrow> Some (if \<not> found \<and> n < FIRST_LAYER_TABLE_LENGTH then H_row else H_done, s)
       | H_row \<Rightarrow>
           or_trap (\<lambda>t. (H_incr, s\<lparr>first_tab := f\<lparr>first_layer_table := t\<rparr>\<rparr>)) s
             (set_cell (first_layer_table f) n (new_row p))
       | H_incr \<Rightarrow> Some (H_done, s\<lparr>first_tab := f\<lparr>first_layer_table_next_index := Suc n\<rparr>\<rparr>)
       | H_done \<Rightarrow> None
       | H_trap \<Rightarrow> None
       | _ \<Rightarrow> dump_step c a s))"

text \<open>The processors: each has one call to do, with the clock readings of the call.\<close>

record hook_cpu =
  hk_clock :: clock
  hk_packet :: packet_info
  hk_at :: hook_at

record smp =
  sm_core :: core
  sm_cpus :: "hook_cpu list"

definition smp_exec :: "nat \<Rightarrow> smp \<Rightarrow> smp option" where
  "smp_exec i s =
     (if i < length (sm_cpus s) then
        (let u = sm_cpus s ! i in
         case hook_step (hk_clock u) (hk_packet u) (hk_at u, sm_core s) of
           None \<Rightarrow> None
         | Some (a, t) \<Rightarrow> Some (s\<lparr>sm_core := t, sm_cpus := (sm_cpus s)[i := u\<lparr>hk_at := a\<rparr>]\<rparr>))
      else None)"

definition hook_call :: "clock \<times> packet_info \<Rightarrow> hook_cpu" where
  "hook_call e = \<lparr>hk_clock = fst e, hk_packet = snd e, hk_at = H_time\<rparr>"

definition smp_start :: "(clock \<times> packet_info) list \<Rightarrow> core \<Rightarrow> smp" where
  "smp_start es s = \<lparr>sm_core = s, sm_cpus = map hook_call es\<rparr>"

section \<open>One processor that is left alone\<close>

text \<open>The steps of one call one after the other.\<close>

definition hook_goes :: "clock \<Rightarrow> packet_info \<Rightarrow> hook_at \<times> core \<Rightarrow> hook_at \<times> core \<Rightarrow> bool" where
  "hook_goes c p x y \<longleftrightarrow> (\<lambda>x y. hook_step c p x = Some y)\<^sup>*\<^sup>* x y"

lemma hook_goes_refl: "hook_goes c p x x"
  by (simp add: hook_goes_def)

lemma hook_goes_step: "hook_step c p x = Some y \<Longrightarrow> hook_goes c p y z \<Longrightarrow> hook_goes c p x z"
  unfolding hook_goes_def by (rule converse_rtranclp_into_rtranclp)

lemma hook_goes_trans: "hook_goes c p x y \<Longrightarrow> hook_goes c p y z \<Longrightarrow> hook_goes c p x z"
  unfolding hook_goes_def by (rule rtranclp_trans)

lemma hook_goes_one: "hook_step c p x = Some y \<Longrightarrow> hook_goes c p x y"
  by (rule hook_goes_step [OF _ hook_goes_refl])

lemmas hook_steps = hook_step_def dump_step_def inspect_step_def or_trap_def Let_def

text \<open>The loop that makes room.\<close>

lemma shift_goes:
  assumes "shift_loop i t = Some u" "second_layer_table (second_tab s) = t"
  shows "hook_goes c p (H_shift i, s) (put_slices s H_drop u)"
  using assms
proof (induction i t arbitrary: s rule: shift_loop.induct)
  case (1 i t)
  show ?case
  proof (cases "i < SECOND_LAYER_TABLE_LENGTH - 1")
    case False
    then have "u = t" using "1.prems"(1) by (simp add: shift_loop.simps [of i t])
    then show ?thesis using False "1.prems"(2) by (intro hook_goes_one) (simp add: hook_steps)
  next
    case True
    then obtain x t' where x: "cell t (i + 1) = Some x" "set_cell t i x = Some t'" "shift_loop (i + 1) t' = Some u"
      using "1.prems"(1) by (auto simp: shift_loop.simps [of i t] split: bind_splits)
    have "hook_goes c p (put_slices s (H_shift (Suc i)) t') (put_slices s H_drop u)"
      using "1.IH" [OF True x, of "s\<lparr>second_tab := (second_tab s)\<lparr>second_layer_table := t'\<rparr>\<rparr>"] by simp
    then show ?thesis
      by (rule hook_goes_step [rotated]) (use True x "1.prems"(2) in \<open>simp add: hook_steps\<close>)
  qed
qed

lemma room_goes:
  assumes "make_room (second_tab s) = Some u"
  shows "hook_goes c p (H_room, s) (H_fits, s\<lparr>second_tab := u\<rparr>)"
proof (cases "second_layer_table_next_index (second_tab s) \<ge> SECOND_LAYER_TABLE_LENGTH")
  case False
  then have "u = second_tab s" using assms by (simp add: make_room_def)
  then show ?thesis using False by (intro hook_goes_one) (simp add: hook_steps)
next
  case True
  then obtain t where t: "shift_loop 0 (second_layer_table (second_tab s)) = Some t"
    "u = (second_tab s)\<lparr>second_layer_table := t,
       second_layer_table_next_index := second_layer_table_next_index (second_tab s) - 1\<rparr>"
    using assms by (auto simp: make_room_def split: bind_splits)
  have "0 < second_layer_table_next_index (second_tab s)" using True by (simp add: SECOND_LAYER_TABLE_LENGTH_def)
  then have "hook_goes c p (put_slices s H_drop t) (H_fits, s\<lparr>second_tab := u\<rparr>)"
    using t(2) by (intro hook_goes_one) (simp add: hook_steps)
  with shift_goes [OF t(1) refl] have "hook_goes c p (H_shift 0, s) (H_fits, s\<lparr>second_tab := u\<rparr>)"
    by (rule hook_goes_trans)
  then show ?thesis by (rule hook_goes_step [rotated]) (use True in \<open>simp add: hook_steps\<close>)
qed

text \<open>A loop that goes over the first rows of a table and changes nothing.\<close>

lemma loop_goes:
  assumes turn: "\<And>i v. i < n \<Longrightarrow> hook_step c p (at_row i v, s) = Some (at_row (Suc i) (f (xs ! i) v), s)"
    and "n \<le> length xs"
  shows "hook_goes c p (at_row 0 v, s) (at_row n (fold f (take n xs) v), s)"
proof -
  have "hook_goes c p (at_row 0 v, s) (at_row i (fold f (take i xs) v), s)" if "i \<le> n" for i
    using that
  proof (induction i)
    case 0
    then show ?case by (simp add: hook_goes_refl)
  next
    case (Suc i)
    then have "hook_goes c p (at_row i (fold f (take i xs) v), s) (at_row (Suc i) (fold f (take (Suc i) xs) v), s)"
      using assms(2) by (intro hook_goes_one) (simp add: turn take_Suc_conv_app_nth)
    with Suc show ?case by (auto intro: hook_goes_trans)
  qed
  then show ?thesis by simp
qed

lemma sum_goes:
  assumes "fold_prefix add_first_row (first_layer_table_next_index (first_tab s)) (first_layer_table (first_tab s))
    zero_totals = Some v"
  shows "hook_goes c p (H_sum 0 zero_totals, s) (H_average v, s)"
proof -
  let ?n = "first_layer_table_next_index (first_tab s)" and ?xs = "first_layer_table (first_tab s)"
  have v: "?n \<le> length ?xs" "v = fold add_first_row (take ?n ?xs) zero_totals"
    using assms by (simp_all add: fold_prefix_eq_Some)
  have "hook_goes c p (H_sum 0 zero_totals, s) (H_sum ?n v, s)"
    unfolding v(2) by (rule loop_goes [OF _ v(1)]) (use v(1) in \<open>simp add: hook_steps cell_some\<close>)
  moreover have "hook_goes c p (H_sum ?n v, s) (H_average v, s)" by (rule hook_goes_one) (simp add: hook_steps)
  ultimately show ?thesis by (rule hook_goes_trans)
qed

text \<open>The verdict.\<close>

lemma mark_goes:
  assumes "inspect_last (second_tab s) = Some u" "second_layer_table_next_index (second_tab s) = Suc k" "0 < k"
    and "v = divide_slice k (fold add_slice (take k (second_layer_table (second_tab s))) zero_slice)"
  shows "hook_goes c p (H_last v, s) (H_reset, s\<lparr>second_tab := u\<rparr>)"
proof -
  let ?t = "second_layer_table (second_tab s)"
  have k: "k < length ?t"
    using assms(1-3) by (auto simp: inspect_last_def Let_def fold_prefix_def cell_def split: bind_splits if_splits)
  then have u: "u = (case inspect_verdict (?t ! k) v of None \<Rightarrow> second_tab s
      | Some q \<Rightarrow> (second_tab s)\<lparr>second_layer_table := ?t[k := mark_crit q (?t ! k)]\<rparr>)"
    using assms by (simp add: inspect_last_def Let_def fold_prefix_some cell_some set_cell_some split: option.splits)
  have "hook_goes c p (H_judge (?t ! k) v, s) (H_reset, s\<lparr>second_tab := u\<rparr>)"
  proof (cases "inspect_verdict (?t ! k) v")
    case None
    then show ?thesis using u by (intro hook_goes_one) (simp add: hook_steps)
  next
    case (Some q)
    then have "hook_goes c p (H_mark q, s) (H_reset, s\<lparr>second_tab := u\<rparr>)"
      using u k assms(2) by (intro hook_goes_one) (simp add: hook_steps cell_some set_cell_some)
    then show ?thesis by (rule hook_goes_step [rotated]) (simp add: hook_steps Some)
  qed
  then show ?thesis by (rule hook_goes_step [rotated]) (use k assms(2) in \<open>simp add: hook_steps cell_some\<close>)
qed

lemma inspect_goes:
  assumes "inspect_last (second_tab s) = Some u"
  shows "hook_goes c p (H_inspect, s) (H_reset, s\<lparr>second_tab := u\<rparr>)"
proof (cases "second_layer_table_next_index (second_tab s) < 2")
  case True
  then have "u = second_tab s" using assms by (simp add: inspect_last_def)
  then show ?thesis using True by (intro hook_goes_one) (simp add: hook_steps)
next
  case False
  let ?xs = "second_layer_table (second_tab s)"
  obtain k where k: "second_layer_table_next_index (second_tab s) = Suc k" "0 < k"
    using False by (cases "second_layer_table_next_index (second_tab s)") auto
  have len: "k \<le> length ?xs"
    using assms k by (auto simp: inspect_last_def Let_def fold_prefix_def split: bind_splits if_splits)
  let ?v = "fold add_slice (take k ?xs) zero_slice"
  have sums: "hook_goes c p (H_sums 0 zero_slice, s) (H_sums k ?v, s)"
    by (rule loop_goes [OF _ len]) (use k len in \<open>simp add: hook_steps cell_some\<close>)
  have "hook_goes c p (H_means ?v, s) (H_reset, s\<lparr>second_tab := u\<rparr>)"
    by (rule hook_goes_step [OF _ mark_goes [OF assms k refl]]) (use k in \<open>simp add: hook_steps\<close>)
  then have "hook_goes c p (H_sums k ?v, s) (H_reset, s\<lparr>second_tab := u\<rparr>)"
    by (rule hook_goes_step [rotated]) (simp add: hook_steps k)
  with sums have "hook_goes c p (H_sums 0 zero_slice, s) (H_reset, s\<lparr>second_tab := u\<rparr>)" by (rule hook_goes_trans)
  then show ?thesis by (rule hook_goes_step [rotated]) (use False in \<open>simp add: hook_steps\<close>)
qed

lemma dump_goes:
  assumes "dump_first_layer_table (ck_seconds c) s = Some s'"
  shows "hook_goes c p (H_room, s) (H_reset, s')"
proof -
  let ?f = "first_tab s" and ?n = "first_layer_table_next_index (first_tab s)"
  obtain u where u: "make_room (second_tab s) = Some u"
    using assms by (auto simp: dump_first_layer_table_def split: bind_splits)
  have 1: "hook_goes c p (H_room, s) y" if "hook_goes c p (H_fits, s\<lparr>second_tab := u\<rparr>) y" for y
    using room_goes [OF u] that by (rule hook_goes_trans)
  show ?thesis
  proof (cases "second_layer_table_next_index u < SECOND_LAYER_TABLE_LENGTH")
    case False
    then have "s' = s\<lparr>second_tab := u\<rparr>" using assms u by (simp add: dump_first_layer_table_def)
    then show ?thesis
      using False by (intro 1 hook_goes_step [OF _ hook_goes_refl]) (simp add: hook_steps)
  next
    case True
    then obtain v w x where v: "fold_prefix add_first_row ?n (first_layer_table ?f) zero_totals = Some v" "?n \<noteq> 0"
      and w: "store_slice (slice_row (ck_seconds c) ?n v) u = Some w" and x: "inspect_last w = Some x"
      and s': "s' = s\<lparr>first_tab := ?f\<lparr>first_layer_table_next_index := 0\<rparr>, second_tab := x\<rparr>"
      using assms u by (auto simp: dump_first_layer_table_def Let_def split: bind_splits if_splits)
    obtain t where t: "set_cell (second_layer_table u) (second_layer_table_next_index u) (slice_row (ck_seconds c) ?n v) = Some t"
      "w = u\<lparr>second_layer_table := t, second_layer_table_next_index := second_layer_table_next_index u + 1\<rparr>"
      using w by (auto simp: store_slice_def split: bind_splits)
    let ?s1 = "s\<lparr>second_tab := u\<rparr>" and ?s2 = "s\<lparr>second_tab := u\<lparr>second_layer_table := t\<rparr>\<rparr>"
    let ?s3 = "?s2\<lparr>first_tab := ?f\<lparr>first_layer_table_next_index := 0\<rparr>\<rparr>"
    have "hook_goes c p (H_inspect, ?s3\<lparr>second_tab := w\<rparr>) (H_reset, s')"
      using inspect_goes [of "?s3\<lparr>second_tab := w\<rparr>" x] x by (simp add: s')
    then have "hook_goes c p (H_grow, ?s3) (H_reset, s')"
      by (rule hook_goes_step [rotated]) (simp add: hook_steps t)
    then have "hook_goes c p (H_clear, ?s2) (H_reset, s')"
      by (rule hook_goes_step [rotated]) (simp add: hook_steps)
    then have "hook_goes c p (H_slice (slice_row (ck_seconds c) ?n v), ?s1) (H_reset, s')"
      by (rule hook_goes_step [rotated]) (simp add: hook_steps t)
    then have "hook_goes c p (H_average v, ?s1) (H_reset, s')"
      by (rule hook_goes_step [rotated]) (use v in \<open>simp add: hook_steps\<close>)
    moreover have "hook_goes c p (H_sum 0 zero_totals, ?s1) (H_average v, ?s1)"
      by (rule sum_goes) (simp add: v)
    ultimately have "hook_goes c p (H_sum 0 zero_totals, ?s1) (H_reset, s')" by (rule hook_goes_trans [rotated])
    then have "hook_goes c p (H_fits, ?s1) (H_reset, s')"
      by (rule hook_goes_step [rotated]) (simp add: hook_steps True)
    then show ?thesis by (rule 1)
  qed
qed

text \<open>The search.\<close>

lemma scan_goes:
  assumes "account_loop p n i t = Some (found, t')" "first_layer_table (first_tab s) = t"
    "first_layer_table_next_index (first_tab s) = n"
  shows "hook_goes c p (H_scan i, s) (H_check found, s\<lparr>first_tab := (first_tab s)\<lparr>first_layer_table := t'\<rparr>\<rparr>)"
  using assms
proof (induction p n i t rule: account_loop.induct)
  case (1 p n i t)
  show ?case
  proof (cases "i < n")
    case False
    then have "found = False" "t' = t" using 1(2) by (simp_all add: account_loop.simps [of p n i t])
    then show ?thesis using False 1(3,4) by (intro hook_goes_step [OF _ hook_goes_refl]) (simp add: hook_steps)
  next
    case True
    then obtain r where r: "cell t i = Some r"
      using 1(2) by (auto simp: account_loop.simps [of p n i t] split: option.splits)
    show ?thesis
    proof (cases "fl_unique_saddr r = pi_saddr p")
      case True
      then have "found" "t' = t[i := account_row p r]" "i < length t"
        using 1(2) \<open>i < n\<close> r by (simp_all add: account_loop.simps [of p n i t] cell_eq_Some)
      then have "hook_goes c p (H_count i r, s) (H_check found, s\<lparr>first_tab := (first_tab s)\<lparr>first_layer_table := t'\<rparr>\<rparr>)"
        using 1(3) by (intro hook_goes_step [OF _ hook_goes_refl]) (simp add: hook_steps set_cell_some)
      then show ?thesis
        by (rule hook_goes_step [rotated]) (use True \<open>i < n\<close> r 1(3,4) in \<open>simp add: hook_steps\<close>)
    next
      case False
      then have "account_loop p n (Suc i) t = Some (found, t')"
        using 1(2) \<open>i < n\<close> r by (simp add: account_loop.simps [of p n i t])
      note 1(1) [OF \<open>i < n\<close> r False this 1(3,4)]
      then show ?thesis
        by (rule hook_goes_step [rotated]) (use False \<open>i < n\<close> r 1(3,4) in \<open>simp add: hook_steps\<close>)
    qed
  qed
qed

lemma account_goes:
  assumes "account_packet p (first_tab s) = Some f"
  shows "hook_goes c p (H_scan 0, s) (H_done, s\<lparr>first_tab := f\<rparr>)"
proof -
  let ?n = "first_layer_table_next_index (first_tab s)" and ?t = "first_layer_table (first_tab s)"
  obtain found t where t: "account_loop p ?n 0 ?t = Some (found, t)"
    using assms by (auto simp: account_packet_def Let_def split: option.splits)
  let ?s = "s\<lparr>first_tab := (first_tab s)\<lparr>first_layer_table := t\<rparr>\<rparr>"
  have "hook_goes c p (H_check found, ?s) (H_done, s\<lparr>first_tab := f\<rparr>)"
  proof (cases "\<not> found \<and> ?n < FIRST_LAYER_TABLE_LENGTH")
    case True
    then obtain t' where t': "set_cell t ?n (new_row p) = Some t'"
      "f = \<lparr>first_layer_table = t', first_layer_table_next_index = Suc ?n\<rparr>"
      using assms t by (auto simp: account_packet_def Let_def)
    then have "hook_goes c p (H_incr, s\<lparr>first_tab := (first_tab s)\<lparr>first_layer_table := t'\<rparr>\<rparr>) (H_done, s\<lparr>first_tab := f\<rparr>)"
      by (intro hook_goes_step [OF _ hook_goes_refl]) (simp add: hook_steps)
    then have "hook_goes c p (H_row, ?s) (H_done, s\<lparr>first_tab := f\<rparr>)"
      by (rule hook_goes_step [rotated]) (simp add: hook_steps t')
    then show ?thesis by (rule hook_goes_step [rotated]) (use True in \<open>simp add: hook_steps\<close>)
  next
    case False
    then have "s\<lparr>first_tab := f\<rparr> = ?s" using assms t by (auto simp: account_packet_def Let_def)
    then show ?thesis using False by (intro hook_goes_step [OF _ hook_goes_refl]) (simp add: hook_steps)
  qed
  with scan_goes [OF t refl refl] show ?thesis by (rule hook_goes_trans)
qed

text \<open>A call that is left alone does what \<open>add_packet_info\<close> does.\<close>

lemma call_goes:
  assumes "add_packet_info c p s = Some s'"
  shows "hook_goes c p (H_time, s) (H_done, s')"
proof -
  obtain u f where u: "rotate_window c s = Some u" "account_packet p (first_tab u) = Some f" "s' = u\<lparr>first_tab := f\<rparr>"
    using assms by (auto simp: add_packet_info_def split: bind_splits)
  have tail: "hook_goes c p (H_scan 0, u) (H_done, s')" using account_goes [OF u(2)] by (simp add: u(3))
  show ?thesis
  proof (cases "ck_ns_test c - from_time s > dump_ns_periud")
    case False
    then have "u = s" using u(1) by (simp add: rotate_window_def)
    then show ?thesis using tail False by (intro hook_goes_step [OF _ tail]) (simp add: hook_steps)
  next
    case True
    then obtain w where w: "(if from_time s \<noteq> 0 then dump_first_layer_table (ck_seconds c) s else Some s) = Some w"
      "u = w\<lparr>from_time := ck_ns_reset c\<rparr>"
      using u(1) by (auto simp: rotate_window_def split: bind_splits if_splits)
    have reset: "hook_goes c p (H_reset, w) (H_done, s')"
      by (rule hook_goes_step [OF _ tail]) (simp add: hook_steps w(2))
    have "hook_goes c p (H_first, s) (H_done, s')"
    proof (cases "from_time s = 0")
      case True
      then show ?thesis using w(1) by (intro hook_goes_step [OF _ reset]) (simp add: hook_steps)
    next
      case False
      then have "hook_goes c p (H_room, s) (H_done, s')"
        using w(1) by (intro hook_goes_trans [OF dump_goes reset]) simp
      then show ?thesis by (rule hook_goes_step [rotated]) (use False in \<open>simp add: hook_steps\<close>)
    qed
    then show ?thesis by (rule hook_goes_step [rotated]) (use True in \<open>simp add: hook_steps\<close>)
  qed
qed

section \<open>One processor among others\<close>

text \<open>The steps of a call that nothing comes between are a part of a schedule.\<close>

lemma smp_goes:
  assumes "hook_goes c p x y" "i < length us" "us ! i = \<lparr>hk_clock = c, hk_packet = p, hk_at = fst x\<rparr>"
  shows "\<exists>k. run_schedule smp_exec (replicate k i) \<lparr>sm_core = snd x, sm_cpus = us\<rparr> =
    Some \<lparr>sm_core = snd y, sm_cpus = us[i := \<lparr>hk_clock = c, hk_packet = p, hk_at = fst y\<rparr>]\<rparr>"
  using assms(1)[unfolded hook_goes_def] assms(2,3)
proof (induction arbitrary: us rule: converse_rtranclp_induct)
  case base
  then have "us[i := \<lparr>hk_clock = c, hk_packet = p, hk_at = fst y\<rparr>] = us" by (metis list_update_id)
  then show ?case by (intro exI [of _ 0]) simp
next
  case (step x z)
  let ?us = "us[i := \<lparr>hk_clock = c, hk_packet = p, hk_at = fst z\<rparr>]"
  obtain k where "run_schedule smp_exec (replicate k i) \<lparr>sm_core = snd z, sm_cpus = ?us\<rparr> =
      Some \<lparr>sm_core = snd y, sm_cpus = ?us[i := \<lparr>hk_clock = c, hk_packet = p, hk_at = fst y\<rparr>]\<rparr>"
    using step.IH [of ?us] step.prems by auto
  moreover have "smp_exec i \<lparr>sm_core = snd x, sm_cpus = us\<rparr> = Some \<lparr>sm_core = snd z, sm_cpus = ?us\<rparr>"
    using step.hyps(1) step.prems by (cases x; cases z) (simp add: smp_exec_def)
  ultimately show ?case by (intro exI [of _ "Suc k"]) simp
qed

lemma smp_reaches:
  assumes "hook_goes c p (a, s) (a', s')" "i < length us" "us ! i = \<lparr>hk_clock = c, hk_packet = p, hk_at = a\<rparr>"
  shows "(sched_step smp_exec)\<^sup>*\<^sup>* \<lparr>sm_core = s, sm_cpus = us\<rparr>
    \<lparr>sm_core = s', sm_cpus = us[i := \<lparr>hk_clock = c, hk_packet = p, hk_at = a'\<rparr>]\<rparr>"
  using smp_goes [OF assms(1,2)] assms(3) run_schedule_reaches by fastforce

text \<open>The call with a packet whose source has a row, up to the load of the row.\<close>

lemma scan_hits:
  assumes "i \<le> j" "j < first_layer_table_next_index (first_tab s)"
    "first_layer_table_next_index (first_tab s) \<le> length (first_layer_table (first_tab s))"
    "fl_unique_saddr (first_layer_table (first_tab s) ! j) = pi_saddr p"
    "\<forall>k. i \<le> k \<and> k < j \<longrightarrow> fl_unique_saddr (first_layer_table (first_tab s) ! k) \<noteq> pi_saddr p"
  shows "hook_goes c p (H_scan i, s) (H_count j (first_layer_table (first_tab s) ! j), s)"
  using assms
proof (induction "j - i" arbitrary: i)
  case 0
  then show ?case by (intro hook_goes_one) (simp add: hook_steps cell_some)
next
  case (Suc d)
  then have "hook_goes c p (H_scan (Suc i), s) (H_count j (first_layer_table (first_tab s) ! j), s)" by simp
  then show ?case
    by (rule hook_goes_step [rotated]) (use Suc.hyps(2) Suc.prems in \<open>simp add: hook_steps cell_some\<close>)
qed

lemma no_rotation: "ck_ns_test c - from_time s \<le> dump_ns_periud \<Longrightarrow> hook_goes c p (H_time, s) (H_scan 0, s)"
  by (intro hook_goes_one) (simp add: hook_steps)

text \<open>Schedules in which the processors have their turns one after the other.\<close>

definition turns :: "nat list \<Rightarrow> nat list" where
  "turns ks = concat (map (\<lambda>i. replicate (ks ! i) i) [0..<length ks])"

lemma turns_snoc: "turns (ks @ [k]) = turns ks @ replicate k (length ks)"
proof -
  have same: "map (\<lambda>i. replicate ((ks @ [k]) ! i) i) [0..<length ks] = map (\<lambda>i. replicate (ks ! i) i) [0..<length ks]"
    by (rule map_cong) (auto simp: nth_append)
  show ?thesis unfolding turns_def length_append_singleton upt_Suc_append [OF le0] map_append concat_append same by simp
qed

definition calls_done :: "nat \<Rightarrow> (clock \<times> packet_info) list \<Rightarrow> core \<Rightarrow> smp" where
  "calls_done m es s = \<lparr>sm_core = s,
     sm_cpus = map (\<lambda>e. (hook_call e)\<lparr>hk_at := H_done\<rparr>) (take m es) @ map hook_call (drop m es)\<rparr>"

lemma call_in_turn:
  assumes "m < length es" "add_packet_info (fst (es ! m)) (snd (es ! m)) s = Some s'"
  shows "\<exists>k. run_schedule smp_exec (replicate k m) (calls_done m es s) = Some (calls_done (Suc m) es s')"
proof -
  obtain c p where e: "es ! m = (c, p)" by fastforce
  have es: "take (Suc m) es = take m es @ [(c, p)]" "drop m es = (c, p) # drop (Suc m) es"
    using assms(1) e by (simp_all add: take_Suc_conv_app_nth Cons_nth_drop_Suc [symmetric])
  let ?us = "map (\<lambda>e. (hook_call e)\<lparr>hk_at := H_done\<rparr>) (take m es) @ map hook_call (drop m es)"
  have m: "m < length ?us" "?us ! m = \<lparr>hk_clock = c, hk_packet = p, hk_at = H_time\<rparr>"
    using assms(1) e by (simp_all add: nth_append hook_call_def)
  have "add_packet_info c p s = Some s'" using assms(2) e by simp
  from smp_goes [OF call_goes [OF this] m(1), unfolded fst_conv snd_conv, OF m(2)]
  show ?thesis using assms(1) by (simp add: calls_done_def es list_update_append hook_call_def)
qed

section \<open>Properties\<close>

text \<open>C6: With a lock the hook would be what the sequential model says: when the calls of any number of
  processors run one after the other, whatever clocks and packets they have, none traps, all are done,
  and the tables are those of the specification.\<close>

theorem serial_calls_refine:
  "\<exists>ks S. length ks = length es \<and> run_schedule smp_exec (turns ks) (smp_start es core_start) = Some S \<and>
    map hk_at (sm_cpus S) = replicate (length es) H_done \<and> refines (spec_run es) (sm_core S)"
proof -
  have "\<exists>ks s. length ks = m \<and> refines (spec_run (take m es)) s \<and>
      run_schedule smp_exec (turns ks) (smp_start es core_start) = Some (calls_done m es s)"
    if "m \<le> length es" for m
    using that
  proof (induction m)
    case 0
    then show ?case using refines_start by (simp add: spec_run_def smp_start_def calls_done_def turns_def)
  next
    case (Suc m)
    then obtain ks s where ks: "length ks = m" "refines (spec_run (take m es)) s"
      "run_schedule smp_exec (turns ks) (smp_start es core_start) = Some (calls_done m es s)" by auto
    obtain s' where s': "add_packet_info (fst (es ! m)) (snd (es ! m)) s = Some s'"
      "refines (spec_step (fst (es ! m)) (snd (es ! m)) (spec_run (take m es))) s'"
      using add_packet_info_refines [OF ks(2)] by blast
    obtain k where "run_schedule smp_exec (replicate k m) (calls_done m es s) = Some (calls_done (Suc m) es s')"
      using call_in_turn [OF _ s'(1)] Suc.prems by auto
    then have "run_schedule smp_exec (turns (ks @ [k])) (smp_start es core_start) = Some (calls_done (Suc m) es s')"
      using ks by (simp add: turns_snoc run_schedule_append)
    moreover have "refines (spec_run (take (Suc m) es)) s'"
      using s'(2) Suc.prems by (simp add: spec_run_def take_Suc_conv_app_nth)
    ultimately show ?case using ks(1) by (intro exI [of _ "ks @ [k]"]) auto
  qed
  from this [of "length es"] obtain ks s where "length ks = length es" "refines (spec_run es) s"
    "run_schedule smp_exec (turns ks) (smp_start es core_start) = Some (calls_done (length es) es s)" by auto
  moreover have "map hk_at (sm_cpus (calls_done (length es) es s)) = replicate (length es) H_done"
    by (simp add: calls_done_def comp_def map_replicate_const)
  moreover have "sm_core (calls_done (length es) es s) = s" by (simp add: calls_done_def)
  ultimately show ?thesis by metis
qed

text \<open>C7: Without one, two packets can stop the kernel: whenever the window is over, in any well-formed
  state, two processors can both decide to fold it, and the second one divides by the number of rows
  that the first one has just set to 0.\<close>

theorem race_divides_by_zero:
  assumes "core_typed s" "from_time s \<noteq> 0"
    and "dump_ns_periud < ck_ns_test c - from_time s" "dump_ns_periud < ck_ns_test d - from_time s"
  shows "\<exists>S. (sched_step smp_exec)\<^sup>*\<^sup>* (smp_start [(c, p), (d, q)] s) S \<and> hk_at (sm_cpus S ! 1) = H_trap"
proof -
  let ?cpu = "\<lambda>c p a. \<lparr>hk_clock = c, hk_packet = p, hk_at = a\<rparr>"
  have rows: "0 < first_layer_table_next_index (first_tab s)" using assms(1,2) by (simp add: core_typed_def)
  have room: "hook_goes c p (H_time, s) (H_room, s)" if "dump_ns_periud < ck_ns_test c - from_time s" for c p
    using that assms(2) by (intro hook_goes_step [OF _ hook_goes_one]) (auto simp: hook_steps)
  obtain t where t: "dump_first_layer_table (ck_seconds c) s = Some t" "second_typed (second_tab t)"
    "first_tab t = (first_tab s)\<lparr>first_layer_table_next_index := 0\<rparr>"
    using dump_typed [OF assms(1) rows] by blast
  obtain u where u: "make_room (second_tab t) = Some u" "second_layer_table_next_index u < SECOND_LAYER_TABLE_LENGTH"
    using make_room_spec t(2) unfolding second_typed_def by blast
  let ?t = "t\<lparr>second_tab := u\<rparr>"
  have "hook_goes d q (H_average zero_totals, ?t) (H_trap, ?t)"
    by (rule hook_goes_one) (simp add: hook_steps t(3))
  then have "hook_goes d q (H_sum 0 zero_totals, ?t) (H_trap, ?t)"
    by (rule hook_goes_step [rotated]) (simp add: hook_steps t(3))
  then have "hook_goes d q (H_fits, ?t) (H_trap, ?t)"
    by (rule hook_goes_step [rotated]) (simp add: hook_steps u(2))
  with room_goes [OF u(1)] have trap: "hook_goes d q (H_room, t) (H_trap, ?t)" by (rule hook_goes_trans)
  have "(sched_step smp_exec)\<^sup>*\<^sup>* (smp_start [(c, p), (d, q)] s) \<lparr>sm_core = s, sm_cpus = [?cpu c p H_time, ?cpu d q H_room]\<rparr>"
    using smp_reaches [OF room [OF assms(4), of q], of 1 "[?cpu c p H_time, ?cpu d q H_time]"]
    by (simp add: smp_start_def hook_call_def)
  also have "(sched_step smp_exec)\<^sup>*\<^sup>* \<dots> \<lparr>sm_core = t, sm_cpus = [?cpu c p H_reset, ?cpu d q H_room]\<rparr>"
    using smp_reaches [OF hook_goes_trans [OF room [OF assms(3), of p] dump_goes [OF t(1)]], of 0
        "[?cpu c p H_time, ?cpu d q H_room]"] by simp
  also have "(sched_step smp_exec)\<^sup>*\<^sup>* \<dots> \<lparr>sm_core = ?t, sm_cpus = [?cpu c p H_reset, ?cpu d q H_trap]\<rparr>"
    using smp_reaches [OF trap, of 1 "[?cpu c p H_reset, ?cpu d q H_room]"] by simp
  finally show ?thesis by - (intro exI conjI, assumption, simp)
qed

lemma race_divides_by_zero_witness:
  "\<exists>S. (sched_step smp_exec)\<^sup>*\<^sup>* (smp_start
      [(\<lparr>ck_ns_test = 20000000000, ck_seconds = 20, ck_ns_reset = 20000000000\<rparr>,
        \<lparr>pi_saddr = 1, pi_tot_len = 40, pi_is_tcp = 0, pi_is_syn = 0\<rparr>),
       (\<lparr>ck_ns_test = 20000000001, ck_seconds = 20, ck_ns_reset = 20000000001\<rparr>,
        \<lparr>pi_saddr = 2, pi_tot_len = 40, pi_is_tcp = 0, pi_is_syn = 0\<rparr>)]
     (core_start\<lparr>first_tab := first_layer_start\<lparr>first_layer_table_next_index := 1\<rparr>, from_time := 5\<rparr>)) S \<and>
   hk_at (sm_cpus S ! 1) = H_trap"
proof (rule race_divides_by_zero)
  show "core_typed (core_start\<lparr>first_tab := first_layer_start\<lparr>first_layer_table_next_index := 1\<rparr>, from_time := 5\<rparr>)"
    using core_start_typed by (simp add: core_typed_def core_start_def first_typed_def first_layer_start_def FIRST_LAYER_TABLE_LENGTH_def)
qed (simp_all add: dump_ns_periud_def)

text \<open>C8: With 63 rows two packets of new sources can leave the table: both processors find the room for a
  row, and the second one stores its row at index 64, behind the end.\<close>

theorem race_writes_past_table:
  assumes "first_typed (first_tab s)" "first_layer_table_next_index (first_tab s) = 63"
    and "\<forall>k<63. fl_unique_saddr (first_layer_table (first_tab s) ! k) \<notin> {pi_saddr p, pi_saddr q}"
    and "ck_ns_test c - from_time s \<le> dump_ns_periud" "ck_ns_test d - from_time s \<le> dump_ns_periud"
  shows "\<exists>S. (sched_step smp_exec)\<^sup>*\<^sup>* (smp_start [(c, p), (d, q)] s) S \<and> hk_at (sm_cpus S ! 1) = H_trap"
proof -
  let ?cpu = "\<lambda>c p a. \<lparr>hk_clock = c, hk_packet = p, hk_at = a\<rparr>" and ?f = "first_tab s"
  have len: "length (first_layer_table ?f) = 64" using assms(1) by (simp add: first_typed_def FIRST_LAYER_TABLE_LENGTH_def)
  have row: "hook_goes e r (H_time, s) (H_row, s)"
    if "r \<in> {p, q}" "ck_ns_test e - from_time s \<le> dump_ns_periud" for e r
  proof -
    have "account_loop r 63 0 (first_layer_table ?f) = Some (False, first_layer_table ?f)"
      by (rule account_loop_miss) (use that(1) assms(3) len in auto)
    from scan_goes [OF this refl assms(2)] have "hook_goes e r (H_scan 0, s) (H_check False, s)" by simp
    moreover have "hook_goes e r (H_check False, s) (H_row, s)"
      by (rule hook_goes_one) (simp add: hook_steps assms(2) FIRST_LAYER_TABLE_LENGTH_def)
    ultimately show ?thesis using no_rotation [OF that(2)] hook_goes_trans by blast
  qed
  let ?t = "s\<lparr>first_tab := \<lparr>first_layer_table = (first_layer_table ?f)[63 := new_row p], first_layer_table_next_index = 64\<rparr>\<rparr>"
  have "hook_goes c p (H_incr, s\<lparr>first_tab := ?f\<lparr>first_layer_table := (first_layer_table ?f)[63 := new_row p]\<rparr>\<rparr>) (H_done, ?t)"
    by (rule hook_goes_one) (simp add: hook_steps assms(2))
  then have full: "hook_goes c p (H_row, s) (H_done, ?t)"
    by (rule hook_goes_step [rotated]) (simp add: hook_steps assms(2) len set_cell_some)
  have trap: "hook_goes d q (H_row, ?t) (H_trap, ?t)"
    by (rule hook_goes_one) (simp add: hook_steps len set_cell_def)
  have "(sched_step smp_exec)\<^sup>*\<^sup>* (smp_start [(c, p), (d, q)] s) \<lparr>sm_core = s, sm_cpus = [?cpu c p H_time, ?cpu d q H_row]\<rparr>"
    using smp_reaches [OF row [OF _ assms(5), of q], of 1 "[?cpu c p H_time, ?cpu d q H_time]"]
    by (simp add: smp_start_def hook_call_def)
  also have "(sched_step smp_exec)\<^sup>*\<^sup>* \<dots> \<lparr>sm_core = ?t, sm_cpus = [?cpu c p H_done, ?cpu d q H_row]\<rparr>"
    using smp_reaches [OF hook_goes_trans [OF row [OF _ assms(4), of p] full], of 0 "[?cpu c p H_time, ?cpu d q H_row]"] by simp
  also have "(sched_step smp_exec)\<^sup>*\<^sup>* \<dots> \<lparr>sm_core = ?t, sm_cpus = [?cpu c p H_done, ?cpu d q H_trap]\<rparr>"
    using smp_reaches [OF trap, of 1 "[?cpu c p H_done, ?cpu d q H_row]"] by simp
  finally show ?thesis by - (intro exI conjI, assumption, simp)
qed

definition full_but_one :: core where
  "full_but_one = core_start\<lparr>first_tab := \<lparr>first_layer_table = map (\<lambda>k. zero_first_row\<lparr>fl_unique_saddr := word_of_nat k\<rparr>) [0..<64],
     first_layer_table_next_index = 63\<rparr>\<rparr>"

lemma small_words: "j < 64 \<Longrightarrow> k < 64 \<Longrightarrow> (word_of_nat j :: u32) = word_of_nat k \<longleftrightarrow> j = k"
  by (simp add: word_of_nat_eq_iff take_bit_nat_eq_self_iff take_bit_nat_eq_self)

lemma full_but_one_typed: "first_typed (first_tab full_but_one)"
proof -
  have "inj_on (\<lambda>k. word_of_nat k :: u32) {0..<63}" by (auto simp: inj_on_def small_words)
  then show ?thesis
    by (simp add: full_but_one_def first_typed_def FIRST_LAYER_TABLE_LENGTH_def take_map distinct_map comp_def)
qed

lemma race_writes_past_table_witness:
  "\<exists>S. (sched_step smp_exec)\<^sup>*\<^sup>* (smp_start [(\<lparr>ck_ns_test = 5, ck_seconds = 0, ck_ns_reset = 5\<rparr>,
       \<lparr>pi_saddr = 1000, pi_tot_len = 40, pi_is_tcp = 0, pi_is_syn = 0\<rparr>),
      (\<lparr>ck_ns_test = 6, ck_seconds = 0, ck_ns_reset = 6\<rparr>,
       \<lparr>pi_saddr = 1001, pi_tot_len = 40, pi_is_tcp = 0, pi_is_syn = 0\<rparr>)] full_but_one) S \<and>
   hk_at (sm_cpus S ! 1) = H_trap"
proof (rule race_writes_past_table [OF full_but_one_typed])
  have "(word_of_nat k :: u32) \<noteq> 1000 \<and> (word_of_nat k :: u32) \<noteq> 1001" if "k < 63" for k
  proof -
    have "unat (word_of_nat k :: u32) = k" using that by (simp add: unsigned_of_nat take_bit_nat_eq_self)
    then show ?thesis using that by auto
  qed
  then show "\<forall>k<63. fl_unique_saddr (first_layer_table (first_tab full_but_one) ! k) \<notin>
      {pi_saddr \<lparr>pi_saddr = 1000, pi_tot_len = 40, pi_is_tcp = 0, pi_is_syn = 0\<rparr>,
       pi_saddr \<lparr>pi_saddr = 1001, pi_tot_len = 40, pi_is_tcp = 0, pi_is_syn = 0\<rparr>}"
    by (simp add: full_but_one_def)
qed (simp_all add: full_but_one_def core_start_def dump_ns_periud_def)

text \<open>Two packets of one known source can be counted as one: both processors load the row, and the
  second store overwrites the first.\<close>

theorem race_loses_packet:
  assumes "first_typed (first_tab s)" "j < first_layer_table_next_index (first_tab s)"
    and "fl_unique_saddr (first_layer_table (first_tab s) ! j) = pi_saddr p" "pi_saddr q = pi_saddr p"
    and "ck_ns_test c - from_time s \<le> dump_ns_periud" "ck_ns_test d - from_time s \<le> dump_ns_periud"
  shows "\<exists>S. (sched_step smp_exec)\<^sup>*\<^sup>* (smp_start [(c, p), (d, q)] s) S \<and> map hk_at (sm_cpus S) = [H_done, H_done] \<and>
    first_layer_table (first_tab (sm_core S)) =
      (first_layer_table (first_tab s))[j := account_row q (first_layer_table (first_tab s) ! j)]"
proof -
  let ?cpu = "\<lambda>c p a. \<lparr>hk_clock = c, hk_packet = p, hk_at = a\<rparr>" and ?f = "first_tab s"
  let ?t = "first_layer_table ?f" and ?n = "first_layer_table_next_index ?f"
  let ?row = "?t ! j"
  have len: "length ?t = FIRST_LAYER_TABLE_LENGTH" "?n \<le> length ?t" "distinct (map fl_unique_saddr (take ?n ?t))"
    using assms(1) by (auto simp: first_typed_def)
  have first: "\<forall>k. 0 \<le> k \<and> k < j \<longrightarrow> fl_unique_saddr (?t ! k) \<noteq> pi_saddr r" if "pi_saddr r = pi_saddr p" for r
  proof (intro allI impI)
    fix k assume "0 \<le> k \<and> k < j"
    then have "map fl_unique_saddr (take ?n ?t) ! k \<noteq> map fl_unique_saddr (take ?n ?t) ! j"
      using len assms(2) by (intro distinct_conv_nth [THEN iffD1, rule_format]) auto
    then show "fl_unique_saddr (?t ! k) \<noteq> pi_saddr r"
      using \<open>0 \<le> k \<and> k < j\<close> len(2) assms(2,3) that by simp
  qed
  have load: "hook_goes e r (H_time, s) (H_count j ?row, s)"
    if "pi_saddr r = pi_saddr p" "ck_ns_test e - from_time s \<le> dump_ns_periud" for e r
    using hook_goes_trans [OF no_rotation [OF that(2)] scan_hits [OF le0 assms(2) len(2) _ first [OF that(1)]]]
      assms(3) that(1) by simp
  have store: "hook_goes e r (H_count j ?row, s\<lparr>first_tab := ?f\<lparr>first_layer_table := x\<rparr>\<rparr>)
      (H_done, s\<lparr>first_tab := ?f\<lparr>first_layer_table := x[j := account_row r ?row]\<rparr>\<rparr>)" if x: "length x = length ?t" for e r x
  proof -
    let ?y = "x[j := account_row r ?row]"
    have "hook_goes e r (H_check True, s\<lparr>first_tab := ?f\<lparr>first_layer_table := ?y\<rparr>\<rparr>) (H_done, s\<lparr>first_tab := ?f\<lparr>first_layer_table := ?y\<rparr>\<rparr>)"
      by (rule hook_goes_one) (simp add: hook_steps)
    then show ?thesis
      by (rule hook_goes_step [rotated]) (use x len(2) assms(2) in \<open>simp add: hook_steps set_cell_some\<close>)
  qed
  let ?x = "?t[j := account_row p ?row]"
  have "(sched_step smp_exec)\<^sup>*\<^sup>* (smp_start [(c, p), (d, q)] s) \<lparr>sm_core = s, sm_cpus = [?cpu c p H_time, ?cpu d q (H_count j ?row)]\<rparr>"
    using smp_reaches [OF load [OF assms(4,6)], of 1 "[?cpu c p H_time, ?cpu d q H_time]"]
    by (simp add: smp_start_def hook_call_def)
  also have "(sched_step smp_exec)\<^sup>*\<^sup>* \<dots>
      \<lparr>sm_core = s\<lparr>first_tab := ?f\<lparr>first_layer_table := ?x\<rparr>\<rparr>, sm_cpus = [?cpu c p H_done, ?cpu d q (H_count j ?row)]\<rparr>"
    using smp_reaches [OF hook_goes_trans [OF load [OF refl assms(5)] store [of ?t, simplified]], of 0
        "[?cpu c p H_time, ?cpu d q (H_count j ?row)]"] by simp
  also have "(sched_step smp_exec)\<^sup>*\<^sup>* \<dots>
      \<lparr>sm_core = s\<lparr>first_tab := ?f\<lparr>first_layer_table := ?x[j := account_row q ?row]\<rparr>\<rparr>, sm_cpus = [?cpu c p H_done, ?cpu d q H_done]\<rparr>"
    using smp_reaches [OF store [of ?x d q], of 1 "[?cpu c p H_done, ?cpu d q (H_count j ?row)]"] by simp
  finally show ?thesis by - (intro exI conjI, assumption, simp_all)
qed

lemma race_loses_packet_witness:
  "\<exists>S. (sched_step smp_exec)\<^sup>*\<^sup>* (smp_start (replicate 2 (\<lparr>ck_ns_test = 5, ck_seconds = 0, ck_ns_reset = 5\<rparr>,
       \<lparr>pi_saddr = 7, pi_tot_len = 40, pi_is_tcp = 0, pi_is_syn = 0\<rparr>)) full_but_one) S \<and>
   map hk_at (sm_cpus S) = [H_done, H_done] \<and>
   fl_catched_packets_count (first_layer_table (first_tab (sm_core S)) ! 7) = 1"
proof -
  let ?e = "(\<lparr>ck_ns_test = 5, ck_seconds = 0, ck_ns_reset = 5\<rparr>, \<lparr>pi_saddr = 7, pi_tot_len = 40, pi_is_tcp = 0, pi_is_syn = 0\<rparr>)"
  let ?t = "first_layer_table (first_tab full_but_one)"
  have "\<exists>S. (sched_step smp_exec)\<^sup>*\<^sup>* (smp_start [?e, ?e] full_but_one) S \<and> map hk_at (sm_cpus S) = [H_done, H_done] \<and>
      first_layer_table (first_tab (sm_core S)) = ?t[7 := account_row (snd ?e) (?t ! 7)]"
    unfolding snd_conv by (rule race_loses_packet [OF full_but_one_typed])
      (simp_all add: full_but_one_def core_start_def dump_ns_periud_def)
  moreover have "fl_catched_packets_count (?t[7 := account_row (snd ?e) (?t ! 7)] ! 7) = 1"
    by (simp add: full_but_one_def account_row_def zero_first_row_def)
  ultimately show ?thesis by (metis numeral_2_eq_2 replicate_0 replicate_Suc)
qed

section \<open>Every call ends\<close>

text \<open>The steps a call can still take at a place, whatever the other processors do to the tables.\<close>

fun hook_rank :: "hook_at \<Rightarrow> nat" where
  "hook_rank H_time = 1174" | "hook_rank H_first = 1173" | "hook_rank H_room = 1172"
| "hook_rank (H_shift i) = 660 + (511 - i)" | "hook_rank H_drop = 659" | "hook_rank H_fits = 658"
| "hook_rank (H_sum i v) = 593 + (64 - i)" | "hook_rank (H_average v) = 592" | "hook_rank (H_slice r) = 591"
| "hook_rank H_clear = 590" | "hook_rank H_grow = 589" | "hook_rank H_inspect = 588"
| "hook_rank (H_sums i v) = 75 + (512 - i)" | "hook_rank (H_means v) = 74" | "hook_rank (H_last v) = 73"
| "hook_rank (H_judge r v) = 72" | "hook_rank (H_mark q) = 71" | "hook_rank H_reset = 70"
| "hook_rank (H_scan i) = 5 + (64 - i)" | "hook_rank (H_count i r) = 4" | "hook_rank (H_check b) = 3"
| "hook_rank H_row = 2" | "hook_rank H_incr = 1" | "hook_rank H_done = 0" | "hook_rank H_trap = 0"

definition tables_sized :: "core \<Rightarrow> bool" where
  "tables_sized s \<longleftrightarrow> length (first_layer_table (first_tab s)) = FIRST_LAYER_TABLE_LENGTH \<and>
     length (second_layer_table (second_tab s)) = SECOND_LAYER_TABLE_LENGTH"

lemma dump_step_sized:
  assumes "dump_step c a s = Some (b, t)" "tables_sized s"
  shows "hook_rank b < hook_rank a \<and> tables_sized t"
  using assms
  by (cases a)
    (auto simp: dump_step_def inspect_step_def or_trap_def Let_def tables_sized_def cell_eq_Some set_cell_eq_Some
      FIRST_LAYER_TABLE_LENGTH_def SECOND_LAYER_TABLE_LENGTH_def split: if_splits option.splits bind_splits)

lemma hook_step_sized:
  assumes "hook_step c p (a, s) = Some (b, t)" "tables_sized s"
  shows "hook_rank b < hook_rank a \<and> tables_sized t"
  using assms dump_step_sized [of c a s b t]
  by (cases a)
    (auto simp: hook_step_def or_trap_def Let_def tables_sized_def cell_eq_Some set_cell_eq_Some
      FIRST_LAYER_TABLE_LENGTH_def split: if_splits option.splits)

lemma hook_step_stops: "hook_step c p (a, s) = None \<longleftrightarrow> a \<in> {H_done, H_trap}"
  by (cases a) (simp_all add: hook_step_def dump_step_def inspect_step_def or_trap_def Let_def)

definition smp_sized :: "smp \<Rightarrow> bool" where
  "smp_sized s \<longleftrightarrow> tables_sized (sm_core s)"

definition smp_rank :: "smp \<Rightarrow> nat" where
  "smp_rank s = sum_list (map (\<lambda>u. hook_rank (hk_at u)) (sm_cpus s))"

definition smp_over :: "smp \<Rightarrow> bool" where
  "smp_over s \<longleftrightarrow> (\<forall>u \<in> set (sm_cpus s). hk_at u \<in> {H_done, H_trap})"

lemma smp_exec_sized:
  assumes "smp_exec i s = Some t" "smp_sized s"
  shows "smp_sized t \<and> smp_rank t < smp_rank s"
proof -
  let ?u = "sm_cpus s ! i"
  obtain a r where a: "i < length (sm_cpus s)" "hook_step (hk_clock ?u) (hk_packet ?u) (hk_at ?u, sm_core s) = Some (a, r)"
    "t = s\<lparr>sm_core := r, sm_cpus := (sm_cpus s)[i := ?u\<lparr>hk_at := a\<rparr>]\<rparr>"
    using assms(1) by (auto simp: smp_exec_def Let_def split: if_splits option.splits)
  have "hook_rank a < hook_rank (hk_at ?u)" "tables_sized r"
    using hook_step_sized [OF a(2)] assms(2) by (simp_all add: smp_sized_def)
  moreover have "map (\<lambda>u. hook_rank (hk_at u)) ((sm_cpus s)[i := ?u\<lparr>hk_at := a\<rparr>]) =
      (map (\<lambda>u. hook_rank (hk_at u)) (sm_cpus s))[i := hook_rank a]" by (simp add: map_update)
  moreover have "hook_rank (hk_at ?u) \<le> smp_rank s"
    unfolding smp_rank_def using a(1) by (intro member_le_sum_list) simp_all
  ultimately show ?thesis
    using a(1) by (simp add: a(3) smp_sized_def smp_rank_def sum_list_update)
qed

lemma smp_enabled:
  assumes "\<not> smp_over s"
  shows "\<exists>i t. smp_exec i s = Some t"
proof -
  obtain i where i: "i < length (sm_cpus s)" "hk_at (sm_cpus s ! i) \<notin> {H_done, H_trap}"
    using assms by (auto simp: smp_over_def in_set_conv_nth)
  then have "smp_exec i s \<noteq> None"
    using hook_step_stops [of "hk_clock (sm_cpus s ! i)" "hk_packet (sm_cpus s ! i)" "hk_at (sm_cpus s ! i)" "sm_core s"]
    by (auto simp: smp_exec_def Let_def)
  then show ?thesis by blast
qed

lemma smp_start_sized: "smp_sized (smp_start es s) \<longleftrightarrow> tables_sized s"
  by (simp add: smp_start_def smp_sized_def)

lemma core_start_sized: "tables_sized core_start"
  by (simp add: tables_sized_def core_start_def first_layer_start_def second_layer_start_def)

interpretation smp: terminating_system "smp_start es core_start" "sched_step smp_exec" smp_sized smp_over smp_rank for es
proof
  show "smp_sized (smp_start es core_start)" by (simp add: smp_start_sized core_start_sized)
  show "smp_sized t" if "smp_sized s" "sched_step smp_exec s t" for s t
    using that smp_exec_sized by auto
  show "\<exists>t. sched_step smp_exec s t" if "smp_sized s" "\<not> smp_over s" for s
    using smp_enabled [OF that(2)] by (auto simp: sched_step_iff)
  show "smp_rank t < smp_rank s" if "smp_sized s" "sched_step smp_exec s t" for s t
    using that smp_exec_sized by auto
qed




end
