(* ===== verification/Traffic_Readers.thy ===== *)
theory Traffic_Readers
  imports Traffic_Smp
begin

text \<open>
  Readers of the data device and of the statistics (\<open>read_l2_data\<close> and \<open>read_stats\<close> of
  course_work/code/core_module.c) beside the processors of Traffic_Smp: a read is one step and may come
  between any two steps of the hook, also in the middle of a dump. Readers never change what the hook
  does, but they see slices before they are judged.
\<close>

section \<open>Processors and readers\<close>

datatype actor = Processor nat | Reader nat nat | Stats_reader nat nat

text \<open>\<open>rd_replies\<close>, \<open>rd_stats\<close>: what the reads have returned; \<open>None\<close> is a read outside the table.\<close>

record smp_readers =
  rd_smp :: smp
  rd_replies :: "(nat \<times> l2_data_slice option) option list"
  rd_stats :: "(nat \<times> module_stats option) option list"

definition put_history :: "second_layer \<Rightarrow> smp \<Rightarrow> smp" where
  "put_history t s = s\<lparr>sm_core := (sm_core s)\<lparr>second_tab := t\<rparr>\<rparr>"

definition readers_exec :: "actor \<Rightarrow> smp_readers \<Rightarrow> smp_readers option" where
  "readers_exec a x =
     (case a of
        Processor i \<Rightarrow> map_option (\<lambda>s. x\<lparr>rd_smp := s\<rparr>) (smp_exec i (rd_smp x))
      | Reader cnt left \<Rightarrow>
          Some (case read_l2_data cnt left (second_tab (sm_core (rd_smp x))) of
            None \<Rightarrow> x\<lparr>rd_replies := rd_replies x @ [None]\<rparr>
          | Some (n, d, t) \<Rightarrow>
              x\<lparr>rd_smp := put_history t (rd_smp x), rd_replies := rd_replies x @ [Some (n, d)]\<rparr>)
      | Stats_reader cnt left \<Rightarrow>
          Some (x\<lparr>rd_stats := rd_stats x @ [read_stats cnt left (second_tab (sm_core (rd_smp x)))]\<rparr>))"

section \<open>The hook does not look at the reader\<close>

definition at_start :: "second_layer \<Rightarrow> second_layer" where
  "at_start t = t\<lparr>second_layer_table_read_index := 0\<rparr>"

definition unread :: "core \<Rightarrow> core" where
  "unread s = s\<lparr>second_tab := at_start (second_tab s)\<rparr>"

definition unread_smp :: "smp \<Rightarrow> smp" where
  "unread_smp s = s\<lparr>sm_core := unread (sm_core s)\<rparr>"

lemma at_start_fields [simp]:
  "second_layer_table (at_start t) = second_layer_table t"
  "second_layer_table_next_index (at_start t) = second_layer_table_next_index t"
  by (simp_all add: at_start_def)

lemma unread_fields [simp]:
  "first_tab (unread s) = first_tab s" "from_time (unread s) = from_time s"
  "second_tab (unread s) = at_start (second_tab s)"
  by (simp_all add: unread_def)

lemma at_start_updates:
  "at_start t\<lparr>second_layer_table := x\<rparr> = at_start (t\<lparr>second_layer_table := x\<rparr>)"
  "at_start t\<lparr>second_layer_table_next_index := k\<rparr> = at_start (t\<lparr>second_layer_table_next_index := k\<rparr>)"
  by (simp_all add: at_start_def)

lemma unread_updates:
  "unread s\<lparr>second_tab := at_start t\<rparr> = unread (s\<lparr>second_tab := t\<rparr>)"
  "unread s\<lparr>first_tab := f\<rparr> = unread (s\<lparr>first_tab := f\<rparr>)"
  "unread s\<lparr>from_time := c\<rparr> = unread (s\<lparr>from_time := c\<rparr>)"
  by (simp_all add: unread_def)

lemmas unread_simps = at_start_updates unread_updates

lemma or_trap_unread:
  assumes "\<And>x. r = Some x \<Longrightarrow> g x = (fst (f x), unread (snd (f x)))"
  shows "or_trap g (unread s) r = map_option (\<lambda>(a, t). (a, unread t)) (or_trap f s r)"
  using assms by (cases r) (simp_all add: or_trap_def case_prod_beta)

lemma dump_step_unread: "dump_step c a (unread s) = map_option (\<lambda>(a, t). (a, unread t)) (dump_step c a s)"
  by (cases a)
    (simp_all add: dump_step_def inspect_step_def Let_def or_trap_def unread_simps split: option.split)

lemma hook_step_unread: "hook_step c p (a, unread s) = map_option (\<lambda>(a, t). (a, unread t)) (hook_step c p (a, s))"
  by (cases a) (simp_all add: hook_step_def Let_def dump_step_unread or_trap_def unread_simps split: option.split)

lemma smp_exec_unread: "smp_exec i (unread_smp s) = map_option unread_smp (smp_exec i s)"
  by (auto simp: smp_exec_def unread_smp_def Let_def hook_step_unread split: option.split)

lemma unread_twice [simp]: "unread_smp (unread_smp s) = unread_smp s"
  by (simp add: unread_smp_def unread_def at_start_def)

text \<open>A read changes nothing but its own place.\<close>

lemma read_unread: "read_l2_data cnt left t = Some (n, d, u) \<Longrightarrow> at_start u = at_start t"
  by (auto simp: read_l2_data_def at_start_def split: if_splits bind_splits)

lemma reader_unread: "readers_exec (Reader cnt left) x = Some y \<Longrightarrow> unread_smp (rd_smp y) = unread_smp (rd_smp x)"
  by (auto simp: readers_exec_def put_history_def unread_smp_def unread_def dest: read_unread
      split: option.splits prod.splits)

section \<open>Readers and dumps\<close>

text \<open>A call in the first window.\<close>

definition one_call :: "clock \<times> packet_info" where
  "one_call =
     (\<lparr>ck_ns_test = 5, ck_seconds = 0, ck_ns_reset = 6\<rparr>,
      \<lparr>pi_saddr = 1, pi_tot_len = 60, pi_is_tcp = 1, pi_is_syn = 0\<rparr>)"

fun processor_of :: "actor \<Rightarrow> nat list" where
  "processor_of (Processor i) = [i]"
| "processor_of (Reader cnt left) = []"
| "processor_of (Stats_reader cnt left) = []"

text \<open>A schedule without its reads.\<close>

definition without_reads :: "actor list \<Rightarrow> nat list" where
  "without_reads as = concat (map processor_of as)"

text \<open>C31: Readers do not disturb the hook, even when processors race: take any run of any number of
  processors with reads of the two devices, of any sizes and with failing copies, between any two of their steps; the same run
  without the reads is a run of the processors alone, and it ends in the same state but for the place of
  the reader.\<close>

theorem readers_do_not_interfere:
  assumes "run_schedule readers_exec as x = Some y"
  shows "run_schedule smp_exec (without_reads as) (unread_smp (rd_smp x)) = Some (unread_smp (rd_smp y))"
  using assms
proof (induction as arbitrary: x)
  case Nil
  then show ?case by (simp add: without_reads_def)
next
  case (Cons a as)
  then obtain z where z: "readers_exec a x = Some z" "run_schedule readers_exec as z = Some y"
    by (auto split: option.splits)
  note rest = Cons.IH [OF z(2)]
  show ?case
  proof (cases a)
    case (Processor i)
    then obtain s where s: "smp_exec i (rd_smp x) = Some s" "rd_smp z = s"
      using z(1) by (auto simp: readers_exec_def)
    then have "smp_exec i (unread_smp (rd_smp x)) = Some (unread_smp (rd_smp z))" by (simp add: smp_exec_unread)
    with rest Processor show ?thesis by (simp add: without_reads_def)
  next
    case (Reader cnt left)
    with z(1) have "unread_smp (rd_smp z) = unread_smp (rd_smp x)" by (auto dest: reader_unread)
    with rest Reader show ?thesis by (simp add: without_reads_def)
  next
    case (Stats_reader cnt left)
    with z(1) have "rd_smp z = rd_smp x" by (auto simp: readers_exec_def)
    with rest Stats_reader show ?thesis by (simp add: without_reads_def)
  qed
qed

lemma readers_do_not_interfere_witness:
  "\<exists>y. run_schedule readers_exec [Processor 0, Reader sizeof_l2_data_slice 0, Processor 0]
       \<lparr>rd_smp = smp_start [one_call] core_start, rd_replies = [], rd_stats = []\<rparr> = Some y \<and> rd_replies y = [Some (0, None)] \<and>
     run_schedule smp_exec [0, 0] (unread_smp (smp_start [one_call] core_start)) = Some (unread_smp (rd_smp y))"
proof -
  let ?as = "[Processor 0, Reader sizeof_l2_data_slice 0, Processor 0]"
  obtain y where y: "run_schedule readers_exec ?as \<lparr>rd_smp = smp_start [one_call] core_start, rd_replies = [], rd_stats = []\<rparr> = Some y"
    "rd_replies y = [Some (0, None)]"
    by (simp add: readers_exec_def smp_exec_def smp_start_def hook_call_def one_call_def hook_step_def core_start_def
        second_layer_start_def first_layer_start_def read_l2_data_def put_history_def dump_ns_periud_def Let_def)
  with readers_do_not_interfere [OF y(1)] show ?thesis by (simp add: without_reads_def)
qed

lemma refines_unread: "refines a (unread s) \<longleftrightarrow> refines a s"
  by (simp add: refines_def wf_second_def history_def)

text \<open>So calls that run one after the other keep to the specification with readers between any steps.\<close>

lemma serial_calls_with_readers:
  assumes "run_schedule readers_exec as \<lparr>rd_smp = smp_start es core_start, rd_replies = [], rd_stats = []\<rparr> = Some y"
    "run_schedule smp_exec (without_reads as) (smp_start es core_start) = Some S" "refines a (sm_core S)"
  shows "refines a (sm_core (rd_smp y))"
proof -
  have start: "unread_smp (smp_start es core_start) = smp_start es core_start"
    by (simp add: unread_smp_def smp_start_def unread_def at_start_def core_start_def second_layer_start_def)
  from readers_do_not_interfere [OF assms(1)] assms(2) start have "S = unread_smp (rd_smp y)" by simp
  with assms(3) show ?thesis by (simp add: unread_smp_def refines_unread)
qed

text \<open>Processors that nobody reads beside.\<close>

lemma processors_alone:
  "run_schedule smp_exec is (rd_smp x) = Some s \<Longrightarrow>
   run_schedule readers_exec (map Processor is) x = Some (x\<lparr>rd_smp := s\<rparr>)"
proof (induction "is" arbitrary: x)
  case (Cons i "is")
  then obtain u where u: "smp_exec i (rd_smp x) = Some u" "run_schedule smp_exec is u = Some s"
    by (auto split: option.splits)
  then show ?case using Cons.IH [of "x\<lparr>rd_smp := u\<rparr>"] by (simp add: readers_exec_def)
qed simp

text \<open>
  The window is counted before \<open>inspect_last\<close> has judged it: a reader that has read everything else gets
  it in the form \<open>dump_first_layer_table\<close> has written, and does not see the verdict that follows.
\<close>

lemma reader_sees_unjudged:
  assumes i: "i < length (sm_cpus (rd_smp x))" "hk_at (sm_cpus (rd_smp x) ! i) = H_inspect"
    and t: "wf_second (second_tab (sm_core (rd_smp x)))" "history (second_tab (sm_core (rd_smp x))) = hs @ [b]"
      "second_layer_table_read_index (second_tab (sm_core (rd_smp x))) = length hs"
  shows "\<exists>k y. run_schedule readers_exec (Reader sizeof_l2_data_slice 0 # replicate k (Processor i)) x = Some y \<and>
    rd_replies y = rd_replies x @ [Some (sizeof_l2_data_slice, Some (slice_view b))] \<and>
    history (second_tab (sm_core (rd_smp y))) = hs @ [classify hs b]"
proof -
  let ?t = "second_tab (sm_core (rd_smp x))" and ?u = "sm_cpus (rd_smp x) ! i"
  let ?r = "?t\<lparr>second_layer_table_read_index := length hs + 1\<rparr>"
  let ?z = "x\<lparr>rd_smp := put_history ?r (rd_smp x), rd_replies := rd_replies x @ [Some (sizeof_l2_data_slice, Some (slice_view b))]\<rparr>"
  have count: "second_layer_table_next_index ?t = length hs + 1"
    using length_history [OF t(1)] t(2) by simp
  have "cell (second_layer_table ?t) (length hs) = Some b"
    using history_cell [OF t(1), of "length hs"] t(2) by (simp add: nth_append)
  then have read: "readers_exec (Reader sizeof_l2_data_slice 0) x = Some ?z"
    using t(3) count by (simp add: readers_exec_def read_l2_data_def)
  have "wf_second ?r" "history ?r = hs @ [b]" using t by (simp_all add: wf_second_def history_def)
  from inspect_last_spec [OF this] obtain v where v: "inspect_last ?r = Some v" "history v = hs @ [classify hs b]"
    by auto
  let ?c = "sm_core (rd_smp ?z)"
  have "hook_goes (hk_clock ?u) (hk_packet ?u) (H_inspect, ?c) (H_reset, ?c\<lparr>second_tab := v\<rparr>)"
    using v(1) by (intro inspect_goes) (simp add: put_history_def)
  note goes = smp_goes [OF this i(1), unfolded fst_conv snd_conv]
  have "?u = \<lparr>hk_clock = hk_clock ?u, hk_packet = hk_packet ?u, hk_at = H_inspect\<rparr>"
    using i(2) by (cases ?u) simp
  from goes [OF this] obtain k where "run_schedule smp_exec (replicate k i) \<lparr>sm_core = ?c, sm_cpus = sm_cpus (rd_smp x)\<rparr> =
      Some \<lparr>sm_core = ?c\<lparr>second_tab := v\<rparr>,
        sm_cpus = (sm_cpus (rd_smp x))[i := \<lparr>hk_clock = hk_clock ?u, hk_packet = hk_packet ?u, hk_at = H_reset\<rparr>]\<rparr>"
    by blast
  moreover have "\<lparr>sm_core = ?c, sm_cpus = sm_cpus (rd_smp x)\<rparr> = rd_smp ?z" by (simp add: put_history_def)
  ultimately have k: "run_schedule smp_exec (replicate k i) (rd_smp ?z) =
      Some \<lparr>sm_core = ?c\<lparr>second_tab := v\<rparr>,
        sm_cpus = (sm_cpus (rd_smp x))[i := \<lparr>hk_clock = hk_clock ?u, hk_packet = hk_packet ?u, hk_at = H_reset\<rparr>]\<rparr>"
    by simp
  show ?thesis
    using read processors_alone [OF k] v(2) by (intro exI [of _ k]) simp
qed

end
