(* ===== verification/Process_Reports.thy ===== *)
theory Process_Reports
  imports C_Strings
begin

text \<open>
  The reports on a process of sem_06/lab_03/get_info: print.c copies and decodes files of /proc. A file
  is its contents, \<open>None\<close> when \<open>fopen\<close> fails, which no function looks at: the next \<open>fread\<close> then gets
  NULL. What a function prints is its result; \<open>None\<close> is a trap or, in the loop over pages, a run
  that does not end.
\<close>

unbundle bit_operations_syntax

section \<open>Numbers in base 16\<close>

definition hex_digit :: "nat \<Rightarrow> char" where
  "hex_digit n = (if n < 10 then char_of (48 + n) else char_of (87 + n))"

fun show_hex :: "nat \<Rightarrow> string" where
  "show_hex n = (if n < 16 then [hex_digit n] else show_hex (n div 16) @ [hex_digit (n mod 16)])"

declare show_hex.simps [simp del]

definition hex_value :: "char \<Rightarrow> nat option" where
  "hex_value c =
     (let n = of_char c in
      if 48 \<le> n \<and> n \<le> 57 then Some (n - 48)
      else if 97 \<le> n \<and> n \<le> 102 then Some (n - 87)
      else if 65 \<le> n \<and> n \<le> 70 then Some (n - 55)
      else None)"

definition read_hex :: "string \<Rightarrow> nat" where
  "read_hex ds = foldl (\<lambda>n c. 16 * n + the (hex_value c)) 0 ds"

definition isspace :: "char \<Rightarrow> bool" where
  "isspace c \<longleftrightarrow> c \<in> {CHR 0x20, CHR 0x09, CHR 0x0A, CHR 0x0B, CHR 0x0C, CHR 0x0D}"

text \<open>\<open>strtoul(s, NULL, 16)\<close> of a string without a minus sign: the largest value on overflow.\<close>

definition skip_plus :: "string \<Rightarrow> string" where
  "skip_plus s = (if take 1 s = ''+'' then tl s else s)"

definition skip_0x :: "string \<Rightarrow> string" where
  "skip_0x s = (if 2 < length s \<and> take 2 s \<in> {''0x'', ''0X''} \<and> hex_value (s ! 2) \<noteq> None then drop 2 s else s)"

definition strtoul_16 :: "string \<Rightarrow> u64" where
  "strtoul_16 s =
     (let n = read_hex (takeWhile (\<lambda>c. hex_value c \<noteq> None) (skip_0x (skip_plus (dropWhile isspace s)))) in
      if 2 ^ 64 \<le> n then -1 else word_of_nat n)"

section \<open>Reading by blocks and splitting\<close>

text \<open>
  \<open>while ((len = fread(buf, 1, n, f)) > 0)\<close>: the blocks of a file, what is printed for each of them,
  and nothing more after a trap.
\<close>

function by_blocks :: "nat \<Rightarrow> (string \<Rightarrow> string option) \<Rightarrow> string \<Rightarrow> string option" where
  "by_blocks n f tx =
     (if n = 0 \<or> tx = [] then Some []
      else case f (take n tx) of
        None \<Rightarrow> None
      | Some d \<Rightarrow> map_option ((@) d) (by_blocks n f (drop n tx)))"
  by pat_completeness auto
termination
  by (relation "measure (\<lambda>(n, f, tx). length tx)") auto

declare by_blocks.simps [simp del]

text \<open>
  The string in an array of \<open>n\<close> bytes once the block is in it, its zero bytes have been replaced by
  newlines, and \<open>buf[len] = 0\<close> has been written, which traps when the block fills the array.
\<close>

definition text_of_block :: "nat \<Rightarrow> string \<Rightarrow> string option" where
  "text_of_block n d =
     (if length d < n then Some (map (\<lambda>c. if c = NUL then CHR 0x0A else c) d) else None)"

text \<open>\<open>strtok_r\<close>: the next token and the rest, \<open>None\<close> when only delimiters are left.\<close>

definition strtok :: "char \<Rightarrow> string \<Rightarrow> (string \<times> string) option" where
  "strtok d s =
     (let t = dropWhile (\<lambda>c. c = d) s in
      if t = [] then None else Some (takeWhile (\<lambda>c. c \<noteq> d) t, tl (dropWhile (\<lambda>c. c \<noteq> d) t)))"

lemma strtok_shorter: "strtok d s = Some (row, rest) \<Longrightarrow> length rest < length s"
proof -
  assume "strtok d s = Some (row, rest)"
  then have "dropWhile (\<lambda>c. c = d) s \<noteq> []" "rest = tl (dropWhile (\<lambda>c. c \<noteq> d) (dropWhile (\<lambda>c. c = d) s))"
    by (simp_all add: strtok_def Let_def split: if_splits)
  moreover have "length (dropWhile (\<lambda>c. c \<noteq> d) (dropWhile (\<lambda>c. c = d) s)) \<le> length (dropWhile (\<lambda>c. c = d) s)"
    "length (dropWhile (\<lambda>c. c = d) s) \<le> length s" by (rule length_dropWhile_le)+
  ultimately show ?thesis by (cases "dropWhile (\<lambda>c. c = d) s") auto
qed

text \<open>The loop \<open>while (row) { ...; row = strtok_r(NULL, ...); }\<close>.\<close>

function tokens :: "char \<Rightarrow> string \<Rightarrow> string list" where
  "tokens d s = (case strtok d s of None \<Rightarrow> [] | Some (row, rest) \<Rightarrow> row # tokens d rest)"
  by pat_completeness auto
termination
  by (relation "measure (\<lambda>(d, s). length s)") (auto dest: strtok_shorter)

declare tokens.simps [simp del]

definition BUF_SIZE :: nat where
  "BUF_SIZE = 1024"

section \<open>The reports\<close>

text \<open>\<open>print_page\<close>: the fields of an entry of pagemap.\<close>

definition pad_right :: "nat \<Rightarrow> string \<Rightarrow> string" where
  "pad_right n s = s @ replicate (n - length s) (CHR '' '')"

definition print_page :: "u64 \<Rightarrow> u64 \<Rightarrow> string" where
  "print_page address data =
     ''0x'' @ pad_right 15 (show_hex (unat address)) @ '' : '' @
     pad_right 10 (show_hex (unat (data AND (push_bit 55 1 - 1)))) @ '' '' @
     pad_right 10 (show_nat (unat (drop_bit 55 data AND 1))) @ '' '' @
     pad_right 10 (show_nat (unat (drop_bit 61 data AND 1))) @ '' '' @
     pad_right 10 (show_nat (unat (drop_bit 62 data AND 1))) @ '' '' @
     pad_right 10 (show_nat (unat (drop_bit 63 data AND 1))) @ nl"

text \<open>
  The loop over the pages of a region. \<open>entry\<close>: what \<open>offset\<close> holds after the \<open>pread\<close> at an index.
  The address wraps around at the end of the address space.
\<close>

partial_function (option) page_loop :: "u64 \<Rightarrow> (u64 \<Rightarrow> u64) \<Rightarrow> u64 \<Rightarrow> u64 \<Rightarrow> string option" where
  "page_loop page entry i e =
     (if i < e then do {
        rest \<leftarrow> page_loop page entry (i + page) e;
        Some (print_page i (entry (i div page * 8)) @ rest) }
      else Some [])"

definition pagemap_row :: "u64 \<Rightarrow> (u64 \<Rightarrow> u64) \<Rightarrow> string \<Rightarrow> string option" where
  "pagemap_row page entry row =
     (case strtok (CHR '' '') row of
        None \<Rightarrow> Some []
      | Some (addresses, r) \<Rightarrow>
          (case strtok (CHR ''-'') addresses of
             None \<Rightarrow> Some []
           | Some (start_str, r2) \<Rightarrow>
               (case strtok (CHR ''-'') r2 of
                  None \<Rightarrow> Some []
                | Some (end_str, r3) \<Rightarrow> page_loop page entry (strtoul_16 start_str) (strtoul_16 end_str))))"

text \<open>The outputs of the rows one after the other.\<close>

fun all_rows :: "(string \<Rightarrow> string option) \<Rightarrow> string list \<Rightarrow> string option" where
  "all_rows f [] = Some []"
| "all_rows f (r # rs) = (case f r of None \<Rightarrow> None | Some d \<Rightarrow> map_option ((@) d) (all_rows f rs))"

definition pagemap_header :: string where
  "pagemap_header = nl @ nl @ ''PAGEMAP'' @ nl @ nl @
     ''   addr         pfn      soft-dirty    file/shared    swapped     present'' @ nl"

definition get_pagemap_info :: "u64 \<Rightarrow> (u64 \<Rightarrow> u64) \<Rightarrow> string option \<Rightarrow> string option" where
  "get_pagemap_info page entry maps = do {
     tx \<leftarrow> maps;
     d \<leftarrow> by_blocks BUF_SIZE
       (\<lambda>b. Option.bind (text_of_block (BUF_SIZE + 1) b) (\<lambda>t. all_rows (pagemap_row page entry) (tokens (CHR 0x0A) t))) tx;
     Some (pagemap_header @ d) }"

definition maps_header :: string where
  "maps_header = nl @ nl @ ''MAPS'' @ nl @ nl @
     ''address                   perms  offset  dev   inode                      pathname'' @ nl"

definition get_maps_info :: "string option \<Rightarrow> string option" where
  "get_maps_info maps = do {
     tx \<leftarrow> maps;
     d \<leftarrow> by_blocks BUF_SIZE
       (\<lambda>b. Option.bind (text_of_block (BUF_SIZE + 1) b) (\<lambda>t. all_rows (\<lambda>row. Some (row @ nl)) (tokens (CHR 0x0A) t))) tx;
     Some (maps_header @ d) }"

definition stat_headers :: "string list" where
  "stat_headers =
     [''pid'', ''comm'', ''state'', ''ppid'', ''pgrp'', ''session'', ''tty_nr'', ''tpgid'', ''flags'', ''minflt'',
      ''cminflt'', ''majflt'', ''cmajflt'', ''utime'', ''stime'', ''cutime'', ''cstime'', ''priority'', ''nice'',
      ''num_threads'', ''itrealvalue'', ''starttime'', ''vsize'', ''rss'', ''rsslim'', ''startcode'', ''endcode'',
      ''startstack'', ''kstkesp'', ''kstkeip'', ''signal'', ''blocked'', ''sigignore'', ''sigcatch'', ''wchan'',
      ''nswap'', ''cnswap'', ''exit_signal'', ''processor'', ''rt_priority'', ''policy'', ''delayacct_blkio_ticks'',
      ''guest_time'', ''cguest_time'', ''start_data'', ''end_data'', ''start_brk'', ''arg_start'', ''arg_end'',
      ''env_start'', ''env_end'', ''exit_code'']"

text \<open>The loop over the fields with their names, which traps behind the last name.\<close>

fun stat_rows :: "nat \<Rightarrow> string list \<Rightarrow> string option" where
  "stat_rows i [] = Some []"
| "stat_rows i (row # rows) = do {
     h \<leftarrow> cell stat_headers i;
     d \<leftarrow> stat_rows (i + 1) rows;
     Some (h @ ''  '' @ row @ nl @ d) }"

definition stat_header :: string where
  "stat_header = nl @ nl @ ''STAT'' @ nl @ nl"

definition get_stat_info :: "string option \<Rightarrow> string option" where
  "get_stat_info stat = do {
     tx \<leftarrow> stat;
     d \<leftarrow> by_blocks BUF_SIZE (\<lambda>b. Option.bind (text_of_block (BUF_SIZE + 1) b) (\<lambda>t. stat_rows 0 (tokens (CHR '' '') t))) tx;
     Some (stat_header @ d) }"

text \<open>\<open>_ls\<close> with the entries of the directory: the result, or the exit code.\<close>

fun ls_entries :: "bool \<Rightarrow> bool \<Rightarrow> string list \<Rightarrow> string" where
  "ls_entries op_a op_l [] = (if op_l then [] else nl)"
| "ls_entries op_a op_l (d # ds) =
     (if \<not> op_a \<and> hd (d @ [NUL]) = CHR ''.'' then ls_entries op_a op_l ds
      else d @ ''  '' @ (if op_l then nl else []) @ ls_entries op_a op_l ds)"

definition ls_dir :: "string list option \<Rightarrow> bool \<Rightarrow> bool \<Rightarrow> int + string" where
  "ls_dir dh op_a op_l = (case dh of None \<Rightarrow> Inl 1 | Some ds \<Rightarrow> Inr (ls_entries op_a op_l ds))"

definition get_task_info :: "string list option \<Rightarrow> int + string" where
  "get_task_info dh = map_sum id (\<lambda>d. nl @ nl @ ''TASK'' @ nl @ nl @ d) (ls_dir dh False True)"

text \<open>\<open>snprintf(path, PATH_MAX, "/proc/%s/...", proc)\<close>.\<close>

definition proc_path :: "string \<Rightarrow> string \<Rightarrow> string" where
  "proc_path proc name = take 4095 (''/proc/'' @ proc @ ''/'' @ name)"

text \<open>\<open>get_environ_info\<close>, whose array has no room for the final zero byte of a full block.\<close>

definition get_environ_info :: "string option \<Rightarrow> string option" where
  "get_environ_info environ = Option.bind environ (by_blocks 256 (text_of_block 256))"

text \<open>
  \<open>main\<close> of main.c: the exit code and what it prints. \<open>out_opened\<close>: whether \<open>fopen\<close> of the output
  succeeds; \<open>environ\<close>: the file of a process.
\<close>

definition report_main :: "bool \<Rightarrow> (string \<Rightarrow> string option) \<Rightarrow> string option \<Rightarrow> (int \<times> string) option" where
  "report_main out_opened environ argv1 =
     (if \<not> out_opened then Some (1, [])
      else do {
        pid \<leftarrow> argv1;
        d \<leftarrow> get_environ_info (environ (proc_path pid ''environ''));
        Some (0, ''PID: '' @ pid @ nl @ d) })"

section \<open>Splitting\<close>

text \<open>What lies between the delimiters, the empty pieces included.\<close>

fun split_at :: "char \<Rightarrow> string \<Rightarrow> string list" where
  "split_at d [] = [[]]"
| "split_at d (c # s) =
     (if c = d then [] # split_at d s
      else (case split_at d s of [] \<Rightarrow> [[c]] | r # rs \<Rightarrow> (c # r) # rs))"

lemma split_at_first:
  "split_at d s = takeWhile (\<lambda>c. c \<noteq> d) s #
     (case dropWhile (\<lambda>c. c \<noteq> d) s of [] \<Rightarrow> [] | c # t \<Rightarrow> split_at d t)"
  by (induction s) auto

lemma split_at_skip: "filter (\<lambda>r. r \<noteq> []) (split_at d (dropWhile (\<lambda>c. c = d) s)) = filter (\<lambda>r. r \<noteq> []) (split_at d s)"
  by (induction s) auto

lemma split_at_nonempty:
  assumes "s \<noteq> []" "hd s \<noteq> d"
  shows "filter (\<lambda>r. r \<noteq> []) (split_at d s) = takeWhile (\<lambda>c. c \<noteq> d) s #
    filter (\<lambda>r. r \<noteq> []) (split_at d (tl (dropWhile (\<lambda>c. c \<noteq> d) s)))"
proof -
  have "takeWhile (\<lambda>c. c \<noteq> d) s \<noteq> []" using assms by (cases s) auto
  then show ?thesis by (subst split_at_first) (cases "dropWhile (\<lambda>c. c \<noteq> d) s"; simp del: dropWhile_eq_Nil_conv takeWhile_eq_Nil_iff)
qed

text \<open>The loop over \<open>strtok_r\<close> gives the pieces that are not empty.\<close>

lemma tokens_split: "tokens d s = filter (\<lambda>r. r \<noteq> []) (split_at d s)"
proof (induction d s rule: tokens.induct)
  case (1 d s)
  let ?t = "dropWhile (\<lambda>c. c = d) s"
  show ?case
  proof (cases ?t)
    case Nil
    then have "strtok d s = None" by (simp add: strtok_def)
    then show ?thesis using split_at_skip [of d s, unfolded Nil] by (simp add: tokens.simps [of d s])
  next
    case (Cons c t)
    then have first: "?t \<noteq> []" "hd ?t \<noteq> d" using hd_dropWhile [of "\<lambda>c. c = d" s] by auto
    have tok: "strtok d s = Some (takeWhile (\<lambda>c. c \<noteq> d) ?t, tl (dropWhile (\<lambda>c. c \<noteq> d) ?t))"
      using Cons by (simp add: strtok_def)
    note IH = 1 [OF tok refl]
    note split_at_nonempty [OF first]
    then show ?thesis
      using split_at_skip [of d s] IH by (simp add: tokens.simps [of d s] tok)
  qed
qed

lemma split_at_none: "d \<notin> set s \<Longrightarrow> split_at d s = [s]"
  by (induction s) auto

lemma split_at_append: "d \<notin> set r \<Longrightarrow> split_at d (r @ d # s) = r # split_at d s"
  by (induction r) auto

lemma split_at_letters: "filter (\<lambda>c. c \<noteq> d) (concat (map (\<lambda>r. r @ [d]) (split_at d s))) = filter (\<lambda>c. c \<noteq> d) s"
  by (induction s) (auto split: list.splits)

lemma concat_nonempty: "filter (\<lambda>c. c \<noteq> d) (concat (map (\<lambda>r. r @ [d]) (filter (\<lambda>r. r \<noteq> []) rs))) =
    filter (\<lambda>c. c \<noteq> d) (concat (map (\<lambda>r. r @ [d]) rs))"
  by (induction rs) auto

section \<open>Blocks\<close>

lemma by_blocks_short: "0 < n \<Longrightarrow> tx \<noteq> [] \<Longrightarrow> length tx \<le> n \<Longrightarrow> by_blocks n f tx = f tx"
  by (simp add: by_blocks.simps [of n f tx] by_blocks.simps [of n f "[]"] split: option.splits)

lemma by_blocks_Nil [simp]: "by_blocks n f [] = Some []"
  by (simp add: by_blocks.simps)

lemma by_blocks_step: "0 < n \<Longrightarrow> tx \<noteq> [] \<Longrightarrow>
    by_blocks n f tx = (case f (take n tx) of None \<Rightarrow> None | Some d \<Rightarrow> map_option ((@) d) (by_blocks n f (drop n tx)))"
  by (simp add: by_blocks.simps [of n f tx])

lemma all_rows_Some: "all_rows (\<lambda>r. Some (g r)) rs = Some (concat (map g rs))"
  by (induction rs) simp_all

abbreviation newline :: char where
  "newline \<equiv> CHR 0x0A"

definition lines_of :: "string \<Rightarrow> string" where
  "lines_of tx = map (\<lambda>c. if c = NUL then newline else c) tx"

lemma text_of_block_lines: "text_of_block n d = (if length d < n then Some (lines_of d) else None)"
  by (simp add: text_of_block_def lines_of_def)

section \<open>The rows of maps\<close>

definition map_rows :: "string \<Rightarrow> string" where
  "map_rows tx = concat (map (\<lambda>row. row @ nl) (filter (\<lambda>r. r \<noteq> []) (split_at newline (lines_of tx))))"

lemma maps_block:
  "length b < n \<Longrightarrow> Option.bind (text_of_block n b) (\<lambda>t. all_rows (\<lambda>row. Some (row @ nl)) (tokens newline t)) =
    Some (map_rows b)"
  by (simp add: text_of_block_lines tokens_split all_rows_Some map_rows_def)

text \<open>What is printed for a file: the rows of its blocks.\<close>

lemma maps_blocks:
  "by_blocks BUF_SIZE
     (\<lambda>b. Option.bind (text_of_block (BUF_SIZE + 1) b) (\<lambda>t. all_rows (\<lambda>row. Some (row @ nl)) (tokens newline t))) tx =
   by_blocks BUF_SIZE (\<lambda>b. Some (map_rows b)) tx"
proof (induction tx rule: length_induct)
  case (1 tx)
  let ?f = "\<lambda>b. Option.bind (text_of_block (BUF_SIZE + 1) b) (\<lambda>t. all_rows (\<lambda>row. Some (row @ nl)) (tokens newline t))"
  show ?case
  proof (cases "tx = []")
    case False
    then have "by_blocks BUF_SIZE ?f (drop BUF_SIZE tx) = by_blocks BUF_SIZE (\<lambda>b. Some (map_rows b)) (drop BUF_SIZE tx)"
      using 1 by (simp add: BUF_SIZE_def)
    moreover have "?f (take BUF_SIZE tx) = Some (map_rows (take BUF_SIZE tx))" by (rule maps_block) simp
    moreover have "0 < BUF_SIZE" by (simp add: BUF_SIZE_def)
    ultimately show ?thesis using by_blocks_step [OF _ False] by simp
  qed simp
qed

lemma maps_letters: "filter (\<lambda>c. c \<noteq> newline) (map_rows b) = filter (\<lambda>c. c \<noteq> newline \<and> c \<noteq> NUL) b"
proof -
  have "filter (\<lambda>c. c \<noteq> newline) (map_rows b) = filter (\<lambda>c. c \<noteq> newline) (lines_of b)"
    unfolding map_rows_def nl_def by (simp only: concat_nonempty split_at_letters)
  moreover have "filter (\<lambda>c. c \<noteq> newline) (lines_of b) = filter (\<lambda>c. c \<noteq> newline \<and> c \<noteq> NUL) b"
    by (induction b) (auto simp: lines_of_def)
  ultimately show ?thesis by simp
qed

lemma blocks_letters:
  "0 < n \<Longrightarrow> \<exists>d. by_blocks n (\<lambda>b. Some (map_rows b)) tx = Some d \<and>
     filter (\<lambda>c. c \<noteq> newline) d = filter (\<lambda>c. c \<noteq> newline \<and> c \<noteq> NUL) tx"
proof (induction tx rule: length_induct)
  case (1 tx)
  show ?case
  proof (cases "tx = []")
    case False
    then obtain d where d: "by_blocks n (\<lambda>b. Some (map_rows b)) (drop n tx) = Some d"
      "filter (\<lambda>c. c \<noteq> newline) d = filter (\<lambda>c. c \<noteq> newline \<and> c \<noteq> NUL) (drop n tx)"
      using 1 by (metis (no_types, lifting) diff_less length_drop length_greater_0_conv)
    have "filter (\<lambda>c. c \<noteq> newline \<and> c \<noteq> NUL) tx =
        filter (\<lambda>c. c \<noteq> newline \<and> c \<noteq> NUL) (take n tx) @ filter (\<lambda>c. c \<noteq> newline \<and> c \<noteq> NUL) (drop n tx)"
      by (metis append_take_drop_id filter_append)
    then show ?thesis using 1(2) d by (simp add: by_blocks_step [OF _ False] maps_letters)
  qed simp
qed

section \<open>The pages of a region\<close>

lemma show_hex_value:
  "n < 16 \<Longrightarrow> hex_value (hex_digit n) = Some n"
proof -
  assume "n < 16"
  then have "n = 0 \<or> n = 1 \<or> n = 2 \<or> n = 3 \<or> n = 4 \<or> n = 5 \<or> n = 6 \<or> n = 7 \<or> n = 8 \<or> n = 9 \<or>
    n = 10 \<or> n = 11 \<or> n = 12 \<or> n = 13 \<or> n = 14 \<or> n = 15" by presburger
  then show ?thesis by (elim disjE) (simp_all add: hex_value_def hex_digit_def Let_def)
qed

lemma show_hex_digits: "c \<in> set (show_hex n) \<Longrightarrow> hex_value c \<noteq> None"
proof (induction n rule: show_hex.induct)
  case (1 n)
  then show ?case
    using show_hex_value [of n] show_hex_value [of "n mod 16"]
    by (auto simp: show_hex.simps [of n] split: if_splits)
qed

lemma read_show_hex: "read_hex (show_hex n) = n"
proof (induction n rule: show_hex.induct)
  case (1 n)
  then show ?case
    using show_hex_value [of n] show_hex_value [of "n mod 16"]
    by (auto simp: show_hex.simps [of n] read_hex_def)
qed

lemma hex_digit_plain: "hex_value c \<noteq> None \<Longrightarrow> \<not> isspace c \<and> c \<notin> {CHR ''+'', CHR ''-'', CHR ''x'', CHR ''X'', CHR '' ''}"
  by (auto simp: hex_value_def isspace_def)

text \<open>A number printed in base 16, with any zeros before it, is read back.\<close>

lemma strtoul_show_hex:
  assumes "n < 2 ^ 64"
  shows "strtoul_16 (replicate k (CHR ''0'') @ show_hex n) = word_of_nat n"
proof -
  let ?s = "replicate k (CHR ''0'') @ show_hex n"
  have zero: "hex_value (CHR ''0'') = Some 0" by (simp add: hex_value_def)
  have all: "\<forall>c\<in>set ?s. hex_value c \<noteq> None" using show_hex_digits zero by auto
  obtain c s' where cs: "?s = c # s'" by (cases ?s) (auto simp: show_hex.simps [of n] split: if_splits)
  then have "\<not> isspace c" "c \<noteq> CHR ''+''" using hex_digit_plain [of c] all by auto
  then have "dropWhile isspace ?s = ?s" "skip_plus ?s = ?s" unfolding cs by (simp_all add: skip_plus_def)
  moreover have no: "CHR ''x'' \<notin> set ?s" "CHR ''X'' \<notin> set ?s"
    using all hex_digit_plain [of "CHR ''x''"] hex_digit_plain [of "CHR ''X''"] by blast+
  have plain: "u \<notin> {''0x'', ''0X''}" if "set u \<subseteq> set ?s" for u
  proof
    assume "u \<in> {''0x'', ''0X''}"
    then have "CHR ''x'' \<in> set u \<or> CHR ''X'' \<in> set u" by auto
    with that no show False by blast
  qed
  have "take 2 ?s \<notin> {''0x'', ''0X''}" by (rule plain [OF set_take_subset])
  then have "skip_0x ?s = ?s" by (simp add: skip_0x_def)
  moreover have "takeWhile (\<lambda>c. hex_value c \<noteq> None) ?s = ?s" using all by simp
  moreover have "read_hex ?s = n"
  proof -
    have "foldl (\<lambda>n c. 16 * n + the (hex_value c)) 0 (replicate k (CHR ''0'')) = 0"
      by (induction k) (simp_all add: zero)
    then show ?thesis using read_show_hex [of n] by (simp add: read_hex_def)
  qed
  ultimately have "read_hex (takeWhile (\<lambda>c. hex_value c \<noteq> None) (skip_0x (skip_plus (dropWhile isspace ?s)))) = n"
    by (simp only:)
  then show ?thesis unfolding strtoul_16_def Let_def using assms by simp
qed

text \<open>The addresses of the pages of a region, in the order of the loop.\<close>

definition region_pages :: "u64 \<Rightarrow> (u64 \<Rightarrow> u64) \<Rightarrow> u64 \<Rightarrow> nat \<Rightarrow> string" where
  "region_pages page entry i n =
     concat (map (\<lambda>k. print_page (i + of_nat k * page) (entry ((i + of_nat k * page) div page * 8))) [0..<n])"

lemma region_pages_Suc:
  "region_pages page entry i (Suc n) =
     print_page i (entry (i div page * 8)) @ region_pages page entry (i + page) n"
proof -
  have "[0..<Suc n] = 0 # map Suc [0..<n]" by (simp only: map_Suc_upt upt_conv_Cons zero_less_Suc)
  then show ?thesis unfolding region_pages_def by (simp add: comp_def algebra_simps del: upt_Suc)
qed

lemma div_step: "0 < p \<Longrightarrow> (x + p) div p = Suc (x div p)" for p x :: nat
  using div_add_self2 [of p x] by (simp del: div_add_self2 div_add_self1)

lemma page_loop_ends:
  assumes "0 < unat page" "unat e + unat page \<le> 2 ^ 64"
  shows "page_loop page entry i e = Some (region_pages page entry i ((unat e - unat i + unat page - 1) div unat page))"
proof (induction "unat e - unat i" arbitrary: i rule: less_induct)
  case less
  show ?case
  proof (cases "i < e")
    case False
    then have "unat e - unat i = 0" by (simp add: word_less_nat_alt)
    then have "(unat e - unat i + unat page - 1) div unat page = 0" using assms(1) by simp
    then show ?thesis using False by (simp add: page_loop.simps [of page entry i e] region_pages_def)
  next
    case True
    then have lt: "unat i < unat e" by (simp add: word_less_nat_alt)
    then have sum: "unat (i + page) = unat i + unat page"
      using assms(2) by (intro unat_add_lem [THEN iffD1]) simp
    then have "unat e - unat (i + page) < unat e - unat i" using lt assms(1) by linarith
    note IH = less [OF this]
    have "(unat e - unat i + unat page - 1) div unat page = Suc ((unat e - unat i - 1) div unat page)"
    proof -
      define x where "x = unat e - unat i - 1"
      have eq: "unat e - unat i + unat page - 1 = x + unat page" using lt x_def by linarith
      have "(x + unat page) div unat page = Suc (x div unat page)" by (rule div_step [OF assms(1)])
      then show ?thesis by (simp only: eq x_def [symmetric])
    qed
    also have "(unat e - unat i - 1) div unat page = (unat e - unat (i + page) + unat page - 1) div unat page"
    proof (cases "unat i + unat page \<le> unat e")
      case True
      then have "unat e - unat i - 1 = unat e - unat (i + page) + unat page - 1" using assms(1) sum by linarith
      then show ?thesis by simp
    next
      case False
      then show ?thesis using assms(1) lt sum by simp
    qed
    finally show ?thesis using IH True by (simp add: page_loop.simps [of page entry i e] region_pages_Suc)
  qed
qed

text \<open>With the end in the last page of the address space, the address wraps and the loop goes on.\<close>

lemma page_loop_wraps:
  assumes "page_loop page entry i e = Some r"
  shows "\<not> (unat page dvd 2 ^ 64 \<and> unat page dvd unat i \<and> 2 ^ 64 < unat e + unat page)"
proof (rule page_loop.raw_induct [where P = "\<lambda>page entry i e r.
    \<not> (unat page dvd 2 ^ 64 \<and> unat page dvd unat i \<and> 2 ^ 64 < unat e + unat page)", OF _ assms])
  fix loop :: "u64 \<Rightarrow> (u64 \<Rightarrow> u64) \<Rightarrow> u64 \<Rightarrow> u64 \<Rightarrow> string option" and page entry i e r
  assume IH: "\<And>page entry i e r. loop page entry i e = Some r \<Longrightarrow>
      \<not> (unat page dvd 2 ^ 64 \<and> unat page dvd unat i \<and> 2 ^ 64 < unat e + unat page)"
    and run: "(if i < e then do { rest \<leftarrow> loop page entry (i + page) e;
        Some (print_page i (entry (i div page * 8)) @ rest) } else Some []) = Some r"
  show "\<not> (unat page dvd 2 ^ 64 \<and> unat page dvd unat i \<and> 2 ^ 64 < unat e + unat page)"
  proof
    assume H: "unat page dvd 2 ^ 64 \<and> unat page dvd unat i \<and> 2 ^ 64 < unat e + unat page"
    have below: "unat i < 2 ^ 64" using unsigned_less [of i] by simp
    obtain a b where a: "2 ^ 64 = unat page * a" and b: "unat i = unat page * b"
      using H by (elim conjE dvdE)
    have "b < a" using a b below by (metis mult_less_cancel1)
    then have "unat page * Suc b \<le> unat page * a" by (intro mult_le_mono2) simp
    then have le: "unat i + unat page \<le> 2 ^ 64" using a b by simp
    then have "i < e" using H by (simp add: word_less_nat_alt)
    then obtain rest where rest: "loop page entry (i + page) e = Some rest"
      using run by (auto split: bind_splits)
    have "unat page dvd unat (i + page)"
    proof (cases "unat i + unat page < 2 ^ 64")
      case True
      then have "unat (i + page) = unat i + unat page" by (intro unat_add_lem [THEN iffD1]) simp
      then show ?thesis using H by simp
    next
      case False
      then have "unat i + unat page = 2 ^ 64" using le by simp
      then have "unat (i + page) = 0" by (simp add: unat_word_ariths)
      then show ?thesis by simp
    qed
    then show False using IH [OF rest] H by blast
  qed
qed

end
