(* ===== verification/Report_Properties.thy ===== *)
theory Report_Properties
  imports Process_Reports
begin

text \<open>
  The properties of the reports on a process (sem_06/lab_03/get_info).
\<close>

section \<open>Regions as /proc prints them\<close>

text \<open>\<open>%08lx-%08lx\<close> and the rest of the row.\<close>

definition hex_8 :: "nat \<Rightarrow> string" where
  "hex_8 n = replicate (8 - length (show_hex n)) (CHR ''0'') @ show_hex n"




lemma hex_8_not_Nil [simp]: "hex_8 n \<noteq> []"
  by (simp add: hex_8_def show_hex.simps [of n])











section \<open>Properties\<close>



text \<open>When a region ends in the last page of the address space the address of the loop over its
  pages wraps around and the loop does not end.\<close>

theorem pagemap_last_page_diverges:
  assumes "2 ^ 64 - 4096 < unat e" "4096 dvd unat i"
  shows "page_loop 4096 entry i e = None"
proof (rule ccontr)
  assume "page_loop 4096 entry i e \<noteq> None"
  then obtain r where "page_loop 4096 entry i e = Some r" by blast
  from page_loop_wraps [OF this] assms show False by simp
qed

lemma pagemap_last_page_diverges_witness: "page_loop 4096 (\<lambda>k. 0) 0 0xFFFFFFFFFFFFFFFF = None"
  by (rule pagemap_last_page_diverges) simp_all

text \<open>An entry of pagemap with its fields: page frame number, soft-dirty, file or shared, swapped, present.\<close>

definition low :: "u64 \<Rightarrow> u64" where
  "low x = x AND 1"

lemma bit_low: "bit (low x) n \<longleftrightarrow> n = 0 \<and> bit x 0"
  by (auto simp: low_def bit_simps)

definition pagemap_entry :: "u64 \<Rightarrow> u64 \<Rightarrow> u64 \<Rightarrow> u64 \<Rightarrow> u64 \<Rightarrow> u64" where
  "pagemap_entry pfn dirty shared swapped present =
     take_bit 55 pfn OR push_bit 55 (low dirty) OR push_bit 61 (low shared) OR
     push_bit 62 (low swapped) OR push_bit 63 (low present)"

lemma pagemap_entry_fields:
  "take_bit 55 (pagemap_entry pfn d f s p) = take_bit 55 pfn"
  "low (drop_bit 55 (pagemap_entry pfn d f s p)) = low d"
  "low (drop_bit 61 (pagemap_entry pfn d f s p)) = low f"
  "low (drop_bit 62 (pagemap_entry pfn d f s p)) = low s"
  "low (drop_bit 63 (pagemap_entry pfn d f s p)) = low p"
  by (rule bit_word_eqI, auto simp: pagemap_entry_def bit_low bit_simps simp del: bit_0)+

lemma print_page_masks:
  "print_page a w =
    ''0x'' @ pad_right 15 (show_hex (unat a)) @ '' : '' @ pad_right 10 (show_hex (unat (take_bit 55 w))) @ '' '' @
    pad_right 10 (show_nat (unat (low (drop_bit 55 w)))) @ '' '' @
    pad_right 10 (show_nat (unat (low (drop_bit 61 w)))) @ '' '' @
    pad_right 10 (show_nat (unat (low (drop_bit 62 w)))) @ '' '' @
    pad_right 10 (show_nat (unat (low (drop_bit 63 w)))) @ nl"
proof -
  have "(push_bit 55 1 - 1 :: u64) = mask 55" by (simp add: mask_eq_exp_minus_1 push_bit_eq_mult)
  then show ?thesis unfolding print_page_def low_def by (simp only: take_bit_eq_mask)
qed

text \<open>An entry of pagemap put together from its fields is printed with exactly these fields.\<close>

theorem page_fields_printed:
  assumes "unat pfn < 2 ^ 55" "{d, f, s, p} \<subseteq> {0, 1}"
  shows "print_page a (pagemap_entry pfn d f s p) =
    ''0x'' @ pad_right 15 (show_hex (unat a)) @ '' : '' @ pad_right 10 (show_hex (unat pfn)) @ '' '' @
    pad_right 10 (show_nat (unat d)) @ '' '' @ pad_right 10 (show_nat (unat f)) @ '' '' @
    pad_right 10 (show_nat (unat s)) @ '' '' @ pad_right 10 (show_nat (unat p)) @ nl"
proof -
  have "take_bit 55 pfn = pfn"
    using assms(1) by (simp add: word_unat_eq_iff unsigned_take_bit_eq take_bit_nat_eq_self_iff)
  moreover have "low x = x" if "x \<in> {0, 1}" for x using that by (auto simp: low_def)
  then have "low d = d" "low f = f" "low s = s" "low p = p" using assms(2) by simp_all
  ultimately show ?thesis by (simp add: print_page_masks pagemap_entry_fields)
qed

lemma page_fields_printed_witness:
  "print_page 4096 (pagemap_entry 3 1 0 0 1) =
    ''0x'' @ pad_right 15 (show_hex (unat (4096 :: u64))) @ '' : '' @ pad_right 10 (show_hex (unat (3 :: u64))) @ '' '' @
    pad_right 10 (show_nat (unat (1 :: u64))) @ '' '' @ pad_right 10 (show_nat (unat (0 :: u64))) @ '' '' @
    pad_right 10 (show_nat (unat (0 :: u64))) @ '' '' @ pad_right 10 (show_nat (unat (1 :: u64))) @ nl"
  by (rule page_fields_printed) simp_all

lemma maps_info_blocks:
  "get_maps_info (Some tx) = map_option ((@) maps_header) (by_blocks BUF_SIZE (\<lambda>b. Some (map_rows b)) tx)"
  unfolding get_maps_info_def maps_blocks by (cases "by_blocks BUF_SIZE (\<lambda>b. Some (map_rows b)) tx") (simp_all add: maps_blocks)

text \<open>For a maps file of at most 1024 bytes \<open>get_maps_info\<close> prints its lines, the empty ones left out.\<close>

theorem maps_lines_printed:
  assumes "length tx \<le> BUF_SIZE" "NUL \<notin> set tx"
  shows "get_maps_info (Some tx) =
    Some (maps_header @ concat (map (\<lambda>row. row @ nl) (filter (\<lambda>r. r \<noteq> []) (split_at newline tx))))"
proof -
  have "lines_of tx = tx" using assms(2) unfolding lines_of_def by (intro map_idI) auto
  then show ?thesis
    using assms(1) by (cases "tx = []") (simp_all add: maps_info_blocks by_blocks_short map_rows_def BUF_SIZE_def lines_of_def)
qed

lemma maps_lines_printed_witness:
  "get_maps_info (Some (''ab'' @ nl @ nl @ ''cd'' @ nl)) = Some (maps_header @ ''ab'' @ nl @ ''cd'' @ nl)"
proof -
  have "length (''ab'' @ nl @ nl @ ''cd'' @ nl) \<le> BUF_SIZE" "NUL \<notin> set (''ab'' @ nl @ nl @ ''cd'' @ nl)"
    by (simp_all add: nl_def BUF_SIZE_def)
  from maps_lines_printed [OF this] show ?thesis by (simp add: nl_def)
qed

text \<open>Whatever the size of a maps file, \<open>get_maps_info\<close> prints its bytes in order, none lost: it only
  adds and removes line ends.\<close>

theorem maps_nothing_lost:
  "\<exists>d. get_maps_info (Some tx) = Some (maps_header @ d) \<and>
    filter (\<lambda>c. c \<noteq> newline) d = filter (\<lambda>c. c \<noteq> newline \<and> c \<noteq> NUL) tx"
proof -
  have "0 < BUF_SIZE" by (simp add: BUF_SIZE_def)
  from blocks_letters [OF this] obtain d where "by_blocks BUF_SIZE (\<lambda>b. Some (map_rows b)) tx = Some d"
    "filter (\<lambda>c. c \<noteq> newline) d = filter (\<lambda>c. c \<noteq> newline \<and> c \<noteq> NUL) tx" by blast
  then show ?thesis by (simp add: maps_info_blocks)
qed

text \<open>A row that lies across the end of the first block of 1024 bytes is printed as two rows.\<close>

theorem maps_row_cut:
  assumes "newline \<notin> set (r1 @ r2)" "NUL \<notin> set (r1 @ r2)" "r1 \<noteq> []"
    and "length r1 + 1 < BUF_SIZE" "BUF_SIZE < length r1 + 1 + length r2" "length r2 \<le> BUF_SIZE"
  shows "get_maps_info (Some (r1 @ nl @ r2)) =
    Some (maps_header @ r1 @ nl @ take (BUF_SIZE - length r1 - 1) r2 @ nl @ drop (BUF_SIZE - length r1 - 1) r2 @ nl)"
proof -
  let ?k = "BUF_SIZE - length r1 - 1"
  have plain: "lines_of t = t" if "NUL \<notin> set t" for t
    using that unfolding lines_of_def by (intro map_idI) auto
  have "take BUF_SIZE (r1 @ nl @ r2) = r1 @ newline # take ?k r2"
    using assms(4) by (simp add: nl_def take_Cons')
  moreover have "drop BUF_SIZE (r1 @ nl @ r2) = drop ?k r2"
    using assms(4) by (simp add: nl_def drop_Cons')
  moreover have "map_rows (r1 @ newline # take ?k r2) = r1 @ nl @ take ?k r2 @ nl"
  proof -
    have "newline \<notin> set (take ?k r2)" "NUL \<notin> set (take ?k r2)" using assms(1,2) by (auto dest: in_set_takeD)
    moreover have "take ?k r2 \<noteq> []" using assms(4,5) by auto
    ultimately show ?thesis
      using assms(1-3) by (simp add: map_rows_def plain split_at_append split_at_none)
  qed
  moreover have "map_rows (drop ?k r2) = drop ?k r2 @ nl"
  proof -
    have "newline \<notin> set (drop ?k r2)" "NUL \<notin> set (drop ?k r2)" using assms(1,2) by (auto dest: in_set_dropD)
    moreover have "drop ?k r2 \<noteq> []" using assms(4,5) by auto
    ultimately show ?thesis by (simp add: map_rows_def plain split_at_none)
  qed
  moreover have "by_blocks BUF_SIZE (\<lambda>b. Some (map_rows b)) (drop ?k r2) = Some (map_rows (drop ?k r2))"
    using assms(4-6) by (intro by_blocks_short) (auto simp: BUF_SIZE_def)
  ultimately have "by_blocks BUF_SIZE (\<lambda>b. Some (map_rows b)) (r1 @ nl @ r2) =
      Some ((r1 @ nl @ take ?k r2 @ nl) @ drop ?k r2 @ nl)"
    using assms(3) by (subst by_blocks_step) (simp_all only: option.case option.map, simp_all add: BUF_SIZE_def)
  then show ?thesis by (simp add: maps_info_blocks)
qed

lemma maps_row_cut_witness:
  "get_maps_info (Some (replicate 1000 (CHR ''a'') @ nl @ replicate 100 (CHR ''b''))) =
    Some (maps_header @ replicate 1000 (CHR ''a'') @ nl @ replicate 23 (CHR ''b'') @ nl @ replicate 77 (CHR ''b'') @ nl)"
  using maps_row_cut [of "replicate 1000 (CHR ''a'')" "replicate 100 (CHR ''b'')"] by (simp add: BUF_SIZE_def)

text \<open>C35: \<open>get_environ_info\<close> prints the environment with a newline after each variable exactly when it
  has less than 256 bytes; from 256 bytes on, \<open>buf[len] = 0\<close> writes behind the array.\<close>

theorem environ_overruns:
  "get_environ_info (Some tx) = (if length tx < 256 then Some (lines_of tx) else None)"
proof (cases "tx = []")
  case True
  then show ?thesis by (simp add: get_environ_info_def lines_of_def)
next
  case False
  then show ?thesis
    by (simp add: get_environ_info_def by_blocks_step text_of_block_lines by_blocks_short)
qed

text \<open>\<open>get_stat_info\<close> prints a line for each field of a stat file of at most 1024 bytes, and reads
  behind the array of the 52 names exactly when there are more fields.\<close>

theorem stat_fields:
  assumes "length tx \<le> BUF_SIZE" "tx \<noteq> []" "fs = tokens (CHR '' '') (lines_of tx)"
  shows "get_stat_info (Some tx) =
    (if length fs \<le> 52 then Some (stat_header @ concat (map (\<lambda>(h, f). h @ ''  '' @ f @ nl) (zip stat_headers fs)))
     else None)"
proof -
  have len: "length stat_headers = 52" by (simp add: stat_headers_def)
  have "stat_rows i fs = (if i + length fs \<le> 52
      then Some (concat (map (\<lambda>(h, f). h @ ''  '' @ f @ nl) (zip (drop i stat_headers) fs))) else None)"
    if "i \<le> 52" for i
    using that
  proof (induction fs arbitrary: i)
    case (Cons f fs)
    show ?case
    proof (cases "i < 52")
      case True
      then have "drop i stat_headers = stat_headers ! i # drop (Suc i) stat_headers"
        by (simp add: Cons_nth_drop_Suc len)
      then show ?thesis using Cons.IH [of "Suc i"] True by (simp add: cell_def len)
    next
      case False
      then show ?thesis using Cons.prems by (simp add: cell_def len)
    qed
  qed simp
  from this [of 0] show ?thesis
    using assms by (simp add: get_stat_info_def by_blocks_short BUF_SIZE_def text_of_block_lines)
qed

lemma stat_fields_witness:
  "get_stat_info (Some ''7 (sh) S'') =
    Some (stat_header @ ''pid  7'' @ nl @ ''comm  (sh)'' @ nl @ ''state  S'' @ nl)"
proof -
  have "tokens (CHR '' '') (lines_of ''7 (sh) S'') = [''7'', ''(sh)'', ''S'']"
    by (simp add: lines_of_def tokens.simps strtok_def)
  from stat_fields [OF _ _ this [symmetric]] show ?thesis
    by (simp add: BUF_SIZE_def stat_headers_def)
qed

end
