(* ===== verification/File_Threads.thy ===== *)
theory File_Threads
  imports File_Writes Transition_Systems
begin

text \<open>
  The programs of sem_06/lab_08 that do their work in two threads, \<open>main\<close> and one it creates. A state
  is the place of each thread with its locals and the shared state of the process; one step is one
  system call or one call of stdio. Process 0 is \<open>main\<close>, process 1 the thread, and process 2 stands
  for a \<open>pthread_create\<close> that fails.
\<close>

record 'l two_threads =
  at_main :: 'l
  at_thread :: 'l
  tt_io :: io_state

definition both_threads ::
    "('s \<Rightarrow> 's option) \<Rightarrow> ('s \<Rightarrow> 's option) \<Rightarrow> ('s \<Rightarrow> 's option) \<Rightarrow> nat \<Rightarrow> 's \<Rightarrow> 's option" where
  "both_threads m t f i s = (if i = 0 then m s else if i = 1 then t s else if i = 2 then f s else None)"

lemma both_threads_cases:
  assumes "both_threads m t f i s = Some s'"
  obtains "m s = Some s'" | "t s = Some s'" | "f s = Some s'"
  using assms by (auto simp: both_threads_def split: if_splits)

lemma some_thread_moves:
  "m s \<noteq> None \<Longrightarrow> \<exists>u. sched_step (both_threads m t f) s u"
  "t s \<noteq> None \<Longrightarrow> \<exists>u. sched_step (both_threads m t f) s u"
proof -
  show "\<exists>u. sched_step (both_threads m t f) s u" if move: "m s \<noteq> None"
  proof -
    obtain u where "both_threads m t f 0 s = Some u" using move by (auto simp: both_threads_def)
    then show ?thesis by (blast intro: sched)
  qed
  show "\<exists>u. sched_step (both_threads m t f) s u" if move: "t s \<noteq> None"
  proof -
    obtain u where "both_threads m t f 1 s = Some u" using move by (auto simp: both_threads_def)
    then show ?thesis by (blast intro: sched)
  qed
qed

section \<open>Two threads that copy a file to the terminal (task_02_v2.c)\<close>

datatype copy_at =
  A_unborn | A_open | A_create int | A_read int | A_write int char | A_close int | A_ended | A_failed

text \<open>One pass of \<open>while (rc == 1)\<close>: the read, and the write of the byte. Descriptor 1 is the terminal.\<close>

definition copy_read :: "int \<Rightarrow> io_state \<Rightarrow> copy_at \<times> io_state" where
  "copy_read fd io =
     (case sys_read fd 1 io of (rc, d, io') \<Rightarrow> (if rc = 1 then A_write fd (hd d) else A_close fd, io'))"

definition copy_write :: "int \<Rightarrow> char \<Rightarrow> io_state \<Rightarrow> copy_at \<times> io_state" where
  "copy_write fd c io = (A_read fd, snd (sys_write 1 [c] io))"

definition main_goes :: "'l \<times> io_state \<Rightarrow> 'l two_threads \<Rightarrow> 'l two_threads" where
  "main_goes p s = s\<lparr>at_main := fst p, tt_io := snd p\<rparr>"

definition thread_goes :: "'l \<times> io_state \<Rightarrow> 'l two_threads \<Rightarrow> 'l two_threads" where
  "thread_goes p s = s\<lparr>at_thread := fst p, tt_io := snd p\<rparr>"

definition copy_main :: "copy_at two_threads \<Rightarrow> copy_at two_threads option" where
  "copy_main s =
     (case at_main s of
        A_open \<Rightarrow> (case sys_open (tt_io s) of (fd, io) \<Rightarrow> Some (main_goes (A_create fd, io) s))
      | A_create fd \<Rightarrow> Some (s\<lparr>at_main := A_read fd, at_thread := A_open\<rparr>)
      | A_read fd \<Rightarrow> Some (main_goes (copy_read fd (tt_io s)) s)
      | A_write fd c \<Rightarrow> Some (main_goes (copy_write fd c (tt_io s)) s)
      | A_close fd \<Rightarrow> if at_thread s = A_ended then Some (main_goes (A_ended, sys_close fd (tt_io s)) s) else None
      | _ \<Rightarrow> None)"

definition copy_thread :: "copy_at two_threads \<Rightarrow> copy_at two_threads option" where
  "copy_thread s =
     (case at_thread s of
        A_open \<Rightarrow> (case sys_open (tt_io s) of (fd, io) \<Rightarrow> Some (thread_goes (A_read fd, io) s))
      | A_read fd \<Rightarrow> Some (thread_goes (copy_read fd (tt_io s)) s)
      | A_write fd c \<Rightarrow> Some (thread_goes (copy_write fd c (tt_io s)) s)
      | A_close fd \<Rightarrow> Some (thread_goes (A_ended, sys_close fd (tt_io s)) s)
      | _ \<Rightarrow> None)"

definition copy_fails :: "copy_at two_threads \<Rightarrow> copy_at two_threads option" where
  "copy_fails s = (case at_main s of A_create fd \<Rightarrow> Some (s\<lparr>at_main := A_failed\<rparr>) | _ \<Rightarrow> None)"

definition task_02_v2 :: "nat \<Rightarrow> copy_at two_threads \<Rightarrow> copy_at two_threads option" where
  "task_02_v2 = both_threads copy_main copy_thread copy_fails"

definition copy_init :: "string \<Rightarrow> copy_at two_threads" where
  "copy_init tx = \<lparr>at_main = A_open, at_thread = A_unborn, tt_io = io_start (Some tx)\<rparr>"

text \<open>A thread that has printed \<open>n\<close> bytes.\<close>

definition copy_ok :: "string \<Rightarrow> io_state \<Rightarrow> copy_at \<Rightarrow> nat \<Rightarrow> bool" where
  "copy_ok tx io a n \<longleftrightarrow>
     (case a of
        A_create fd \<Rightarrow> n = 0 \<and> reading io fd 0 tx
      | A_read fd \<Rightarrow> n \<le> length tx \<and> reading io fd n tx
      | A_write fd c \<Rightarrow> n < length tx \<and> c = tx ! n \<and> reading io fd (Suc n) tx
      | A_close fd \<Rightarrow> n = length tx \<and> reading io fd n tx
      | A_ended \<Rightarrow> n = length tx
      | _ \<Rightarrow> n = 0)"

definition fd_of :: "copy_at \<Rightarrow> int option" where
  "fd_of a = (case a of A_create fd \<Rightarrow> Some fd | A_read fd \<Rightarrow> Some fd | A_write fd c \<Rightarrow> Some fd
     | A_close fd \<Rightarrow> Some fd | _ \<Rightarrow> None)"

definition copy_inv :: "string \<Rightarrow> copy_at two_threads \<Rightarrow> bool" where
  "copy_inv tx s \<longleftrightarrow>
     (\<exists>n m. copy_ok tx (tt_io s) (at_main s) n \<and> copy_ok tx (tt_io s) (at_thread s) m \<and>
        screen (tt_io s) \<in> shuffles (take n tx) (take m tx)) \<and>
     file_text (tt_io s) = Some tx \<and> fd_slot (io_fds (tt_io s)) 1 = Some Terminal \<and>
     (fd_of (at_main s) \<noteq> None \<longrightarrow> fd_of (at_main s) \<noteq> fd_of (at_thread s)) \<and>
     (at_main s = A_ended \<longrightarrow> at_thread s = A_ended) \<and> at_main s \<noteq> A_unborn \<and>
     (case at_main s of A_open \<Rightarrow> at_thread s = A_unborn | A_create fd \<Rightarrow> at_thread s = A_unborn
      | A_failed \<Rightarrow> at_thread s = A_unborn
      | _ \<Rightarrow> at_thread s \<noteq> A_unborn \<and> at_thread s \<noteq> A_failed \<and> (\<forall>fd. at_thread s \<noteq> A_create fd))"

lemma shuffles_snoc_left: "zs \<in> shuffles xs ys \<Longrightarrow> zs @ [c] \<in> shuffles (xs @ [c]) ys"
proof (induction xs ys arbitrary: zs rule: shuffles.induct)
  case (1 ys)
  then have "zs = ys" by simp
  moreover have "ys @ [c] \<in> shuffles [c] ys" by (induction ys) (auto simp: Cons_in_shuffles_iff)
  ultimately show ?case by simp
next
  case (2 xs)
  then show ?case by simp
next
  case (3 x xs y ys)
  from 3(3) show ?case
    by (auto simp: image_iff intro: 3(1) 3(2) dest: 3(1) 3(2))
qed

lemma shuffles_snoc_right: "zs \<in> shuffles xs ys \<Longrightarrow> zs @ [c] \<in> shuffles xs (ys @ [c])"
  using shuffles_snoc_left [of zs ys xs c] shuffles_commutes by blast

text \<open>How many steps a thread has still to do.\<close>

definition copy_rank :: "string \<Rightarrow> io_state \<Rightarrow> copy_at \<Rightarrow> nat" where
  "copy_rank tx io a =
     (case a of
        A_unborn \<Rightarrow> 2 * length tx + 4
      | A_open \<Rightarrow> 2 * length tx + 4
      | A_create fd \<Rightarrow> 2 * length tx + 3
      | A_read fd \<Rightarrow> 2 * unread io fd + 2
      | A_write fd c \<Rightarrow> 2 * unread io fd + 3
      | A_close fd \<Rightarrow> 1
      | _ \<Rightarrow> 0)"

text \<open>What one turn of a thread does for itself and for the other one.\<close>

definition one_turn :: "string \<Rightarrow> int \<Rightarrow> nat \<Rightarrow> copy_at \<Rightarrow> io_state \<Rightarrow> copy_at \<times> io_state \<Rightarrow> bool" where
  "one_turn tx fd n a io p \<longleftrightarrow>
     (\<exists>n'. copy_ok tx (snd p) (fst p) n' \<and>
        (n' = n \<and> screen (snd p) = screen io \<or> n' = Suc n \<and> n < length tx \<and> screen (snd p) = screen io @ [tx ! n])) \<and>
     fd_of (fst p) = Some fd \<and> fst p \<notin> {A_unborn, A_failed, A_create fd} \<and>
     (\<forall>j. j \<noteq> fd \<longrightarrow> fd_slot (io_fds (snd p)) j = fd_slot (io_fds io) j) \<and> file_text (snd p) = file_text io \<and>
     copy_rank tx (snd p) (fst p) < copy_rank tx io a"

lemma one_turnD:
  assumes "one_turn tx fd n a io p"
  shows "file_text (snd p) = file_text io" "\<And>j. j \<noteq> fd \<Longrightarrow> fd_slot (io_fds (snd p)) j = fd_slot (io_fds io) j"
    "copy_rank tx (snd p) (fst p) < copy_rank tx io a"
  using assms by (simp_all add: one_turn_def)

lemma copy_read_turn:
  assumes "copy_ok tx io (A_read fd) n" "file_text io = Some tx"
  shows "one_turn tx fd n (A_read fd) io (copy_read fd io)"
proof (cases "n < length tx")
  case True
  then have "take (Suc 0) (drop n tx) = [tx ! n]" by (metis One_nat_def hd_drop_conv_nth take_0 take_Suc take_eq_Nil length_greater_0_conv less_not_refl drop_eq_Nil not_less)
  then show ?thesis
    using assms True by (auto simp: one_turn_def copy_read_def copy_ok_def reading_def sys_read_regular Let_def
        fd_slot_update fd_of_def text_of_def copy_rank_def unread_def)
next
  case False
  then have "n = length tx" "drop n tx = []" using assms by (simp_all add: copy_ok_def)
  then show ?thesis
    using assms by (auto simp: one_turn_def copy_read_def copy_ok_def reading_def sys_read_regular Let_def
        fd_slot_update fd_of_def text_of_def copy_rank_def unread_def)
qed

lemma copy_write_turn:
  assumes "copy_ok tx io (A_write fd c) n" "fd_slot (io_fds io) 1 = Some Terminal"
  shows "one_turn tx fd n (A_write fd c) io (copy_write fd c io)"
  using assms by (auto simp: one_turn_def copy_write_def copy_ok_def reading_def sys_write_def fd_of_def text_of_def copy_rank_def unread_def)

lemma copy_ok_other:
  assumes "copy_ok tx io a n" "fd_of a \<noteq> Some fd" "file_text io' = file_text io"
    and "\<And>j. j \<noteq> fd \<Longrightarrow> fd_slot (io_fds io') j = fd_slot (io_fds io) j"
  shows "copy_ok tx io' a n" "copy_rank tx io' a = copy_rank tx io a"
  using assms by (auto simp: copy_ok_def fd_of_def reading_def text_of_def copy_rank_def unread_def split: copy_at.splits)

lemma take_snoc: "n < length tx \<Longrightarrow> take (Suc n) tx = take n tx @ [tx ! n]"
  by (rule take_Suc_conv_app_nth)

lemma copy_invE:
  assumes "copy_inv tx s"
  obtains n m where "copy_ok tx (tt_io s) (at_main s) n" "copy_ok tx (tt_io s) (at_thread s) m"
    "screen (tt_io s) \<in> shuffles (take n tx) (take m tx)" "file_text (tt_io s) = Some tx"
    "fd_slot (io_fds (tt_io s)) 1 = Some Terminal"
  using assms by (auto simp: copy_inv_def)

lemma main_turn_inv:
  assumes inv: "copy_inv tx s" and a: "at_main s = A_read fd \<or> at_main s = A_write fd c"
    and turn: "\<And>n. copy_ok tx (tt_io s) (at_main s) n \<Longrightarrow> one_turn tx fd n (at_main s) (tt_io s) p"
  shows "copy_inv tx (main_goes p s)"
proof -
  obtain n m where nm: "copy_ok tx (tt_io s) (at_main s) n" "copy_ok tx (tt_io s) (at_thread s) m"
    "screen (tt_io s) \<in> shuffles (take n tx) (take m tx)" "file_text (tt_io s) = Some tx"
    "fd_slot (io_fds (tt_io s)) 1 = Some Terminal"
    using copy_invE [OF inv] .
  note t = turn [OF nm(1)]
  have fd: "fd_of (at_thread s) \<noteq> Some fd" using inv a by (auto simp: copy_inv_def fd_of_def)
  have "fd \<noteq> 1" using nm(1,5) a by (auto simp: copy_ok_def reading_def)
  obtain n' where n': "copy_ok tx (snd p) (fst p) n'"
    "n' = n \<and> screen (snd p) = screen (tt_io s) \<or> n' = Suc n \<and> n < length tx \<and> screen (snd p) = screen (tt_io s) @ [tx ! n]"
    using t by (auto simp: one_turn_def)
  have "copy_ok tx (snd p) (at_thread s) m"
    using copy_ok_other [OF nm(2) fd] t by (auto simp: one_turn_def)
  moreover have "screen (snd p) \<in> shuffles (take n' tx) (take m tx)"
    using n'(2) nm(3) by (auto simp: take_snoc intro: shuffles_snoc_left)
  ultimately show ?thesis
    using inv t n'(1) nm \<open>fd \<noteq> 1\<close> a fd
    by (auto simp: copy_inv_def main_goes_def one_turn_def fd_of_def split: copy_at.splits)
qed

lemma thread_turn_inv:
  assumes inv: "copy_inv tx s" and a: "at_thread s = A_read fd \<or> at_thread s = A_write fd c"
    and turn: "\<And>n. copy_ok tx (tt_io s) (at_thread s) n \<Longrightarrow> one_turn tx fd n (at_thread s) (tt_io s) p"
  shows "copy_inv tx (thread_goes p s)"
proof -
  obtain n m where nm: "copy_ok tx (tt_io s) (at_main s) n" "copy_ok tx (tt_io s) (at_thread s) m"
    "screen (tt_io s) \<in> shuffles (take n tx) (take m tx)" "file_text (tt_io s) = Some tx"
    "fd_slot (io_fds (tt_io s)) 1 = Some Terminal"
    using copy_invE [OF inv] .
  note t = turn [OF nm(2)]
  have fd: "fd_of (at_main s) \<noteq> Some fd" using inv a by (auto simp: copy_inv_def fd_of_def)
  have "fd \<noteq> 1" using nm(2,5) a by (auto simp: copy_ok_def reading_def)
  obtain m' where m': "copy_ok tx (snd p) (fst p) m'"
    "m' = m \<and> screen (snd p) = screen (tt_io s) \<or> m' = Suc m \<and> m < length tx \<and> screen (snd p) = screen (tt_io s) @ [tx ! m]"
    using t by (auto simp: one_turn_def)
  have "copy_ok tx (snd p) (at_main s) n"
    using copy_ok_other [OF nm(1) fd] t by (auto simp: one_turn_def)
  moreover have "screen (snd p) \<in> shuffles (take n tx) (take m' tx)"
    using m'(2) nm(3) by (auto simp: take_snoc intro: shuffles_snoc_right)
  ultimately show ?thesis
    using inv t m'(1) nm \<open>fd \<noteq> 1\<close> a fd
    by (auto simp: copy_inv_def thread_goes_def one_turn_def fd_of_def split: copy_at.splits)
qed

definition copies_rank :: "string \<Rightarrow> copy_at two_threads \<Rightarrow> nat" where
  "copies_rank tx s = copy_rank tx (tt_io s) (at_main s) + copy_rank tx (tt_io s) (at_thread s)"

lemma turn_rank:
  assumes "copy_inv tx s"
  shows "at_main s = A_read fd \<or> at_main s = A_write fd c \<Longrightarrow>
      (\<And>n. copy_ok tx (tt_io s) (at_main s) n \<Longrightarrow> one_turn tx fd n (at_main s) (tt_io s) p) \<Longrightarrow>
      copies_rank tx (main_goes p s) < copies_rank tx s"
    and "at_thread s = A_read fd \<or> at_thread s = A_write fd c \<Longrightarrow>
      (\<And>n. copy_ok tx (tt_io s) (at_thread s) n \<Longrightarrow> one_turn tx fd n (at_thread s) (tt_io s) p) \<Longrightarrow>
      copies_rank tx (thread_goes p s) < copies_rank tx s"
proof -
  obtain n m where nm: "copy_ok tx (tt_io s) (at_main s) n" "copy_ok tx (tt_io s) (at_thread s) m"
    using copy_invE [OF assms] .
  show "copies_rank tx (main_goes p s) < copies_rank tx s"
    if a: "at_main s = A_read fd \<or> at_main s = A_write fd c"
      and turn: "\<And>n. copy_ok tx (tt_io s) (at_main s) n \<Longrightarrow> one_turn tx fd n (at_main s) (tt_io s) p"
  proof -
    have "fd_of (at_thread s) \<noteq> Some fd" using assms a by (auto simp: copy_inv_def fd_of_def)
    from copy_ok_other(2) [OF nm(2) this one_turnD(1,2) [OF turn [OF nm(1)]]] one_turnD(3) [OF turn [OF nm(1)]]
    show ?thesis by (simp add: copies_rank_def main_goes_def)
  qed
  show "copies_rank tx (thread_goes p s) < copies_rank tx s"
    if a: "at_thread s = A_read fd \<or> at_thread s = A_write fd c"
      and turn: "\<And>n. copy_ok tx (tt_io s) (at_thread s) n \<Longrightarrow> one_turn tx fd n (at_thread s) (tt_io s) p"
  proof -
    have "fd_of (at_main s) \<noteq> Some fd" using assms a by (auto simp: copy_inv_def fd_of_def)
    from copy_ok_other(2) [OF nm(1) this one_turnD(1,2) [OF turn [OF nm(2)]]] one_turnD(3) [OF turn [OF nm(2)]]
    show ?thesis by (simp add: copies_rank_def thread_goes_def)
  qed
qed

text \<open>Opening and closing change one descriptor.\<close>

lemma sys_close_slots: "fd_slot (io_fds (sys_close fd io)) j = (if j = fd then None else fd_slot (io_fds io) j)"
  "file_text (sys_close fd io) = file_text io" "screen (sys_close fd io) = screen io"
  by (auto simp: sys_close_def fds.release_slot)

lemma copy_main_step:
  assumes inv: "copy_inv tx s" and run: "copy_main s = Some t"
  shows "copy_inv tx t \<and> copies_rank tx t < copies_rank tx s"
proof -
  obtain n m where nm: "copy_ok tx (tt_io s) (at_main s) n" "copy_ok tx (tt_io s) (at_thread s) m"
    "screen (tt_io s) \<in> shuffles (take n tx) (take m tx)" "file_text (tt_io s) = Some tx"
    "fd_slot (io_fds (tt_io s)) 1 = Some Terminal"
    using copy_invE [OF inv] .
  show ?thesis
  proof (cases "at_main s")
    case A_open
    obtain fd io where o: "sys_open (tt_io s) = (fd, io)" by fastforce
    note so = sys_open_reading [OF o nm(4)]
    have "fd \<noteq> 1" using so(2) nm(5) by auto
    then show ?thesis
      using run A_open inv o so nm
      by (auto simp: copy_main_def main_goes_def copy_inv_def copy_ok_def fd_of_def reading_def text_of_def
          copies_rank_def copy_rank_def)
  next
    case (A_create fd)
    then have "at_thread s = A_unborn" using inv by (simp add: copy_inv_def)
    then show ?thesis
      using run A_create nm
      by (auto simp: copy_main_def copy_inv_def copy_ok_def fd_of_def copies_rank_def copy_rank_def unread_def reading_def)
  next
    case (A_read fd)
    then have t: "t = main_goes (copy_read fd (tt_io s)) s" using run by (simp add: copy_main_def)
    have "one_turn tx fd k (at_main s) (tt_io s) (copy_read fd (tt_io s))" if "copy_ok tx (tt_io s) (at_main s) k" for k
      using copy_read_turn that nm(4) A_read by simp
    then show ?thesis unfolding t using main_turn_inv [OF inv] turn_rank(1) [OF inv] A_read by blast
  next
    case (A_write fd c)
    then have t: "t = main_goes (copy_write fd c (tt_io s)) s" using run by (simp add: copy_main_def)
    have "one_turn tx fd k (at_main s) (tt_io s) (copy_write fd c (tt_io s))" if "copy_ok tx (tt_io s) (at_main s) k" for k
      using copy_write_turn that nm(5) A_write by simp
    then show ?thesis unfolding t using main_turn_inv [OF inv] turn_rank(1) [OF inv] A_write by blast
  next
    case (A_close fd)
    then have e: "at_thread s = A_ended" "t = main_goes (A_ended, sys_close fd (tt_io s)) s"
      using run by (simp_all add: copy_main_def split: if_splits)
    have "fd \<noteq> 1" using nm(1,5) A_close by (auto simp: copy_ok_def reading_def)
    then show ?thesis
      using e A_close nm
      by (auto simp: copy_inv_def main_goes_def copy_ok_def fd_of_def sys_close_slots copies_rank_def copy_rank_def)
  qed (use run in \<open>simp_all add: copy_main_def\<close>)
qed

text \<open>The second thread opens and closes the file beside the first.\<close>

lemma copy_thread_opens:
  assumes inv: "copy_inv tx s" and A_open: "at_thread s = A_open" and run: "copy_thread s = Some t"
  shows "copy_inv tx t \<and> copies_rank tx t < copies_rank tx s"
proof -
  obtain n m where nm: "copy_ok tx (tt_io s) (at_main s) n" "copy_ok tx (tt_io s) (at_thread s) m"
    "screen (tt_io s) \<in> shuffles (take n tx) (take m tx)" "file_text (tt_io s) = Some tx"
    "fd_slot (io_fds (tt_io s)) 1 = Some Terminal"
    using copy_invE [OF inv] .
  obtain fd io where o: "sys_open (tt_io s) = (fd, io)" by fastforce
  note so = sys_open_reading [OF o nm(4)]
  have "fd \<noteq> 1" using so(2) nm(5) by auto
  have other: "fd_of (at_main s) \<noteq> Some fd"
  proof
    assume "fd_of (at_main s) = Some fd"
    then have "fd_slot (io_fds (tt_io s)) fd \<noteq> None"
      using nm(1) by (auto simp: copy_ok_def fd_of_def reading_def split: copy_at.splits)
    with so(2) show False by simp
  qed
  have t: "t = thread_goes (A_read fd, io) s" using run A_open o by (simp add: copy_thread_def)
  have keep: "copy_ok tx io (at_main s) n" "copy_rank tx io (at_main s) = copy_rank tx (tt_io s) (at_main s)"
    by (rule copy_ok_other [OF nm(1) other], use so nm(4) in simp_all)+
  have "m = 0" using nm(2) A_open by (simp add: copy_ok_def)
  have slot: "fd_slot (io_fds io) fd = Some (Regular 0)" "text_of io = tx" using so by (simp_all add: text_of_def)
  have "copy_ok tx io (A_read fd) 0" using slot by (simp add: copy_ok_def reading_def)
  moreover have "screen io \<in> shuffles (take n tx) (take 0 tx)" using nm(3) so(4) \<open>m = 0\<close> by simp
  ultimately have ex: "\<exists>k l. copy_ok tx (tt_io t) (at_main t) k \<and> copy_ok tx (tt_io t) (at_thread t) l \<and>
      screen (tt_io t) \<in> shuffles (take k tx) (take l tx)"
    using keep(1) unfolding t thread_goes_def by (intro exI [of _ n] exI [of _ 0]) simp
  have "copy_inv tx t"
    unfolding copy_inv_def
    by (intro conjI, rule ex)
      (use inv A_open so(1) [of 1] so(3) nm(5) \<open>fd \<noteq> 1\<close> other in
        \<open>auto simp: copy_inv_def t thread_goes_def fd_of_def split: copy_at.splits\<close>)
  moreover have "copies_rank tx t < copies_rank tx s"
    using slot keep(2) A_open by (simp add: copies_rank_def t thread_goes_def copy_rank_def [of _ _ "A_read _"]
        copy_rank_def [of _ _ A_open] unread_def)
  ultimately show ?thesis ..
qed

lemma copy_thread_closes:
  assumes inv: "copy_inv tx s" and A_close: "at_thread s = A_close fd" and run: "copy_thread s = Some t"
  shows "copy_inv tx t \<and> copies_rank tx t < copies_rank tx s"
proof -
  obtain n m where nm: "copy_ok tx (tt_io s) (at_main s) n" "copy_ok tx (tt_io s) (at_thread s) m"
    "screen (tt_io s) \<in> shuffles (take n tx) (take m tx)" "file_text (tt_io s) = Some tx"
    "fd_slot (io_fds (tt_io s)) 1 = Some Terminal"
    using copy_invE [OF inv] .
  have t: "t = thread_goes (A_ended, sys_close fd (tt_io s)) s" using run A_close by (simp add: copy_thread_def)
  have "fd \<noteq> 1" using nm(2,5) A_close by (auto simp: copy_ok_def reading_def)
  have other: "fd_of (at_main s) \<noteq> Some fd" using inv A_close by (auto simp: copy_inv_def fd_of_def)
  have keep: "copy_ok tx (sys_close fd (tt_io s)) (at_main s) n"
    "copy_rank tx (sys_close fd (tt_io s)) (at_main s) = copy_rank tx (tt_io s) (at_main s)"
    by (rule copy_ok_other [OF nm(1) other], simp_all add: sys_close_slots)+
  have "copy_ok tx (sys_close fd (tt_io s)) A_ended m" using nm(2) A_close by (simp add: copy_ok_def)
  then have ex: "\<exists>k l. copy_ok tx (tt_io t) (at_main t) k \<and> copy_ok tx (tt_io t) (at_thread t) l \<and>
      screen (tt_io t) \<in> shuffles (take k tx) (take l tx)"
    using keep(1) nm(3) unfolding t thread_goes_def by (intro exI [of _ n] exI [of _ m]) (simp add: sys_close_slots)
  have "copy_inv tx t"
    unfolding copy_inv_def
    by (intro conjI, rule ex)
      (use inv A_close nm(4,5) \<open>fd \<noteq> 1\<close> in
        \<open>auto simp: copy_inv_def t thread_goes_def fd_of_def sys_close_slots split: copy_at.splits\<close>)
  moreover have "copies_rank tx t < copies_rank tx s"
    using keep(2) A_close by (simp add: copies_rank_def t thread_goes_def copy_rank_def [of _ _ A_ended]
        copy_rank_def [of _ _ "A_close _"])
  ultimately show ?thesis ..
qed

lemma copy_thread_step:
  assumes inv: "copy_inv tx s" and run: "copy_thread s = Some t"
  shows "copy_inv tx t \<and> copies_rank tx t < copies_rank tx s"
proof -
  obtain n m where nm: "copy_ok tx (tt_io s) (at_main s) n" "copy_ok tx (tt_io s) (at_thread s) m"
    "screen (tt_io s) \<in> shuffles (take n tx) (take m tx)" "file_text (tt_io s) = Some tx"
    "fd_slot (io_fds (tt_io s)) 1 = Some Terminal"
    using copy_invE [OF inv] .
  show ?thesis
  proof (cases "at_thread s")
    case A_open
    with copy_thread_opens [OF inv _ run] show ?thesis by blast
  next
    case (A_read fd)
    then have t: "t = thread_goes (copy_read fd (tt_io s)) s" using run by (simp add: copy_thread_def)
    have "one_turn tx fd k (at_thread s) (tt_io s) (copy_read fd (tt_io s))" if "copy_ok tx (tt_io s) (at_thread s) k" for k
      using copy_read_turn that nm(4) A_read by simp
    then show ?thesis unfolding t using thread_turn_inv [OF inv] turn_rank(2) [OF inv] A_read by blast
  next
    case (A_write fd c)
    then have t: "t = thread_goes (copy_write fd c (tt_io s)) s" using run by (simp add: copy_thread_def)
    have "one_turn tx fd k (at_thread s) (tt_io s) (copy_write fd c (tt_io s))" if "copy_ok tx (tt_io s) (at_thread s) k" for k
      using copy_write_turn that nm(5) A_write by simp
    then show ?thesis unfolding t using thread_turn_inv [OF inv] turn_rank(2) [OF inv] A_write by blast
  next
    case (A_close fd)
    with copy_thread_closes [OF inv _ run] show ?thesis by blast
  qed (use run in \<open>simp_all add: copy_thread_def\<close>)
qed

lemma copy_fails_step:
  assumes inv: "copy_inv tx s" and run: "copy_fails s = Some t"
  shows "copy_inv tx t \<and> copies_rank tx t < copies_rank tx s"
  using assms by (auto simp: copy_fails_def copy_inv_def copy_ok_def fd_of_def copies_rank_def copy_rank_def split: copy_at.splits)

definition copy_final :: "copy_at two_threads \<Rightarrow> bool" where
  "copy_final s \<longleftrightarrow> at_main s = A_ended \<or> at_main s = A_failed"

lemma copy_inv_init: "copy_inv tx (copy_init tx)"
  by (auto simp: copy_inv_def copy_init_def copy_ok_def fd_of_def io_start_def fd_slot_def)

lemma copies_rank_init: "copies_rank tx (copy_init tx) = 4 * length tx + 8"
  by (simp add: copies_rank_def copy_rank_def copy_init_def)

lemma copy_step:
  assumes "copy_inv tx s" "sched_step task_02_v2 s t"
  shows "copy_inv tx t \<and> copies_rank tx t < copies_rank tx s"
proof -
  obtain i where "both_threads copy_main copy_thread copy_fails i s = Some t"
    using assms(2) by (auto simp: task_02_v2_def)
  then show ?thesis
    by (rule both_threads_cases) (use assms(1) copy_main_step copy_thread_step copy_fails_step in blast)+
qed

lemma copy_enabled:
  assumes inv: "copy_inv tx s" and "\<not> copy_final s"
  shows "\<exists>t. sched_step task_02_v2 s t"
proof -
  have main: ?thesis if "copy_main s \<noteq> None"
    using that unfolding task_02_v2_def by (rule some_thread_moves)
  have thread: ?thesis if "copy_thread s \<noteq> None"
    using that unfolding task_02_v2_def by (rule some_thread_moves)
  show ?thesis
  proof (cases "\<exists>fd. at_main s = A_close fd \<and> at_thread s \<noteq> A_ended")
    case True
    then have "copy_thread s \<noteq> None"
      using inv by (auto simp: copy_inv_def copy_thread_def split: copy_at.splits prod.splits)
    then show ?thesis by (rule thread)
  next
    case False
    then have "copy_main s \<noteq> None"
      using inv assms(2) by (auto simp: copy_inv_def copy_main_def copy_final_def split: copy_at.splits prod.splits)
    then show ?thesis by (rule main)
  qed
qed

interpretation copying: terminating_system "copy_init tx" "sched_step task_02_v2" "copy_inv tx" copy_final "copies_rank tx"
  for tx
proof
  show "copy_inv tx (copy_init tx)" by (rule copy_inv_init)
  show "copy_inv tx t" if "copy_inv tx s" "sched_step task_02_v2 s t" for s t
    by (rule conjunct1 [OF copy_step [OF that]])
  show "\<exists>t. sched_step task_02_v2 s t" if "copy_inv tx s" "\<not> copy_final s" for s
    by (rule copy_enabled [OF that])
  show "copies_rank tx t < copies_rank tx s" if "copy_inv tx s" "sched_step task_02_v2 s t" for s t
    by (rule conjunct2 [OF copy_step [OF that]])
qed

lemma copy_result:
  assumes "copy_inv tx s" "at_main s = A_ended"
  shows "screen (tt_io s) \<in> shuffles tx tx"
proof -
  obtain n m where "copy_ok tx (tt_io s) (at_main s) n" "copy_ok tx (tt_io s) (at_thread s) m"
    "screen (tt_io s) \<in> shuffles (take n tx) (take m tx)"
    using copy_invE [OF assms(1)] .
  moreover have "at_thread s = A_ended" using assms by (simp add: copy_inv_def)
  ultimately show ?thesis using assms(2) by (simp add: copy_ok_def)
qed

end
