(* ===== verification/Scan_Threads.thy ===== *)
theory Scan_Threads
  imports File_Threads "HOL-Library.Sublist"
begin

text \<open>
  task_01_v2.c of sem_06/lab_08: \<open>main\<close> and a thread read one description through a buffered stream
  each. The two streams share the offset; what one has in its buffer the other one never sees.
\<close>

section \<open>The program\<close>

datatype scan_at =
  C_unborn | C_open | C_create stream | C_fdopen int | C_scan stream | C_print stream char | C_join stream |
  C_ended | C_failed | C_undefined

definition scan_line :: "bool \<Rightarrow> char \<Rightarrow> string" where
  "scan_line m c = ''thread '' @ (if m then ''1'' else ''2'') @ '' read: '' @ [c] @ nl"

text \<open>The loop \<open>while (flag == 1)\<close> of either: \<open>fscanf\<close>, and the line for the byte it has delivered.\<close>

definition scan_char :: "(stream \<Rightarrow> scan_at) \<Rightarrow> stream \<Rightarrow> io_state \<Rightarrow> scan_at \<times> io_state" where
  "scan_char after f io =
     (case fscanf_char f io of
        (None, g, io') \<Rightarrow> (after g, io')
      | (Some c, g, io') \<Rightarrow> (C_print g c, io'))"

definition print_char :: "bool \<Rightarrow> stream \<Rightarrow> char \<Rightarrow> io_state \<Rightarrow> scan_at \<times> io_state" where
  "print_char m f c io = (C_scan f, put_screen (scan_line m c) io)"

definition scan_main :: "nat \<Rightarrow> scan_at two_threads \<Rightarrow> scan_at two_threads option" where
  "scan_main b s =
     (case at_main s of
        C_open \<Rightarrow> (case sys_open (tt_io s) of (fd, io) \<Rightarrow>
          Some (main_goes (case fdopen fd b io of None \<Rightarrow> C_undefined | Some f \<Rightarrow> C_create f, io) s))
      | C_create f \<Rightarrow> Some (s\<lparr>at_main := C_scan f, at_thread := C_fdopen (st_fd f)\<rparr>)
      | C_scan f \<Rightarrow> Some (main_goes (scan_char C_join f (tt_io s)) s)
      | C_print f c \<Rightarrow> Some (main_goes (print_char True f c (tt_io s)) s)
      | C_join f \<Rightarrow>
          if at_thread s = C_ended then Some (main_goes (C_ended, sys_close (st_fd f) (tt_io s)) s) else None
      | _ \<Rightarrow> None)"

definition scan_thread :: "nat \<Rightarrow> scan_at two_threads \<Rightarrow> scan_at two_threads option" where
  "scan_thread b s =
     (case at_thread s of
        C_fdopen fd \<Rightarrow>
          Some (s\<lparr>at_thread := (case fdopen fd b (tt_io s) of None \<Rightarrow> C_undefined | Some f \<Rightarrow> C_scan f)\<rparr>)
      | C_scan f \<Rightarrow> Some (thread_goes (scan_char (\<lambda>g. C_ended) f (tt_io s)) s)
      | C_print f c \<Rightarrow> Some (thread_goes (print_char False f c (tt_io s)) s)
      | _ \<Rightarrow> None)"

definition scan_fails :: "scan_at two_threads \<Rightarrow> scan_at two_threads option" where
  "scan_fails s = (case at_main s of C_create f \<Rightarrow> Some (s\<lparr>at_main := C_failed\<rparr>) | _ \<Rightarrow> None)"

definition task_01_v2 :: "nat \<Rightarrow> nat \<Rightarrow> scan_at two_threads \<Rightarrow> scan_at two_threads option" where
  "task_01_v2 b = both_threads (scan_main b) (scan_thread b) scan_fails"

definition scan_init :: "string \<Rightarrow> scan_at two_threads" where
  "scan_init tx = \<lparr>at_main = C_open, at_thread = C_unborn, tt_io = io_start (Some tx)\<rparr>"

section \<open>The invariant\<close>

text \<open>A log of who has printed which byte, and the screen it stands for.\<close>

definition shown :: "(bool \<times> char) list \<Rightarrow> string" where
  "shown log = concat (map (\<lambda>(m, c). scan_line m c) log)"

definition bytes_of :: "bool \<Rightarrow> (bool \<times> char) list \<Rightarrow> string" where
  "bytes_of m log = map snd (filter (\<lambda>e. fst e = m) log)"

lemma length_shown: "length (shown log) = 17 * length log"
  by (induction log) (auto simp: shown_def scan_line_def nl_def)

lemma shown_snoc: "shown (log @ [(m, c)]) = shown log @ scan_line m c"
  by (simp add: shown_def)

lemma bytes_of_snoc: "bytes_of m (log @ [(m', c)]) = bytes_of m log @ (if m' = m then [c] else [])"
  by (simp add: bytes_of_def)

text \<open>What a thread holds: a byte not printed yet, and its buffer.\<close>

definition holds :: "scan_at \<Rightarrow> string" where
  "holds a = (case a of C_scan f \<Rightarrow> st_buf f | C_print f c \<Rightarrow> c # st_buf f | _ \<Rightarrow> [])"

definition scan_place :: "nat \<Rightarrow> int \<Rightarrow> scan_at \<Rightarrow> bool" where
  "scan_place b fd a \<longleftrightarrow>
     (case a of
        C_create f \<Rightarrow> st_fd f = fd \<and> st_size f = b \<and> st_buf f = []
      | C_scan f \<Rightarrow> st_fd f = fd \<and> st_size f = b
      | C_print f c \<Rightarrow> st_fd f = fd \<and> st_size f = b
      | C_join f \<Rightarrow> st_fd f = fd
      | C_fdopen d \<Rightarrow> d = fd
      | C_undefined \<Rightarrow> False
      | _ \<Rightarrow> True)"

definition scan_order :: "scan_at \<Rightarrow> scan_at \<Rightarrow> bool" where
  "scan_order m t \<longleftrightarrow>
     (case m of
        C_create f \<Rightarrow> t = C_unborn
      | C_scan f \<Rightarrow> t \<noteq> C_unborn | C_print f c \<Rightarrow> t \<noteq> C_unborn | C_join f \<Rightarrow> t \<noteq> C_unborn
      | C_ended \<Rightarrow> t = C_ended
      | C_failed \<Rightarrow> t = C_unborn
      | _ \<Rightarrow> False) \<and>
     (case t of C_unborn \<Rightarrow> True | C_fdopen fd \<Rightarrow> True | C_scan f \<Rightarrow> True | C_print f c \<Rightarrow> True | C_ended \<Rightarrow> True | _ \<Rightarrow> False)"

definition scan_done :: "scan_at \<Rightarrow> bool" where
  "scan_done a = (case a of C_join f \<Rightarrow> True | C_ended \<Rightarrow> True | _ \<Rightarrow> False)"

definition scan_ok :: "string \<Rightarrow> nat \<Rightarrow> int \<Rightarrow> nat \<Rightarrow> (bool \<times> char) list \<Rightarrow> scan_at two_threads \<Rightarrow> bool" where
  "scan_ok tx b fd off log s \<longleftrightarrow>
     scan_place b fd (at_main s) \<and> scan_place b fd (at_thread s) \<and> scan_order (at_main s) (at_thread s) \<and>
     (at_main s = C_ended \<or> reading (tt_io s) fd off tx) \<and> screen (tt_io s) = shown log \<and>
     (scan_done (at_main s) \<or> scan_done (at_thread s) \<longrightarrow> length tx \<le> off) \<and>
     mset (map snd log) + mset (holds (at_main s)) + mset (holds (at_thread s)) + mset (drop off tx) = mset tx \<and>
     subseq (bytes_of True log @ holds (at_main s)) (take off tx) \<and>
     subseq (bytes_of False log @ holds (at_thread s)) (take off tx)"

definition scan_inv :: "string \<Rightarrow> nat \<Rightarrow> scan_at two_threads \<Rightarrow> bool" where
  "scan_inv tx b s \<longleftrightarrow> s = scan_init tx \<or> (\<exists>fd off log. scan_ok tx b fd off log s)"

definition scan_weight :: "scan_at \<Rightarrow> nat" where
  "scan_weight a = (case a of C_unborn \<Rightarrow> 4 | C_open \<Rightarrow> 4 | C_create f \<Rightarrow> 3 | C_fdopen fd \<Rightarrow> 3 | C_scan f \<Rightarrow> 2
     | C_print f c \<Rightarrow> 1 | C_join f \<Rightarrow> 1 | _ \<Rightarrow> 0)"

definition scan_rank :: "string \<Rightarrow> scan_at two_threads \<Rightarrow> nat" where
  "scan_rank tx s = 2 * (length tx - length (screen (tt_io s)) div 17) +
     scan_weight (at_main s) + scan_weight (at_thread s)"

section \<open>One call of fscanf\<close>

lemma fscanf_char_reading:
  assumes "reading s (st_fd f) off tx"
  defines "q \<equiv> refill f off tx"
  obtains t off' where "fscanf_char f s = (if q = [] then None else Some (hd q), f\<lparr>st_buf := tl q\<rparr>, t)"
    "reading t (st_fd f) off' tx" "screen t = screen s"
    "st_buf f @ drop off tx = q @ drop off' tx"
    "take off' tx = take off tx @ (if st_buf f = [] then q else [])" "off \<le> off'"
    "q = [] \<longrightarrow> 0 < st_size f \<longrightarrow> length tx \<le> off'"
proof (cases "st_buf f")
  case (Cons c cs)
  then have q: "q = c # cs" by (simp add: q_def refill_def)
  show ?thesis
    by (rule that [of s off]) (use assms(1) Cons in \<open>simp_all add: fscanf_char_def q\<close>)
next
  case Nil
  then have q: "q = take (st_size f) (drop off tx)" by (simp add: q_def refill_def)
  have slot: "fd_slot (io_fds s) (st_fd f) = Some (Regular off)" and tx: "text_of s = tx"
    using assms(1) by (auto simp: reading_def)
  let ?t = "s\<lparr>io_fds := fd_update (st_fd f) (Regular (off + length q)) (io_fds s)\<rparr>"
  have rd: "sys_read (st_fd f) (st_size f) s = (int (length q), q, ?t)"
    by (simp add: sys_read_regular [OF slot] tx q Let_def)
  have "reading ?t (st_fd f) (off + length q) tx"
    using slot tx by (simp add: reading_def fd_slot_update text_of_def)
  moreover have "fscanf_char f s = (if q = [] then None else Some (hd q), f\<lparr>st_buf := tl q\<rparr>, ?t)"
    using Nil rd by (cases q) (simp_all add: fscanf_char_def)
  moreover have eq: "take (length q) (drop off tx) = q"
    using q by (metis append_eq_conv_conj append_take_drop_id)
  moreover have "drop off tx = q @ drop (off + length q) tx"
    using eq by (metis append_take_drop_id drop_drop add.commute)
  moreover have "take (off + length q) tx = take off tx @ q"
    by (simp add: take_add eq)
  moreover have "q = [] \<longrightarrow> 0 < st_size f \<longrightarrow> length tx \<le> off + length q" by (auto simp: q)
  ultimately show ?thesis using that [of ?t "off + length q"] Nil by simp
qed

lemma subseq_longer: "subseq xs ys \<Longrightarrow> subseq xs (ys @ zs)"
  using list_emb_append_mono [of "(=)" xs ys "[]" zs] by simp

text \<open>What a call leaves in the hands of the thread, of the other one, and in the file.\<close>

lemma scan_char_effect:
  assumes "reading io (st_fd f) off tx" "0 < st_size f" "scan_char after f io = (a, io')" "\<And>g. holds (after g) = []"
  obtains off' g where "reading io' (st_fd f) off' tx" "screen io' = screen io" "off \<le> off'"
    "st_fd g = st_fd f" "st_size g = st_size f"
    "(\<exists>c. a = C_print g c) \<or> a = after g \<and> length tx \<le> off' \<and> st_buf f = [] \<and> st_buf g = []"
    "mset (holds a) + mset (drop off' tx) = mset (st_buf f) + mset (drop off tx)"
    "\<And>xs. subseq (xs @ st_buf f) (take off tx) \<Longrightarrow> subseq (xs @ holds a) (take off' tx)"
    "\<And>xs. subseq xs (take off tx) \<Longrightarrow> subseq xs (take off' tx)"
proof -
  define q where "q = refill f off tx"
  obtain t off' where t: "fscanf_char f io = (if q = [] then None else Some (hd q), f\<lparr>st_buf := tl q\<rparr>, t)"
    "reading t (st_fd f) off' tx" "screen t = screen io" "st_buf f @ drop off tx = q @ drop off' tx"
    "take off' tx = take off tx @ (if st_buf f = [] then q else [])" "off \<le> off'" "q = [] \<longrightarrow> 0 < st_size f \<longrightarrow> length tx \<le> off'"
    using fscanf_char_reading [OF assms(1)] unfolding q_def by metis
  have bag: "mset q + mset (drop off' tx) = mset (st_buf f) + mset (drop off tx)"
    using arg_cong [OF t(4), of mset] by simp
  have other: "subseq xs (take off' tx)" if "subseq xs (take off tx)" for xs
    using subseq_longer [OF that] t(5) by simp
  have own: "subseq (xs @ q) (take off' tx)" if "subseq (xs @ st_buf f) (take off tx)" for xs
  proof (cases "st_buf f = []")
    case True
    then have "subseq xs (take off tx)" using that by simp
    then have "subseq (xs @ q) (take off tx @ q)" by (rule list_emb_append_mono) simp
    then show ?thesis using t(5) True by simp
  next
    case False
    then have "q = st_buf f" by (simp add: q_def refill_def)
    then show ?thesis using that t(5) False by simp
  qed
  let ?g = "f\<lparr>st_buf := tl q\<rparr>"
  show ?thesis
  proof (cases q)
    case Nil
    then have a: "a = after ?g" "io' = t" using assms(3) t(1) by (simp_all add: scan_char_def)
    have buf: "st_buf f = []" "length tx \<le> off'" using Nil assms(2) t(7) by (auto simp: q_def refill_def split: if_splits)
    have h: "holds a = []" using a assms(4) by simp
    show ?thesis
      by (intro that [of off' ?g]) (use t a h buf Nil other own bag in auto)
  next
    case (Cons c cs)
    then have a: "a = C_print ?g c" "io' = t" using assms(3) t(1) by (simp_all add: scan_char_def)
    have h: "holds a = q" using a Cons by (simp add: holds_def)
    show ?thesis
      by (intro that [of off' ?g]) (use t a h other own bag in auto)
  qed
qed

section \<open>Steps\<close>

lemma scan_okD:
  assumes "scan_ok tx b fd off log s"
  shows "scan_place b fd (at_main s)" "scan_place b fd (at_thread s)" "scan_order (at_main s) (at_thread s)"
    "at_main s = C_ended \<or> reading (tt_io s) fd off tx" "screen (tt_io s) = shown log"
    "scan_done (at_main s) \<or> scan_done (at_thread s) \<Longrightarrow> length tx \<le> off"
    "mset (map snd log) + mset (holds (at_main s)) + mset (holds (at_thread s)) + mset (drop off tx) = mset tx"
    "subseq (bytes_of True log @ holds (at_main s)) (take off tx)"
    "subseq (bytes_of False log @ holds (at_thread s)) (take off tx)"
  using assms by (simp_all add: scan_ok_def)

text \<open>A byte that a thread still holds has not been printed.\<close>

lemma unprinted:
  assumes "scan_ok tx b fd off log s"
  shows "length log + length (holds (at_main s)) + length (holds (at_thread s)) \<le> length tx"
  using arg_cong [OF scan_okD(7) [OF assms], of size] by simp

lemma scan_rank_screen: "screen (tt_io s) = shown log \<Longrightarrow>
    scan_rank tx s = 2 * (length tx - length log) + scan_weight (at_main s) + scan_weight (at_thread s)"
  by (simp add: scan_rank_def length_shown)

lemma bag_moves:
  fixes a b c d :: "'a multiset"
  assumes "b' + d' = b + d"
  shows "a + b + c + d = x \<Longrightarrow> a + b' + c + d' = x" "a + c + b + d = x \<Longrightarrow> a + c + b' + d' = x"
proof -
  have "a + b' + c + d' = a + c + (b' + d')" "a + b + c + d = a + c + (b + d)" by (simp_all add: ac_simps)
  with assms show "a + b + c + d = x \<Longrightarrow> a + b' + c + d' = x" by simp
  have "a + c + b' + d' = a + c + (b' + d')" "a + c + b + d = a + c + (b + d)" by (simp_all add: ac_simps)
  with assms show "a + c + b + d = x \<Longrightarrow> a + c + b' + d' = x" by simp
qed

lemma scan_main_scan:
  assumes ok: "scan_ok tx b fd off log s" and b: "0 < b" and a: "at_main s = C_scan f"
    and t: "t = main_goes (scan_char C_join f (tt_io s)) s"
  shows "scan_inv tx b t \<and> scan_rank tx t < scan_rank tx s"
proof -
  note D = scan_okD [OF ok]
  have f: "st_fd f = fd" "st_size f = b" using D(1) a by (simp_all add: scan_place_def)
  have rd: "reading (tt_io s) (st_fd f) off tx" using D(4) a f by simp
  obtain a' io' where p: "scan_char C_join f (tt_io s) = (a', io')" by fastforce
  have size: "0 < st_size f" using b f by simp
  obtain off' g where e: "reading io' (st_fd f) off' tx" "screen io' = screen (tt_io s)" "off \<le> off'"
    "st_fd g = st_fd f" "st_size g = st_size f"
    "(\<exists>c. a' = C_print g c) \<or> a' = C_join g \<and> length tx \<le> off' \<and> st_buf f = [] \<and> st_buf g = []"
    "mset (holds a') + mset (drop off' tx) = mset (st_buf f) + mset (drop off tx)"
    "\<And>xs. subseq (xs @ st_buf f) (take off tx) \<Longrightarrow> subseq (xs @ holds a') (take off' tx)"
    "\<And>xs. subseq xs (take off tx) \<Longrightarrow> subseq xs (take off' tx)"
    by (rule scan_char_effect [OF rd size p]) (auto simp: holds_def)
  have t: "t = main_goes (a', io') s" using t p by simp
  have h: "holds (at_main s) = st_buf f" by (simp add: a holds_def)
  have "scan_place b fd a'" using e(4-6) f by (auto simp: scan_place_def)
  moreover have "scan_order a' (at_thread s)" using D(3) a e(6) by (auto simp: scan_order_def)
  moreover have "scan_done a' \<or> scan_done (at_thread s) \<longrightarrow> length tx \<le> off'"
    using D(6) e(3,6) by (auto simp: scan_done_def)
  moreover have "mset (map snd log) + mset (holds a') + mset (holds (at_thread s)) + mset (drop off' tx) = mset tx"
    using D(7) unfolding h by (rule bag_moves(1) [OF e(7)])
  moreover have "subseq (bytes_of True log @ holds a') (take off' tx)" using D(8) e(8) h by simp
  moreover have "subseq (bytes_of False log @ holds (at_thread s)) (take off' tx)" using D(9) e(9) by simp
  ultimately have "scan_ok tx b fd off' log t"
    using D(2,5) e(1,2) f by (simp add: scan_ok_def t main_goes_def)
  moreover have "scan_rank tx t < scan_rank tx s"
    using e(2,6) a by (auto simp: t main_goes_def scan_rank_def scan_weight_def)
  ultimately show ?thesis by (auto simp: scan_inv_def)
qed

lemma scan_thread_scan:
  assumes ok: "scan_ok tx b fd off log s" and b: "0 < b" and a: "at_thread s = C_scan f"
    and t: "t = thread_goes (scan_char (\<lambda>g. C_ended) f (tt_io s)) s"
  shows "scan_inv tx b t \<and> scan_rank tx t < scan_rank tx s"
proof -
  note D = scan_okD [OF ok]
  have f: "st_fd f = fd" "st_size f = b" using D(2) a by (simp_all add: scan_place_def)
  have main: "at_main s \<noteq> C_ended" using D(3) a by (auto simp: scan_order_def)
  then have rd: "reading (tt_io s) (st_fd f) off tx" using D(4) f by simp
  obtain a' io' where p: "scan_char (\<lambda>g. C_ended) f (tt_io s) = (a', io')" by fastforce
  have size: "0 < st_size f" using b f by simp
  obtain off' g where e: "reading io' (st_fd f) off' tx" "screen io' = screen (tt_io s)" "off \<le> off'"
    "st_fd g = st_fd f" "st_size g = st_size f"
    "(\<exists>c. a' = C_print g c) \<or> a' = C_ended \<and> length tx \<le> off' \<and> st_buf f = [] \<and> st_buf g = []"
    "mset (holds a') + mset (drop off' tx) = mset (st_buf f) + mset (drop off tx)"
    "\<And>xs. subseq (xs @ st_buf f) (take off tx) \<Longrightarrow> subseq (xs @ holds a') (take off' tx)"
    "\<And>xs. subseq xs (take off tx) \<Longrightarrow> subseq xs (take off' tx)"
    by (rule scan_char_effect [OF rd size p]) (auto simp: holds_def)
  have t: "t = thread_goes (a', io') s" using t p by simp
  have h: "holds (at_thread s) = st_buf f" by (simp add: a holds_def)
  have "scan_place b fd a'" using e(4-6) f by (auto simp: scan_place_def)
  moreover have "scan_order (at_main s) a'" using D(3) a e(6) by (auto simp: scan_order_def split: scan_at.splits)
  moreover have "scan_done (at_main s) \<or> scan_done a' \<longrightarrow> length tx \<le> off'"
    using D(6) e(3,6) by (auto simp: scan_done_def)
  moreover have "mset (map snd log) + mset (holds (at_main s)) + mset (holds a') + mset (drop off' tx) = mset tx"
    using D(7) unfolding h by (rule bag_moves(2) [OF e(7)])
  moreover have "subseq (bytes_of True log @ holds (at_main s)) (take off' tx)" using D(8) e(9) by simp
  moreover have "subseq (bytes_of False log @ holds a') (take off' tx)" using D(9) e(8) h by simp
  ultimately have "scan_ok tx b fd off' log t"
    using D(1,5) e(1,2) f by (simp add: scan_ok_def t thread_goes_def)
  moreover have "scan_rank tx t < scan_rank tx s"
    using e(2,6) a by (auto simp: t thread_goes_def scan_rank_def scan_weight_def)
  ultimately show ?thesis by (auto simp: scan_inv_def)
qed

text \<open>A line printed: the byte goes from the hands of the thread to the log.\<close>

lemma scan_main_print:
  assumes ok: "scan_ok tx b fd off log s" and a: "at_main s = C_print f c"
    and t: "t = main_goes (print_char True f c (tt_io s)) s"
  shows "scan_inv tx b t \<and> scan_rank tx t < scan_rank tx s"
proof -
  note D = scan_okD [OF ok]
  let ?log = "log @ [(True, c)]"
  have place: "scan_place b fd (C_scan f)" "scan_order (C_scan f) (at_thread s)" "scan_done (at_thread s) \<longrightarrow> length tx \<le> off"
    using D(1,3,6) a by (auto simp: scan_place_def scan_order_def)
  have "mset (map snd ?log) + mset (st_buf f) + mset (holds (at_thread s)) + mset (drop off tx) = mset tx"
    using D(7) a by (simp add: holds_def)
  then have "scan_ok tx b fd off ?log t"
    using D a place
    by (simp add: scan_ok_def t main_goes_def print_char_def holds_def bytes_of_snoc shown_snoc io_simps reading_def scan_done_def)
  moreover have "scan_rank tx t < scan_rank tx s"
    using unprinted [OF ok] a D(5) scan_rank_screen [of t ?log tx] scan_rank_screen [OF D(5), of tx]
    by (simp add: t main_goes_def print_char_def shown_snoc io_simps scan_weight_def holds_def)
  ultimately show ?thesis by (auto simp: scan_inv_def)
qed

lemma scan_thread_print:
  assumes ok: "scan_ok tx b fd off log s" and a: "at_thread s = C_print f c"
    and t: "t = thread_goes (print_char False f c (tt_io s)) s"
  shows "scan_inv tx b t \<and> scan_rank tx t < scan_rank tx s"
proof -
  note D = scan_okD [OF ok]
  let ?log = "log @ [(False, c)]"
  have place: "scan_place b fd (C_scan f)" "scan_order (at_main s) (C_scan f)" "scan_done (at_main s) \<longrightarrow> length tx \<le> off"
    "at_main s \<noteq> C_ended"
    using D(2,3,6) a by (auto simp: scan_place_def scan_order_def split: scan_at.splits)
  have "mset (map snd ?log) + mset (holds (at_main s)) + mset (st_buf f) + mset (drop off tx) = mset tx"
    using D(7) a by (simp add: holds_def)
  then have "scan_ok tx b fd off ?log t"
    using D a place
    by (simp add: scan_ok_def t thread_goes_def print_char_def bytes_of_snoc shown_snoc io_simps reading_def
        holds_def [of "C_scan f"] holds_def [of "C_print f c"] scan_done_def [of "C_scan f"])
  moreover have "scan_rank tx t < scan_rank tx s"
    using unprinted [OF ok] a D(5) scan_rank_screen [of t ?log tx] scan_rank_screen [OF D(5), of tx]
    by (simp add: t thread_goes_def print_char_def shown_snoc io_simps scan_weight_def holds_def [of "C_print f c"])
  ultimately show ?thesis by (auto simp: scan_inv_def)
qed

lemma scan_start:
  assumes "scan_main b (scan_init tx) = Some t"
  shows "scan_inv tx b t \<and> scan_rank tx t < scan_rank tx (scan_init tx)"
proof -
  obtain fd io where o: "sys_open (io_start (Some tx)) = (fd, io)" by fastforce
  have start: "file_text (io_start (Some tx)) = Some tx" "screen (io_start (Some tx)) = []" by (simp_all add: io_start_def)
  note so = sys_open_reading [OF o start(1)]
  have t: "t = \<lparr>at_main = C_create \<lparr>st_fd = fd, st_size = b, st_buf = []\<rparr>, at_thread = C_unborn, tt_io = io\<rparr>"
    using assms o so(1) by (simp add: scan_main_def scan_init_def main_goes_def fdopen_def)
  have "scan_ok tx b fd 0 [] t"
    using so start by (simp add: t scan_ok_def scan_place_def scan_order_def scan_done_def holds_def bytes_of_def
        shown_def reading_def text_of_def)
  moreover have "scan_rank tx t < scan_rank tx (scan_init tx)"
    using so(4) start by (simp add: t scan_rank_def scan_init_def scan_weight_def)
  ultimately show ?thesis by (auto simp: scan_inv_def)
qed

lemma scan_main_step:
  assumes inv: "scan_inv tx b s" and b: "0 < b" and run: "scan_main b s = Some t"
  shows "scan_inv tx b t \<and> scan_rank tx t < scan_rank tx s"
proof (cases "s = scan_init tx")
  case True
  then show ?thesis using scan_start run by blast
next
  case False
  then obtain fd off log where ok: "scan_ok tx b fd off log s" using inv by (auto simp: scan_inv_def)
  note D = scan_okD [OF ok]
  show ?thesis
  proof (cases "at_main s")
    case (C_create f)
    then have t: "t = s\<lparr>at_main := C_scan f, at_thread := C_fdopen (st_fd f)\<rparr>" using run by (simp add: scan_main_def)
    have "at_thread s = C_unborn" using D(3) C_create by (simp add: scan_order_def)
    then have "scan_ok tx b fd off log t" "scan_rank tx t < scan_rank tx s"
      using D C_create by (auto simp: t scan_ok_def scan_place_def scan_order_def scan_done_def holds_def scan_rank_def scan_weight_def)
    then show ?thesis by (auto simp: scan_inv_def)
  next
    case (C_scan f)
    then show ?thesis using scan_main_scan [OF ok b C_scan] run by (simp add: scan_main_def)
  next
    case (C_print f c)
    then show ?thesis using scan_main_print [OF ok C_print] run by (simp add: scan_main_def)
  next
    case (C_join f)
    then have e: "at_thread s = C_ended" "t = main_goes (C_ended, sys_close (st_fd f) (tt_io s)) s"
      using run by (simp_all add: scan_main_def split: if_splits)
    then have "scan_ok tx b fd off log t" "scan_rank tx t < scan_rank tx s"
      using D C_join by (auto simp: scan_ok_def main_goes_def scan_place_def scan_order_def scan_done_def holds_def
          scan_rank_def scan_weight_def sys_close_slots)
    then show ?thesis by (auto simp: scan_inv_def)
  qed (use run D(3) in \<open>simp_all add: scan_main_def scan_order_def\<close>)
qed

lemma scan_thread_step:
  assumes inv: "scan_inv tx b s" and b: "0 < b" and run: "scan_thread b s = Some t"
  shows "scan_inv tx b t \<and> scan_rank tx t < scan_rank tx s"
proof -
  have "s \<noteq> scan_init tx" using run by (auto simp: scan_thread_def scan_init_def)
  then obtain fd off log where ok: "scan_ok tx b fd off log s" using inv by (auto simp: scan_inv_def)
  note D = scan_okD [OF ok]
  show ?thesis
  proof (cases "at_thread s")
    case (C_fdopen d)
    have main: "at_main s \<noteq> C_ended" "d = fd" using D(2,3) C_fdopen by (auto simp: scan_order_def scan_place_def)
    then have "fdopen d b (tt_io s) = Some \<lparr>st_fd = fd, st_size = b, st_buf = []\<rparr>"
      using D(4) by (simp add: fdopen_def reading_def)
    then have t: "t = s\<lparr>at_thread := C_scan \<lparr>st_fd = fd, st_size = b, st_buf = []\<rparr>\<rparr>"
      using run C_fdopen by (simp add: scan_thread_def)
    have "scan_order (at_main s) (C_scan \<lparr>st_fd = fd, st_size = b, st_buf = []\<rparr>)"
      using D(3) C_fdopen by (auto simp: scan_order_def split: scan_at.splits)
    then have "scan_ok tx b fd off log t" "scan_rank tx t < scan_rank tx s"
      using D C_fdopen main
      by (simp_all add: t scan_ok_def scan_place_def [of _ _ "C_scan _"] scan_done_def [of "C_scan _"] scan_done_def [of "C_fdopen _"]
          holds_def [of "C_scan _"] holds_def [of "C_fdopen _"] scan_rank_def scan_weight_def [of "C_scan _"] scan_weight_def [of "C_fdopen _"])
    then show ?thesis by (auto simp: scan_inv_def)
  next
    case (C_scan f)
    then show ?thesis using scan_thread_scan [OF ok b C_scan] run by (simp add: scan_thread_def)
  next
    case (C_print f c)
    then show ?thesis using scan_thread_print [OF ok C_print] run by (simp add: scan_thread_def)
  qed (use run in \<open>simp_all add: scan_thread_def\<close>)
qed

section \<open>All runs\<close>

lemma scan_fails_step:
  assumes "scan_inv tx b s" "scan_fails s = Some t"
  shows "scan_inv tx b t \<and> scan_rank tx t < scan_rank tx s"
proof -
  obtain f where f: "at_main s = C_create f" "t = s\<lparr>at_main := C_failed\<rparr>"
    using assms(2) by (auto simp: scan_fails_def split: scan_at.splits)
  then obtain fd off log where ok: "scan_ok tx b fd off log s"
    using assms(1) by (auto simp: scan_inv_def scan_init_def)
  then have "scan_ok tx b fd off log t" "scan_rank tx t < scan_rank tx s"
    using scan_okD [OF ok] f
    by (auto simp: scan_ok_def scan_place_def scan_order_def scan_done_def holds_def scan_rank_def scan_weight_def)
  then show ?thesis by (auto simp: scan_inv_def)
qed

lemma scan_step:
  assumes "scan_inv tx b s" "0 < b" "sched_step (task_01_v2 b) s t"
  shows "scan_inv tx b t \<and> scan_rank tx t < scan_rank tx s"
proof -
  obtain i where "both_threads (scan_main b) (scan_thread b) scan_fails i s = Some t"
    using assms(3) by (auto simp: task_01_v2_def)
  then show ?thesis
    by (rule both_threads_cases) (use assms(1,2) scan_main_step scan_thread_step scan_fails_step in blast)+
qed

definition scan_final :: "scan_at two_threads \<Rightarrow> bool" where
  "scan_final s \<longleftrightarrow> at_main s = C_ended \<or> at_main s = C_failed"

lemma scan_enabled:
  assumes inv: "scan_inv tx b s" and "\<not> scan_final s"
  shows "\<exists>t. sched_step (task_01_v2 b) s t"
proof (cases "\<exists>f. at_main s = C_join f \<and> at_thread s \<noteq> C_ended")
  case True
  then obtain fd off log where "scan_ok tx b fd off log s" using inv by (auto simp: scan_inv_def scan_init_def)
  note D = scan_okD [OF this]
  have "scan_thread b s \<noteq> None"
    using D(3) True by (auto simp: scan_order_def scan_thread_def split: scan_at.splits)
  then show ?thesis unfolding task_01_v2_def by (rule some_thread_moves)
next
  case False
  have "scan_main b s \<noteq> None"
  proof (cases "s = scan_init tx")
    case True
    then show ?thesis by (simp add: scan_main_def scan_init_def split: prod.splits)
  next
    case init: False
    then obtain fd off log where "scan_ok tx b fd off log s" using inv by (auto simp: scan_inv_def)
    note D = scan_okD [OF this]
    show ?thesis using D(3) False assms(2) by (auto simp: scan_order_def scan_main_def scan_final_def split: scan_at.splits)
  qed
  then show ?thesis unfolding task_01_v2_def by (rule some_thread_moves)
qed

text \<open>Buffers have at least one byte.\<close>

interpretation scanning: terminating_system "scan_init tx" "sched_step (task_01_v2 (Suc b))" "scan_inv tx (Suc b)" scan_final "scan_rank tx"
  for tx b
proof
  show "scan_inv tx (Suc b) (scan_init tx)" by (simp add: scan_inv_def)
  show "scan_inv tx (Suc b) t" if "scan_inv tx (Suc b) s" "sched_step (task_01_v2 (Suc b)) s t" for s t
    by (rule conjunct1 [OF scan_step [OF that(1) _ that(2)]]) simp
  show "\<exists>t. sched_step (task_01_v2 (Suc b)) s t" if "scan_inv tx (Suc b) s" "\<not> scan_final s" for s
    by (rule scan_enabled [OF that])
  show "scan_rank tx t < scan_rank tx s" if "scan_inv tx (Suc b) s" "sched_step (task_01_v2 (Suc b)) s t" for s t
    by (rule conjunct2 [OF scan_step [OF that(1) _ that(2)]]) simp
qed

lemma scan_rank_init: "scan_rank tx (scan_init tx) = 2 * length tx + 8"
  by (simp add: scan_rank_def scan_init_def scan_weight_def io_start_def)

lemma scan_result:
  assumes "scan_inv tx b s" "at_main s = C_ended"
  shows "\<exists>log. screen (tt_io s) = shown log \<and> mset (map snd log) = mset tx \<and>
    subseq (bytes_of True log) tx \<and> subseq (bytes_of False log) tx"
proof -
  obtain fd off log where ok: "scan_ok tx b fd off log s" using assms by (auto simp: scan_inv_def scan_init_def)
  note D = scan_okD [OF ok]
  have "at_thread s = C_ended" using D(3) assms(2) by (simp add: scan_order_def)
  then show ?thesis using D(5-9) assms(2) by (intro exI [of _ log]) (simp add: holds_def scan_done_def)
qed

end
