(* ===== verification/Write_Race.thy ===== *)
theory Write_Race
  imports File_Threads
begin

text \<open>
  task_02_v4.c of sem_06/lab_08: \<open>main\<close> and a thread write the letters with an odd and with an even
  code through a description each, and \<open>main\<close> does not wait for the thread: its return ends the process.
\<close>

section \<open>The program\<close>

datatype put_at = B_unborn | B_open | B_create int | B_put int nat | B_ended | B_failed

text \<open>The letter \<open>k\<close> of the loop that starts at \<open>c\<close>; the loop ends behind the letter z.\<close>

definition put_letter :: "nat \<Rightarrow> int \<Rightarrow> nat \<Rightarrow> io_state \<Rightarrow> put_at \<times> io_state" where
  "put_letter c fd k io =
     (if c + 2 * k \<le> 122 then (B_put fd (k + 1), snd (sys_write fd [char_of (c + 2 * k)] io))
      else (B_ended, sys_close fd io))"

definition put_main :: "put_at two_threads \<Rightarrow> put_at two_threads option" where
  "put_main s =
     (case at_main s of
        B_open \<Rightarrow> (case sys_open (tt_io s) of (fd, io) \<Rightarrow> Some (main_goes (B_create fd, io) s))
      | B_create fd \<Rightarrow> Some (s\<lparr>at_main := B_put fd 0, at_thread := B_open\<rparr>)
      | B_put fd k \<Rightarrow> Some (main_goes (put_letter 97 fd k (tt_io s)) s)
      | _ \<Rightarrow> None)"

definition put_thread :: "put_at two_threads \<Rightarrow> put_at two_threads option" where
  "put_thread s =
     (if at_main s = B_ended then None
      else case at_thread s of
        B_open \<Rightarrow> (case sys_open (tt_io s) of (fd, io) \<Rightarrow> Some (thread_goes (B_put fd 0, io) s))
      | B_put fd k \<Rightarrow> Some (thread_goes (put_letter 98 fd k (tt_io s)) s)
      | _ \<Rightarrow> None)"

definition put_fails :: "put_at two_threads \<Rightarrow> put_at two_threads option" where
  "put_fails s = (case at_main s of B_create fd \<Rightarrow> Some (s\<lparr>at_main := B_failed\<rparr>) | _ \<Rightarrow> None)"

definition task_02_v4 :: "nat \<Rightarrow> put_at two_threads \<Rightarrow> put_at two_threads option" where
  "task_02_v4 = both_threads put_main put_thread put_fails"

definition put_init :: "string \<Rightarrow> put_at two_threads" where
  "put_init old = \<lparr>at_main = B_open, at_thread = B_unborn, tt_io = io_start (Some old)\<rparr>"

section \<open>The file after some letters of each\<close>

definition odd_letter :: "nat \<Rightarrow> char" where
  "odd_letter k = char_of (97 + 2 * k)"

definition even_letter :: "nat \<Rightarrow> char" where
  "even_letter k = char_of (98 + 2 * k)"

definition byte_ok :: "nat \<Rightarrow> nat \<Rightarrow> string \<Rightarrow> nat \<Rightarrow> char \<Rightarrow> bool" where
  "byte_ok n m old k c \<longleftrightarrow>
     k < n \<and> c = odd_letter k \<or> k < m \<and> c = even_letter k \<or> n \<le> k \<and> m \<le> k \<and> c = old ! k"

definition race_text :: "nat \<Rightarrow> nat \<Rightarrow> string \<Rightarrow> string \<Rightarrow> bool" where
  "race_text n m old tx \<longleftrightarrow> length tx = max (length old) (max n m) \<and> (\<forall>k<length tx. byte_ok n m old k (tx ! k))"

lemma overwrite_byte:
  "n \<le> length tx \<Longrightarrow> overwrite n [c] tx = (if n < length tx then tx[n := c] else tx @ [c])"
  by (auto simp: overwrite_def upd_conv_take_nth_drop)

lemma nth_overwrite:
  "n \<le> length tx \<Longrightarrow> length (overwrite n [c] tx) = max (length tx) (Suc n)"
  "n \<le> length tx \<Longrightarrow> k < max (length tx) (Suc n) \<Longrightarrow> overwrite n [c] tx ! k = (if k = n then c else tx ! k)"
  by (auto simp: overwrite_byte nth_append nth_list_update)

lemma byte_ok_next:
  "byte_ok n m old k c \<Longrightarrow> k \<noteq> n \<Longrightarrow> byte_ok (Suc n) m old k c"
  "byte_ok n m old k c \<Longrightarrow> k \<noteq> m \<Longrightarrow> byte_ok n (Suc m) old k c"
  "byte_ok (Suc n) m old n (odd_letter n)"
  "byte_ok n (Suc m) old m (even_letter m)"
  by (auto simp: byte_ok_def)

lemma race_text_main:
  assumes "race_text n m old tx"
  shows "race_text (Suc n) m old (overwrite n [odd_letter n] tx)"
proof -
  have n: "n \<le> length tx" using assms by (simp add: race_text_def)
  have "byte_ok (Suc n) m old k (overwrite n [odd_letter n] tx ! k)" if "k < max (length tx) (Suc n)" for k
    using that assms by (cases "k = n") (auto simp: nth_overwrite [OF n] race_text_def byte_ok_next)
  then show ?thesis using assms by (auto simp: race_text_def nth_overwrite [OF n])
qed

lemma race_text_thread:
  assumes "race_text n m old tx"
  shows "race_text n (Suc m) old (overwrite m [even_letter m] tx)"
proof -
  have m: "m \<le> length tx" using assms by (simp add: race_text_def)
  have "byte_ok n (Suc m) old k (overwrite m [even_letter m] tx ! k)" if "k < max (length tx) (Suc m)" for k
    using that assms by (cases "k = m") (auto simp: nth_overwrite [OF m] race_text_def byte_ok_next)
  then show ?thesis using assms by (auto simp: race_text_def nth_overwrite [OF m])
qed

section \<open>The invariant\<close>

definition put_ok :: "io_state \<Rightarrow> put_at \<Rightarrow> nat \<Rightarrow> bool" where
  "put_ok io a n \<longleftrightarrow>
     (case a of
        B_create fd \<Rightarrow> n = 0 \<and> fd_slot (io_fds io) fd = Some (Regular 0)
      | B_put fd k \<Rightarrow> n = k \<and> k \<le> 13 \<and> fd_slot (io_fds io) fd = Some (Regular k)
      | B_ended \<Rightarrow> n = 13
      | _ \<Rightarrow> n = 0)"

definition put_fd :: "put_at \<Rightarrow> int option" where
  "put_fd a = (case a of B_create fd \<Rightarrow> Some fd | B_put fd k \<Rightarrow> Some fd | _ \<Rightarrow> None)"

definition put_places :: "put_at \<Rightarrow> put_at \<Rightarrow> bool" where
  "put_places a b \<longleftrightarrow> (put_fd a \<noteq> None \<longrightarrow> put_fd a \<noteq> put_fd b) \<and> a \<noteq> B_unborn \<and>
     (if a \<in> {B_open, B_failed} \<or> (\<exists>fd. a = B_create fd) then b = B_unborn
      else b \<noteq> B_unborn \<and> b \<noteq> B_failed \<and> (\<forall>fd. b \<noteq> B_create fd))"

definition put_inv :: "string \<Rightarrow> put_at two_threads \<Rightarrow> bool" where
  "put_inv old s \<longleftrightarrow> put_places (at_main s) (at_thread s) \<and>
     (\<exists>n m tx. put_ok (tt_io s) (at_main s) n \<and> put_ok (tt_io s) (at_thread s) m \<and>
        file_text (tt_io s) = Some tx \<and> race_text n m old tx)"

fun put_rank_at :: "put_at \<Rightarrow> nat" where
  "put_rank_at B_unborn = 16"
| "put_rank_at B_open = 16"
| "put_rank_at (B_create fd) = 15"
| "put_rank_at (B_put fd k) = 14 - k"
| "put_rank_at _ = 0"

definition put_rank :: "put_at two_threads \<Rightarrow> nat" where
  "put_rank s = put_rank_at (at_main s) + put_rank_at (at_thread s)"

lemma put_ok_other:
  assumes "put_ok io a n" "put_fd a \<noteq> Some fd" "\<And>j. j \<noteq> fd \<Longrightarrow> fd_slot (io_fds io') j = fd_slot (io_fds io) j"
  shows "put_ok io' a n"
  using assms by (auto simp: put_ok_def put_fd_def split: put_at.splits)

text \<open>A letter of a thread whose description is at that letter.\<close>

lemma put_letter_effect:
  assumes "fd_slot (io_fds io) fd = Some (Regular k)" "file_text io = Some tx" "k \<le> 13" "c \<in> {97, 98}"
    and "put_letter c fd k io = (a, io')"
  shows "\<And>j. j \<noteq> fd \<Longrightarrow> fd_slot (io_fds io') j = fd_slot (io_fds io) j"
    and "k < 13 \<Longrightarrow> a = B_put fd (Suc k) \<and> put_ok io' a (Suc k) \<and>
      file_text io' = Some (overwrite k [char_of (c + 2 * k)] tx)"
    and "\<not> k < 13 \<Longrightarrow> a = B_ended \<and> put_ok io' a k \<and> file_text io' = Some tx"
  using assms by (auto simp: put_letter_def put_ok_def sys_write_regular text_of_def sys_close_slots split: if_splits)

lemma put_main_step:
  assumes inv: "put_inv old s" and run: "put_main s = Some t"
  shows "put_inv old t \<and> put_rank t < put_rank s"
proof -
  obtain n m tx where nm: "put_ok (tt_io s) (at_main s) n" "put_ok (tt_io s) (at_thread s) m"
    "file_text (tt_io s) = Some tx" "race_text n m old tx" and places: "put_places (at_main s) (at_thread s)"
    using inv by (auto simp: put_inv_def)
  show ?thesis
  proof (cases "at_main s")
    case B_open
    obtain fd io where o: "sys_open (tt_io s) = (fd, io)" by fastforce
    note so = sys_open_reading [OF o nm(3)]
    have t: "t = main_goes (B_create fd, io) s" using run B_open o by (simp add: put_main_def)
    have "at_thread s = B_unborn" using places B_open by (simp add: put_places_def)
    then show ?thesis
      using nm so B_open by (auto simp: t main_goes_def put_inv_def put_places_def put_ok_def put_fd_def put_rank_def)
  next
    case (B_create fd)
    then have t: "t = s\<lparr>at_main := B_put fd 0, at_thread := B_open\<rparr>" using run by (simp add: put_main_def)
    have "at_thread s = B_unborn" using places B_create by (simp add: put_places_def)
    then show ?thesis
      using nm B_create by (auto simp: t put_inv_def put_places_def put_ok_def put_fd_def put_rank_def)
  next
    case (B_put fd k)
    obtain a io where p: "put_letter 97 fd k (tt_io s) = (a, io)" by fastforce
    have t: "t = main_goes (a, io) s" using run B_put p by (simp add: put_main_def)
    have k: "n = k" "k \<le> 13" "fd_slot (io_fds (tt_io s)) fd = Some (Regular k)" using nm(1) B_put by (simp_all add: put_ok_def)
    note e = put_letter_effect [OF k(3) nm(3) k(2) _ p]
    have other: "put_fd (at_thread s) \<noteq> Some fd" using places B_put by (auto simp: put_places_def put_fd_def)
    have keep: "put_ok io (at_thread s) m" by (rule put_ok_other [OF nm(2) other]) (use e(1) in auto)
    show ?thesis
    proof (cases "k < 13")
      case True
      then have "race_text (Suc k) m old (overwrite k [odd_letter k] tx)" using race_text_main nm(4) k(1) by simp
      then have "put_inv old t"
        using e(2) True keep places B_put
        by (auto simp: t main_goes_def put_inv_def put_places_def put_fd_def odd_letter_def intro!: exI)
      then show ?thesis using e(2) True B_put by (simp add: t main_goes_def put_rank_def)
    next
      case False
      then have "put_inv old t"
        using e(3) keep places B_put nm(4) k(1)
        by (auto simp: t main_goes_def put_inv_def put_places_def put_fd_def)
      then show ?thesis using e(3) False B_put k(2) by (simp add: t main_goes_def put_rank_def)
    qed
  qed (use run in \<open>simp_all add: put_main_def\<close>)
qed

lemma put_thread_step:
  assumes inv: "put_inv old s" and run: "put_thread s = Some t"
  shows "put_inv old t \<and> put_rank t < put_rank s"
proof -
  obtain n m tx where nm: "put_ok (tt_io s) (at_main s) n" "put_ok (tt_io s) (at_thread s) m"
    "file_text (tt_io s) = Some tx" "race_text n m old tx" and places: "put_places (at_main s) (at_thread s)"
    using inv by (auto simp: put_inv_def)
  show ?thesis
  proof (cases "at_thread s")
    case B_open
    obtain fd io where o: "sys_open (tt_io s) = (fd, io)" by fastforce
    note so = sys_open_reading [OF o nm(3)]
    have t: "t = thread_goes (B_put fd 0, io) s" using run B_open o by (simp add: put_thread_def split: if_splits)
    have other: "put_fd (at_main s) \<noteq> Some fd"
      using nm(1) so(2) by (auto simp: put_ok_def put_fd_def split: put_at.splits)
    have "put_ok io (at_main s) n" by (rule put_ok_other [OF nm(1) other]) (use so(1) in auto)
    moreover have "put_ok io (B_put fd 0) m" using nm(2) so(1) B_open by (simp add: put_ok_def)
    moreover have "put_places (at_main s) (B_put fd 0)"
      using places other B_open by (auto simp: put_places_def put_fd_def)
    ultimately show ?thesis
      using nm(4) so(3) B_open by (auto simp: t thread_goes_def put_inv_def put_rank_def)
  next
    case (B_put fd k)
    obtain a io where p: "put_letter 98 fd k (tt_io s) = (a, io)" by fastforce
    have t: "t = thread_goes (a, io) s" using run B_put p by (simp add: put_thread_def split: if_splits)
    have k: "m = k" "k \<le> 13" "fd_slot (io_fds (tt_io s)) fd = Some (Regular k)" using nm(2) B_put by (simp_all add: put_ok_def)
    note e = put_letter_effect [OF k(3) nm(3) k(2) _ p]
    have other: "put_fd (at_main s) \<noteq> Some fd" using places B_put by (auto simp: put_places_def put_fd_def)
    have keep: "put_ok io (at_main s) n" by (rule put_ok_other [OF nm(1) other]) (use e(1) in auto)
    show ?thesis
    proof (cases "k < 13")
      case True
      then have "race_text n (Suc k) old (overwrite k [even_letter k] tx)" using race_text_thread nm(4) k(1) by simp
      moreover have "put_places (at_main s) (B_put fd (Suc k))" using places B_put by (auto simp: put_places_def put_fd_def)
      ultimately have "put_inv old t"
        using e(2) True keep by (auto simp: t thread_goes_def put_inv_def even_letter_def intro!: exI)
      then show ?thesis using e(2) True B_put by (simp add: t thread_goes_def put_rank_def)
    next
      case False
      have "put_places (at_main s) B_ended" using places B_put by (auto simp: put_places_def put_fd_def)
      then have "put_inv old t"
        using e(3) False keep nm(4) k(1) by (auto simp: t thread_goes_def put_inv_def)
      then show ?thesis using e(3) False B_put k(2) by (simp add: t thread_goes_def put_rank_def)
    qed
  qed (use run in \<open>simp_all add: put_thread_def split: if_splits\<close>)
qed

lemma put_step:
  assumes "put_inv old s" "sched_step task_02_v4 s t"
  shows "put_inv old t \<and> put_rank t < put_rank s"
proof -
  have fails: "put_inv old t \<and> put_rank t < put_rank s" if "put_fails s = Some t"
    using that assms(1)
    by (auto simp: put_fails_def put_inv_def put_places_def put_ok_def put_fd_def put_rank_def split: put_at.splits)
  obtain i where "both_threads put_main put_thread put_fails i s = Some t"
    using assms(2) by (auto simp: task_02_v4_def)
  then show ?thesis
    by (rule both_threads_cases) (use assms(1) put_main_step put_thread_step fails in blast)+
qed

definition put_final :: "put_at two_threads \<Rightarrow> bool" where
  "put_final s \<longleftrightarrow> at_main s = B_ended \<or> at_main s = B_failed"

lemma put_inv_init: "put_inv old (put_init old)"
  by (auto simp: put_inv_def put_init_def put_places_def put_ok_def put_fd_def race_text_def byte_ok_def io_start_def)

interpretation putting: terminating_system "put_init old" "sched_step task_02_v4" "put_inv old" put_final put_rank
  for old
proof
  show "put_inv old (put_init old)" by (rule put_inv_init)
  show "put_inv old t" if "put_inv old s" "sched_step task_02_v4 s t" for s t
    by (rule conjunct1 [OF put_step [OF that]])
  show "\<exists>t. sched_step task_02_v4 s t" if "put_inv old s" "\<not> put_final s" for s
  proof -
    have "put_main s \<noteq> None"
      using that by (auto simp: put_inv_def put_places_def put_main_def put_final_def split: put_at.splits prod.splits)
    then show ?thesis unfolding task_02_v4_def by (rule some_thread_moves)
  qed
  show "put_rank t < put_rank s" if "put_inv old s" "sched_step task_02_v4 s t" for s t
    by (rule conjunct2 [OF put_step [OF that]])
qed

section \<open>Every outcome\<close>

text \<open>One letter of \<open>main\<close>, and one of the thread.\<close>

lemma main_writes:
  assumes "at_main s = B_put fd k" "k < 13" "fd_slot (io_fds (tt_io s)) fd = Some (Regular k)" "file_text (tt_io s) = Some tx"
  obtains t where "sched_step task_02_v4 s t" "at_main t = B_put fd (Suc k)" "at_thread t = at_thread s"
    "fd_slot (io_fds (tt_io t)) fd = Some (Regular (Suc k))"
    "\<And>j. j \<noteq> fd \<Longrightarrow> fd_slot (io_fds (tt_io t)) j = fd_slot (io_fds (tt_io s)) j"
    "file_text (tt_io t) = Some (overwrite k [odd_letter k] tx)"
proof -
  obtain a io where p: "put_letter 97 fd k (tt_io s) = (a, io)" by fastforce
  have "k \<le> 13" using assms(2) by simp
  note e = put_letter_effect [OF assms(3,4) this _ p]
  have "put_main s = Some (main_goes (a, io) s)" using assms(1) p by (simp add: put_main_def)
  then have "sched_step task_02_v4 s (main_goes (a, io) s)"
    by (intro sched [where i = 0]) (simp add: task_02_v4_def both_threads_def)
  then show ?thesis
    by (rule that) (use e(1,2) assms(2) in \<open>auto simp: main_goes_def put_ok_def odd_letter_def\<close>)
qed

lemma thread_writes:
  assumes "at_thread s = B_put fd k" "k < 13" "fd_slot (io_fds (tt_io s)) fd = Some (Regular k)" "file_text (tt_io s) = Some tx"
    and "at_main s \<noteq> B_ended"
  obtains t where "sched_step task_02_v4 s t" "at_thread t = B_put fd (Suc k)" "at_main t = at_main s"
    "fd_slot (io_fds (tt_io t)) fd = Some (Regular (Suc k))"
    "\<And>j. j \<noteq> fd \<Longrightarrow> fd_slot (io_fds (tt_io t)) j = fd_slot (io_fds (tt_io s)) j"
    "file_text (tt_io t) = Some (overwrite k [even_letter k] tx)"
proof -
  obtain a io where p: "put_letter 98 fd k (tt_io s) = (a, io)" by fastforce
  have "k \<le> 13" using assms(2) by simp
  note e = put_letter_effect [OF assms(3,4) this _ p]
  have "put_thread s = Some (thread_goes (a, io) s)" using assms(1,5) p by (simp add: put_thread_def)
  then have "sched_step task_02_v4 s (thread_goes (a, io) s)"
    by (intro sched [where i = 1]) (simp add: task_02_v4_def both_threads_def)
  then show ?thesis
    by (rule that) (use e(1,2) assms(2) in \<open>auto simp: thread_goes_def put_ok_def even_letter_def\<close>)
qed

text \<open>Both threads have written \<open>k\<close> letters, and the file holds the ones chosen.\<close>

definition both_at :: "int \<Rightarrow> int \<Rightarrow> nat \<Rightarrow> string \<Rightarrow> put_at two_threads \<Rightarrow> bool" where
  "both_at fd1 fd2 k tx s \<longleftrightarrow> at_main s = B_put fd1 k \<and> at_thread s = B_put fd2 k \<and> fd1 \<noteq> fd2 \<and>
     fd_slot (io_fds (tt_io s)) fd1 = Some (Regular k) \<and> fd_slot (io_fds (tt_io s)) fd2 = Some (Regular k) \<and>
     file_text (tt_io s) = Some tx"

lemma overwrite_twice: "overwrite k [b] (overwrite k [a] tx) = overwrite k [b] tx" if "k \<le> length tx"
  using that by (auto simp: overwrite_byte)

lemma both_write:
  assumes "both_at fd1 fd2 k tx s" "k < 13" "c \<in> {odd_letter k, even_letter k}" "k \<le> length tx"
  shows "\<exists>t. (sched_step task_02_v4)\<^sup>*\<^sup>* s t \<and> both_at fd1 fd2 (Suc k) (overwrite k [c] tx) t"
proof (cases "c = even_letter k")
  case True
  have s: "at_main s = B_put fd1 k" "fd_slot (io_fds (tt_io s)) fd1 = Some (Regular k)" "file_text (tt_io s) = Some tx"
    using assms(1) by (simp_all add: both_at_def)
  obtain t where t: "sched_step task_02_v4 s t" "at_main t = B_put fd1 (Suc k)" "at_thread t = at_thread s"
    "fd_slot (io_fds (tt_io t)) fd1 = Some (Regular (Suc k))"
    "\<And>j. j \<noteq> fd1 \<Longrightarrow> fd_slot (io_fds (tt_io t)) j = fd_slot (io_fds (tt_io s)) j"
    "file_text (tt_io t) = Some (overwrite k [odd_letter k] tx)"
    using main_writes [OF s(1) assms(2) s(2,3)] by metis
  have t2: "at_thread t = B_put fd2 k" "fd_slot (io_fds (tt_io t)) fd2 = Some (Regular k)" "at_main t \<noteq> B_ended"
    using t assms(1) by (simp_all add: both_at_def)
  obtain u where u: "sched_step task_02_v4 t u" "at_thread u = B_put fd2 (Suc k)" "at_main u = at_main t"
    "fd_slot (io_fds (tt_io u)) fd2 = Some (Regular (Suc k))"
    "\<And>j. j \<noteq> fd2 \<Longrightarrow> fd_slot (io_fds (tt_io u)) j = fd_slot (io_fds (tt_io t)) j"
    "file_text (tt_io u) = Some (overwrite k [even_letter k] (overwrite k [odd_letter k] tx))"
    using thread_writes [OF t2(1) assms(2) t2(2) t(6) t2(3)] by metis
  have "both_at fd1 fd2 (Suc k) (overwrite k [c] tx) u"
    using u t assms(1,4) True by (simp add: both_at_def overwrite_twice)
  moreover have "(sched_step task_02_v4)\<^sup>*\<^sup>* s u"
    using t(1) u(1) by (meson r_into_rtranclp rtranclp_trans)
  ultimately show ?thesis by blast
next
  case False
  have s: "at_thread s = B_put fd2 k" "fd_slot (io_fds (tt_io s)) fd2 = Some (Regular k)" "file_text (tt_io s) = Some tx"
    "at_main s \<noteq> B_ended"
    using assms(1) by (simp_all add: both_at_def)
  obtain t where t: "sched_step task_02_v4 s t" "at_thread t = B_put fd2 (Suc k)" "at_main t = at_main s"
    "fd_slot (io_fds (tt_io t)) fd2 = Some (Regular (Suc k))"
    "\<And>j. j \<noteq> fd2 \<Longrightarrow> fd_slot (io_fds (tt_io t)) j = fd_slot (io_fds (tt_io s)) j"
    "file_text (tt_io t) = Some (overwrite k [even_letter k] tx)"
    using thread_writes [OF s(1) assms(2) s(2,3,4)] by metis
  have t2: "at_main t = B_put fd1 k" "fd_slot (io_fds (tt_io t)) fd1 = Some (Regular k)"
    using t assms(1) by (simp_all add: both_at_def)
  obtain u where u: "sched_step task_02_v4 t u" "at_main u = B_put fd1 (Suc k)" "at_thread u = at_thread t"
    "fd_slot (io_fds (tt_io u)) fd1 = Some (Regular (Suc k))"
    "\<And>j. j \<noteq> fd1 \<Longrightarrow> fd_slot (io_fds (tt_io u)) j = fd_slot (io_fds (tt_io t)) j"
    "file_text (tt_io u) = Some (overwrite k [odd_letter k] (overwrite k [even_letter k] tx))"
    using main_writes [OF t2(1) assms(2) t2(2) t(6)] by metis
  have "both_at fd1 fd2 (Suc k) (overwrite k [c] tx) u"
    using u t assms False by (simp add: both_at_def overwrite_twice)
  moreover have "(sched_step task_02_v4)\<^sup>*\<^sup>* s u"
    using t(1) u(1) by (meson r_into_rtranclp rtranclp_trans)
  ultimately show ?thesis by blast
qed

text \<open>The state once the thread has opened the file, and every choice of the letters after it.\<close>

lemma both_start: "\<exists>fd1 fd2 s. (sched_step task_02_v4)\<^sup>*\<^sup>* (put_init old) s \<and> both_at fd1 fd2 0 old s"
proof -
  obtain fd1 io1 where 1: "sys_open (io_start (Some old)) = (fd1, io1)" by fastforce
  have start: "file_text (io_start (Some old)) = Some old" by (simp add: io_start_def)
  note o1 = sys_open_reading [OF 1 start]
  obtain fd2 io2 where 2: "sys_open io1 = (fd2, io2)" by fastforce
  note o2 = sys_open_reading [OF 2 o1(3)]
  have run: "run_schedule task_02_v4 [0, 0, 1] (put_init old) =
      Some \<lparr>at_main = B_put fd1 0, at_thread = B_put fd2 0, tt_io = io2\<rparr>"
    by (simp add: task_02_v4_def both_threads_def put_main_def put_thread_def put_init_def 1 2 main_goes_def thread_goes_def)
  moreover have "fd1 \<noteq> fd2" using o1(1) [of fd1] o2(2) by auto
  then have "both_at fd1 fd2 0 old \<lparr>at_main = B_put fd1 0, at_thread = B_put fd2 0, tt_io = io2\<rparr>"
    using o1 o2 by (simp add: both_at_def)
  ultimately show ?thesis using run_schedule_reaches [OF run] by blast
qed

lemma chosen_text:
  assumes "k \<le> 13" "\<forall>i<13. c i \<in> {odd_letter i, even_letter i}"
  shows "\<exists>fd1 fd2 s. (sched_step task_02_v4)\<^sup>*\<^sup>* (put_init old) s \<and> both_at fd1 fd2 k (map c [0..<k] @ drop k old) s"
  using assms(1)
proof (induction k)
  case 0
  then show ?case using both_start [of old] by simp
next
  case (Suc k)
  then obtain fd1 fd2 s where s: "(sched_step task_02_v4)\<^sup>*\<^sup>* (put_init old) s"
    "both_at fd1 fd2 k (map c [0..<k] @ drop k old) s" by auto
  have "k < 13" "c k \<in> {odd_letter k, even_letter k}" using Suc.prems assms(2) by auto
  from both_write [OF s(2) this] obtain t where t: "(sched_step task_02_v4)\<^sup>*\<^sup>* s t"
    "both_at fd1 fd2 (Suc k) (overwrite k [c k] (map c [0..<k] @ drop k old)) t" by auto
  have "overwrite k [c k] (map c [0..<k] @ drop k old) = map c [0..<Suc k] @ drop (Suc k) old"
    using overwrite_next [of "map c [0..<k]" "c k" "drop k old"] by simp
  with s(1) t show ?case by (metis rtranclp_trans)
qed

definition race_results :: "string \<Rightarrow> string set" where
  "race_results old =
     {tx. \<exists>s. (sched_step task_02_v4)\<^sup>*\<^sup>* (put_init old) s \<and> at_main s = B_ended \<and> file_text (tt_io s) = Some tx}"

lemma chosen_result:
  assumes "\<forall>i<13. c i \<in> {odd_letter i, even_letter i}"
  shows "map c [0..<13] @ drop 13 old \<in> race_results old"
proof -
  obtain fd1 fd2 s where s: "(sched_step task_02_v4)\<^sup>*\<^sup>* (put_init old) s"
    "both_at fd1 fd2 13 (map c [0..<13] @ drop 13 old) s"
    using chosen_text [OF _ assms, of 13 old] by auto
  then have "put_main s = Some (main_goes (B_ended, sys_close fd1 (tt_io s)) s)"
    by (simp add: both_at_def put_main_def put_letter_def)
  then have "sched_step task_02_v4 s (main_goes (B_ended, sys_close fd1 (tt_io s)) s)"
    by (intro sched [where i = 0]) (simp add: task_02_v4_def both_threads_def)
  with s(1) have "(sched_step task_02_v4)\<^sup>*\<^sup>* (put_init old) (main_goes (B_ended, sys_close fd1 (tt_io s)) s)"
    by (rule rtranclp.rtrancl_into_rtrancl)
  then show ?thesis
    using s(2) unfolding race_results_def
    by (intro CollectI exI conjI) (auto simp: main_goes_def both_at_def sys_close_slots)
qed

lemma result_letters:
  assumes "tx \<in> race_results old"
  shows "length tx = max (length old) 13" "\<And>k. k < 13 \<Longrightarrow> tx ! k \<in> {odd_letter k, even_letter k}" "drop 13 tx = drop 13 old"
proof -
  obtain s where s: "(sched_step task_02_v4)\<^sup>*\<^sup>* (put_init old) s" "at_main s = B_ended" "file_text (tt_io s) = Some tx"
    using assms by (auto simp: race_results_def)
  then obtain m where m: "put_ok (tt_io s) (at_thread s) m" "race_text 13 m old tx"
    using putting.reachable_inv [OF s(1)] by (auto simp: put_inv_def put_ok_def)
  have "m \<le> 13" using m(1) by (auto simp: put_ok_def split: put_at.splits)
  with m(2) have r: "length tx = max (length old) 13" "\<And>k. k < length tx \<Longrightarrow> byte_ok 13 m old k (tx ! k)"
    by (simp_all add: race_text_def max_def)
  show "length tx = max (length old) 13" by (rule r(1))
  show "tx ! k \<in> {odd_letter k, even_letter k}" if "k < 13" for k
    using r(2) [of k] r(1) that by (auto simp: byte_ok_def)
  show "drop 13 tx = drop 13 old"
  proof (rule nth_equalityI)
    show "length (drop 13 tx) = length (drop 13 old)" using r(1) by simp
    show "drop 13 tx ! k = drop 13 old ! k" if "k < length (drop 13 tx)" for k
    proof -
      have "13 + k < length tx" using that by simp
      from r(2) [OF this] \<open>m \<le> 13\<close> have "tx ! (13 + k) = old ! (13 + k)" by (auto simp: byte_ok_def)
      then show ?thesis using that r(1) by (simp add: max_def split: if_splits)
    qed
  qed
qed

end
