(* ===== verification/Print_Threads.thy ===== *)
theory Print_Threads
  imports File_Threads
begin

text \<open>
  task_03_v2.c of sem_06/lab_08: \<open>main\<close> and a thread print the letters with an odd and with an even
  code to a buffered stream each, both opened with mode w on q.txt. The result of \<open>pthread_create\<close> is
  not looked at; after a failure \<open>pthread_join\<close> gets an uninitialised identifier.
\<close>

section \<open>The program\<close>

datatype print_at =
  D_unborn | D_first | D_open | D_opened stream | D_create stream | D_put stream nat | D_filled stream |
  D_closing stream | D_closed | D_ended | D_undefined

text \<open>A step of the loop over the letters from \<open>c\<close> on.\<close>

definition print_letter :: "nat \<Rightarrow> stream \<Rightarrow> nat \<Rightarrow> io_state \<Rightarrow> print_at \<times> io_state" where
  "print_letter c f k io =
     (if c + 2 * k \<le> 122 then (case fprintf_char (char_of (c + 2 * k)) f io of (g, io') \<Rightarrow> (D_put g (k + 1), io'))
      else (D_filled f, io))"

definition print_main :: "nat \<Rightarrow> nat \<Rightarrow> print_at two_threads \<Rightarrow> print_at two_threads option" where
  "print_main b ino s =
     (case at_main s of
        D_first \<Rightarrow> Some (main_goes (D_open, print_file_info ino (''Before first open'' @ nl) (tt_io s)) s)
      | D_open \<Rightarrow> (case fopen_w b (tt_io s) of (f, io) \<Rightarrow> Some (main_goes (D_opened f, io) s))
      | D_opened f \<Rightarrow> Some (main_goes (D_create f, print_file_info ino (''After first open'' @ nl) (tt_io s)) s)
      | D_create f \<Rightarrow> Some (s\<lparr>at_main := D_put f 0, at_thread := D_open\<rparr>)
      | D_put f k \<Rightarrow> Some (main_goes (print_letter 97 f k (tt_io s)) s)
      | D_filled f \<Rightarrow>
          if at_thread s = D_ended then Some (main_goes (D_closed, fclose f (tt_io s)) s)
          else if at_thread s = D_unborn then Some (s\<lparr>at_main := D_undefined\<rparr>)
          else None
      | D_closed \<Rightarrow> Some (main_goes (D_ended, print_file_info ino (''After second close'' @ nl) (tt_io s)) s)
      | _ \<Rightarrow> None)"

definition print_thread :: "nat \<Rightarrow> nat \<Rightarrow> print_at two_threads \<Rightarrow> print_at two_threads option" where
  "print_thread b ino s =
     (case at_thread s of
        D_open \<Rightarrow> (case fopen_w b (tt_io s) of (f, io) \<Rightarrow> Some (thread_goes (D_opened f, io) s))
      | D_opened f \<Rightarrow> Some (thread_goes (D_put f 0, print_file_info ino (''After second open'' @ nl) (tt_io s)) s)
      | D_put f k \<Rightarrow> Some (thread_goes (print_letter 98 f k (tt_io s)) s)
      | D_filled f \<Rightarrow> Some (thread_goes (D_closing f, print_file_info ino (''Before first close'' @ nl) (tt_io s)) s)
      | D_closing f \<Rightarrow> Some (thread_goes (D_closed, fclose f (tt_io s)) s)
      | D_closed \<Rightarrow> Some (thread_goes (D_ended, print_file_info ino (''After first close'' @ nl) (tt_io s)) s)
      | _ \<Rightarrow> None)"

definition print_fails :: "print_at two_threads \<Rightarrow> print_at two_threads option" where
  "print_fails s = (case at_main s of D_create f \<Rightarrow> Some (s\<lparr>at_main := D_put f 0\<rparr>) | _ \<Rightarrow> None)"

definition task_03_v2 :: "nat \<Rightarrow> nat \<Rightarrow> nat \<Rightarrow> print_at two_threads \<Rightarrow> print_at two_threads option" where
  "task_03_v2 b ino = both_threads (print_main b ino) (print_thread b ino) print_fails"

definition print_init :: "string option \<Rightarrow> print_at two_threads" where
  "print_init old = \<lparr>at_main = D_first, at_thread = D_unborn, tt_io = io_start old\<rparr>"

section \<open>The invariant\<close>

text \<open>The file while the threads are at given places, when the buffers hold all 13 letters.\<close>

definition file_at :: "string option \<Rightarrow> print_at \<Rightarrow> print_at \<Rightarrow> string option" where
  "file_at old m t =
     (if m \<in> {D_first, D_open} then old
      else if m \<in> {D_closed, D_ended} then Some (odd_letters 13)
      else if t \<in> {D_closed, D_ended} then Some (even_letters 13)
      else Some [])"

text \<open>What the two have reported.\<close>

definition report :: "nat \<Rightarrow> string \<Rightarrow> string option \<Rightarrow> string" where
  "report ino m f = file_info ino (m @ nl) f"

definition main_shown :: "nat \<Rightarrow> string option \<Rightarrow> print_at \<Rightarrow> string" where
  "main_shown ino old m =
     (case m of
        D_first \<Rightarrow> []
      | D_open \<Rightarrow> report ino ''Before first open'' old
      | D_opened f \<Rightarrow> report ino ''Before first open'' old
      | _ \<Rightarrow> report ino ''Before first open'' old @ report ino ''After first open'' (Some []))"

definition thread_shown :: "nat \<Rightarrow> print_at \<Rightarrow> string" where
  "thread_shown ino t =
     (case t of
        D_put f k \<Rightarrow> report ino ''After second open'' (Some [])
      | D_filled f \<Rightarrow> report ino ''After second open'' (Some [])
      | D_closing f \<Rightarrow> report ino ''After second open'' (Some []) @ report ino ''Before first close'' (Some [])
      | D_closed \<Rightarrow> report ino ''After second open'' (Some []) @ report ino ''Before first close'' (Some [])
      | D_ended \<Rightarrow> report ino ''After second open'' (Some []) @ report ino ''Before first close'' (Some []) @
          report ino ''After first close'' (Some (even_letters 13))
      | _ \<Rightarrow> [])"

definition end_shown :: "nat \<Rightarrow> print_at \<Rightarrow> string" where
  "end_shown ino m = (if m = D_ended then report ino ''After second close'' (Some (odd_letters 13)) else [])"

text \<open>The stream of a thread at its place: its description is at the start of the file.\<close>

definition stream_ok :: "nat \<Rightarrow> (nat \<Rightarrow> string) \<Rightarrow> io_state \<Rightarrow> print_at \<Rightarrow> bool" where
  "stream_ok b letters io a \<longleftrightarrow>
     (let at_start = (\<lambda>f n. st_size f = b \<and> st_buf f = letters n \<and> fd_slot (io_fds io) (st_fd f) = Some (Regular 0)) in
      case a of
        D_opened f \<Rightarrow> at_start f 0
      | D_create f \<Rightarrow> at_start f 0
      | D_put f k \<Rightarrow> k \<le> 13 \<and> at_start f k
      | D_filled f \<Rightarrow> at_start f 13
      | D_closing f \<Rightarrow> at_start f 13
      | _ \<Rightarrow> True)"

definition print_fd :: "print_at \<Rightarrow> int option" where
  "print_fd a = (case a of D_opened f \<Rightarrow> Some (st_fd f) | D_create f \<Rightarrow> Some (st_fd f) | D_put f k \<Rightarrow> Some (st_fd f)
     | D_filled f \<Rightarrow> Some (st_fd f) | D_closing f \<Rightarrow> Some (st_fd f) | _ \<Rightarrow> None)"

definition print_places :: "print_at \<Rightarrow> print_at \<Rightarrow> bool" where
  "print_places m t \<longleftrightarrow>
     (case m of
        D_first \<Rightarrow> t = D_unborn | D_open \<Rightarrow> t = D_unborn | D_opened f \<Rightarrow> t = D_unborn | D_create f \<Rightarrow> t = D_unborn
      | D_put f k \<Rightarrow> True | D_filled f \<Rightarrow> True | D_closed \<Rightarrow> t = D_ended | D_ended \<Rightarrow> t = D_ended
      | D_undefined \<Rightarrow> t = D_unborn | _ \<Rightarrow> False) \<and>
     t \<notin> {D_first, D_undefined} \<and> (\<forall>f. t \<noteq> D_create f) \<and> (print_fd m \<noteq> None \<longrightarrow> print_fd m \<noteq> print_fd t)"

definition print_inv :: "nat \<Rightarrow> nat \<Rightarrow> string option \<Rightarrow> print_at two_threads \<Rightarrow> bool" where
  "print_inv b ino old s \<longleftrightarrow>
     print_places (at_main s) (at_thread s) \<and>
     stream_ok b odd_letters (tt_io s) (at_main s) \<and> stream_ok b even_letters (tt_io s) (at_thread s) \<and>
     file_text (tt_io s) = file_at old (at_main s) (at_thread s) \<and>
     screen (tt_io s) = main_shown ino old (at_main s) @ thread_shown ino (at_thread s) @ end_shown ino (at_main s)"

fun print_weight :: "print_at \<Rightarrow> nat" where
  "print_weight D_unborn = 21"
| "print_weight D_first = 21"
| "print_weight D_open = 20"
| "print_weight (D_opened f) = 19"
| "print_weight (D_create f) = 18"
| "print_weight (D_put f k) = 17 - k"
| "print_weight (D_filled f) = 3"
| "print_weight (D_closing f) = 2"
| "print_weight D_closed = 1"
| "print_weight _ = 0"

definition print_rank :: "print_at two_threads \<Rightarrow> nat" where
  "print_rank s = print_weight (at_main s) + print_weight (at_thread s)"

lemma stream_ok_other:
  assumes "stream_ok b letters io a" "print_fd a \<noteq> Some fd" "\<And>j. j \<noteq> fd \<Longrightarrow> fd_slot (io_fds io') j = fd_slot (io_fds io) j"
  shows "stream_ok b letters io' a"
  using assms by (auto simp: stream_ok_def print_fd_def Let_def split: print_at.splits)

lemma stream_ok_info [simp]: "stream_ok b letters (print_file_info ino m io) a = stream_ok b letters io a"
  by (simp add: stream_ok_def io_simps Let_def split: print_at.splits)

text \<open>A letter stays in the buffer.\<close>

lemma print_letter_buffers:
  assumes "13 \<le> b" "stream_ok b letters io (D_put f k)"
    and "(c = 97 \<and> letters = odd_letters) \<or> (c = 98 \<and> letters = even_letters)"
  shows "\<exists>a. print_letter c f k io = (a, io) \<and> stream_ok b letters io a \<and> print_fd a = Some (st_fd f) \<and>
    print_weight a < print_weight (D_put f k) \<and> (if k < 13 then a = D_put (f\<lparr>st_buf := letters (Suc k)\<rparr>) (Suc k) else a = D_filled f)"
proof -
  have f: "st_size f = b" "st_buf f = letters k" "fd_slot (io_fds io) (st_fd f) = Some (Regular 0)" "k \<le> 13"
    using assms(2) by (simp_all add: stream_ok_def Let_def)
  show ?thesis
  proof (cases "k < 13")
    case True
    then have "fprintf_char (char_of (c + 2 * k)) f io = (f\<lparr>st_buf := letters (Suc k)\<rparr>, io)"
      using assms(1,3) f by (auto simp: fprintf_char_def letters_Suc)
    then show ?thesis using True assms(3) f by (auto simp: print_letter_def stream_ok_def print_fd_def Let_def)
  next
    case False
    then show ?thesis using assms(3) f by (auto simp: print_letter_def stream_ok_def print_fd_def Let_def)
  qed
qed

section \<open>Steps\<close>

lemma print_invD:
  assumes "print_inv b ino old s"
  shows "print_places (at_main s) (at_thread s)"
    "stream_ok b odd_letters (tt_io s) (at_main s)" "stream_ok b even_letters (tt_io s) (at_thread s)"
    "file_text (tt_io s) = file_at old (at_main s) (at_thread s)"
    "screen (tt_io s) = main_shown ino old (at_main s) @ thread_shown ino (at_thread s) @ end_shown ino (at_main s)"
  using assms by (simp_all add: print_inv_def)

lemmas print_at_simps = print_places_def print_fd_def file_at_def main_shown_def thread_shown_def end_shown_def
  report_def io_simps

text \<open>A thread that puts a letter in its buffer shows nothing and leaves the file alone.\<close>

lemma main_letter:
  assumes inv: "print_inv b ino old s" and b: "13 \<le> b" and a: "at_main s = D_put f k"
    and t: "t = main_goes (print_letter 97 f k (tt_io s)) s"
  shows "print_inv b ino old t \<and> print_rank t < print_rank s"
proof -
  note D = print_invD [OF inv]
  have put: "stream_ok b odd_letters (tt_io s) (D_put f k)" using D(2) a by simp
  obtain a' where p: "print_letter 97 f k (tt_io s) = (a', tt_io s)" "stream_ok b odd_letters (tt_io s) a'"
    "print_fd a' = Some (st_fd f)" "print_weight a' < print_weight (D_put f k)"
    "if k < 13 then a' = D_put (f\<lparr>st_buf := odd_letters (Suc k)\<rparr>) (Suc k) else a' = D_filled f"
    using print_letter_buffers [OF b put, of 97] by auto
  have t: "t = s\<lparr>at_main := a'\<rparr>" using t p(1) by (simp add: main_goes_def)
  have "print_places a' (at_thread s)" "file_at old a' (at_thread s) = file_at old (at_main s) (at_thread s)"
    "main_shown ino old a' = main_shown ino old (at_main s)" "end_shown ino a' = end_shown ino (at_main s)"
    using D(1) a p(3,5) by (auto simp: print_at_simps split: if_splits)
  then show ?thesis using D p(2,4) a by (simp add: print_inv_def print_rank_def t)
qed

lemma thread_letter:
  assumes inv: "print_inv b ino old s" and b: "13 \<le> b" and a: "at_thread s = D_put f k"
    and t: "t = thread_goes (print_letter 98 f k (tt_io s)) s"
  shows "print_inv b ino old t \<and> print_rank t < print_rank s"
proof -
  note D = print_invD [OF inv]
  have put: "stream_ok b even_letters (tt_io s) (D_put f k)" using D(3) a by simp
  obtain a' where p: "print_letter 98 f k (tt_io s) = (a', tt_io s)" "stream_ok b even_letters (tt_io s) a'"
    "print_fd a' = Some (st_fd f)" "print_weight a' < print_weight (D_put f k)"
    "if k < 13 then a' = D_put (f\<lparr>st_buf := even_letters (Suc k)\<rparr>) (Suc k) else a' = D_filled f"
    using print_letter_buffers [OF b put, of 98] by auto
  have t: "t = s\<lparr>at_thread := a'\<rparr>" using t p(1) by (simp add: thread_goes_def)
  have fd: "print_fd (at_thread s) = print_fd a'" using a p(3) by (simp add: print_fd_def)
  have "print_places (at_main s) a'"
    using D(1) a p(5) unfolding print_places_def fd by (auto split: print_at.splits if_splits)
  moreover have "file_at old (at_main s) a' = file_at old (at_main s) (at_thread s)"
    "thread_shown ino a' = thread_shown ino (at_thread s)"
    using a p(5) by (auto simp: file_at_def thread_shown_def split: if_splits)
  ultimately show ?thesis using D p(2,4) a by (simp add: print_inv_def print_rank_def t)
qed

text \<open>\<open>fopen\<close> takes a free descriptor, so no stream that is open loses its own.\<close>

lemma stream_ok_open:
  "stream_ok b letters io a \<Longrightarrow> print_fd a = Some fd \<Longrightarrow> fd_slot (io_fds io) fd \<noteq> None"
  by (auto simp: stream_ok_def print_fd_def Let_def split: print_at.splits)

lemma fopen_w_stream:
  assumes "fopen_w b io = (f, io')" "stream_ok b letters io a"
  shows "stream_ok b letters io' a" "print_fd a \<noteq> Some (st_fd f)"
proof -
  note o = fopen_w_slot [OF assms(1)]
  show ne: "print_fd a \<noteq> Some (st_fd f)" using stream_ok_open [OF assms(2)] o(6) by auto
  show "stream_ok b letters io' a" by (rule stream_ok_other [OF assms(2) ne]) (simp add: o(5))
qed

lemma main_opens:
  assumes inv: "print_inv b ino old s" and a: "at_main s = D_open"
    and f: "fopen_w b (tt_io s) = (f, io')" and t: "t = main_goes (D_opened f, io') s"
  shows "print_inv b ino old t \<and> print_rank t < print_rank s"
proof -
  note D = print_invD [OF inv]
  note o = fopen_w_slot [OF f]
  have "at_thread s = D_unborn" using D(1) a by (simp add: print_places_def)
  moreover have "stream_ok b odd_letters io' (D_opened f)" using o by (simp add: stream_ok_def)
  ultimately show ?thesis
    using D(5) o a by (simp add: t print_inv_def main_goes_def print_at_simps print_rank_def stream_ok_def [of _ _ _ D_unborn])
qed

lemma thread_opens:
  assumes inv: "print_inv b ino old s" and a: "at_thread s = D_open"
    and f: "fopen_w b (tt_io s) = (f, io')" and t: "t = thread_goes (D_opened f, io') s"
  shows "print_inv b ino old t \<and> print_rank t < print_rank s"
proof -
  note D = print_invD [OF inv]
  note o = fopen_w_slot [OF f]
  note m = fopen_w_stream [OF f D(2)]
  have "stream_ok b even_letters io' (D_opened f)" using o by (simp add: stream_ok_def)
  moreover have "print_places (at_main s) (D_opened f)"
    using D(1) a m(2) by (auto simp: print_places_def print_fd_def split: print_at.splits)
  moreover have "file_at old (at_main s) (D_opened f) = Some []" "thread_shown ino (D_opened f) = thread_shown ino (at_thread s)"
    using D(1) a by (auto simp: file_at_def thread_shown_def print_places_def)
  ultimately show ?thesis
    using D(5) o m a by (simp add: t print_inv_def thread_goes_def print_rank_def)
qed

text \<open>\<open>fclose\<close> writes the 13 letters from the start of the file.\<close>

lemma main_closes:
  assumes inv: "print_inv b ino old s" and a: "at_main s = D_filled f" "at_thread s = D_ended"
    and t: "t = main_goes (D_closed, fclose f (tt_io s)) s"
  shows "print_inv b ino old t \<and> print_rank t < print_rank s"
proof -
  note D = print_invD [OF inv]
  have f: "st_buf f = odd_letters 13" "fd_slot (io_fds (tt_io s)) (st_fd f) = Some (Regular 0)"
    using D(2) a by (simp_all add: stream_ok_def Let_def)
  have "file_text (tt_io s) = Some (even_letters 13)" using D(4) a by (simp add: file_at_def)
  then have "file_text (fclose f (tt_io s)) = Some (odd_letters 13)" "screen (fclose f (tt_io s)) = screen (tt_io s)"
    using fclose_regular [OF f(2)] f(1) by (simp_all add: overwrite_start text_of_def)
  then show ?thesis
    using D(5) a by (simp add: t print_inv_def main_goes_def print_at_simps print_rank_def stream_ok_def)
qed

lemma thread_closes:
  assumes inv: "print_inv b ino old s" and a: "at_thread s = D_closing f"
    and t: "t = thread_goes (D_closed, fclose f (tt_io s)) s"
  shows "print_inv b ino old t \<and> print_rank t < print_rank s"
proof -
  note D = print_invD [OF inv]
  have f: "st_buf f = even_letters 13" "fd_slot (io_fds (tt_io s)) (st_fd f) = Some (Regular 0)"
    using D(3) a by (simp_all add: stream_ok_def Let_def)
  have m: "at_main s \<notin> {D_first, D_open, D_closed, D_ended}" "print_fd (at_main s) \<noteq> Some (st_fd f)"
    using D(1) a by (auto simp: print_places_def print_fd_def split: print_at.splits)
  have "file_text (tt_io s) = Some []" using D(4) a m by (simp add: file_at_def)
  then have c: "file_text (fclose f (tt_io s)) = Some (even_letters 13)" "screen (fclose f (tt_io s)) = screen (tt_io s)"
    using fclose_regular [OF f(2)] f(1) by (simp_all add: overwrite_start text_of_def)
  have "stream_ok b odd_letters (fclose f (tt_io s)) (at_main s)"
    by (rule stream_ok_other [OF D(2) m(2)]) (simp add: fclose_regular [OF f(2)])
  moreover have "print_places (at_main s) D_closed"
    using D(1) a m by (auto simp: print_places_def print_fd_def split: print_at.splits)
  moreover have "file_at old (at_main s) D_closed = Some (even_letters 13)" using m by (simp add: file_at_def)
  moreover have "thread_shown ino D_closed = thread_shown ino (at_thread s)" using a by (simp add: thread_shown_def)
  ultimately show ?thesis
    using D(5) c a by (simp add: t print_inv_def thread_goes_def print_rank_def stream_ok_def [of _ _ _ D_closed])
qed

lemma main_reports:
  assumes inv: "print_inv b ino old s" and t: "t = main_goes (a', print_file_info ino (m @ nl) (tt_io s)) s"
    and a: "(at_main s, a', m) = (D_first, D_open, ''Before first open'') \<or>
      (\<exists>f. (at_main s, a', m) = (D_opened f, D_create f, ''After first open'')) \<or>
      (at_main s, a', m) = (D_closed, D_ended, ''After second close'')"
  shows "print_inv b ino old t \<and> print_rank t < print_rank s"
proof -
  note D = print_invD [OF inv]
  have "print_places a' (at_thread s)" "stream_ok b odd_letters (tt_io s) a'"
    "file_at old a' (at_thread s) = file_at old (at_main s) (at_thread s)" "print_weight a' < print_weight (at_main s)"
    using D(1,2) a by (auto simp: print_places_def print_fd_def stream_ok_def file_at_def)
  moreover have "main_shown ino old (at_main s) @ thread_shown ino (at_thread s) @ end_shown ino (at_main s) @
      file_info ino (m @ nl) (file_at old (at_main s) (at_thread s)) =
      main_shown ino old a' @ thread_shown ino (at_thread s) @ end_shown ino a'"
    using D(1) a by (auto simp: print_at_simps)
  ultimately show ?thesis
    using D(3-5) by (simp add: t print_inv_def main_goes_def print_rank_def io_simps)
qed

lemma thread_reports:
  assumes inv: "print_inv b ino old s" and t: "t = thread_goes (a', print_file_info ino (m @ nl) (tt_io s)) s"
    and a: "(\<exists>f. (at_thread s, a', m) = (D_opened f, D_put f 0, ''After second open'')) \<or>
      (\<exists>f. (at_thread s, a', m) = (D_filled f, D_closing f, ''Before first close'')) \<or>
      (at_thread s, a', m) = (D_closed, D_ended, ''After first close'')"
  shows "print_inv b ino old t \<and> print_rank t < print_rank s"
proof -
  note D = print_invD [OF inv]
  have m: "at_main s \<notin> {D_first, D_open}" "at_main s \<in> {D_closed, D_ended} \<longrightarrow> at_thread s = D_ended"
    "end_shown ino (at_main s) = []"
    using D(1) a by (auto simp: print_places_def end_shown_def)
  have fd: "print_fd a' = print_fd (at_thread s)" using a by (auto simp: print_fd_def)
  have "print_places (at_main s) a'"
    using D(1) a unfolding print_places_def fd by (auto split: print_at.splits)
  moreover have "stream_ok b even_letters (tt_io s) a'" "file_at old (at_main s) a' = file_at old (at_main s) (at_thread s)"
    "print_weight a' < print_weight (at_thread s)"
    using D(3) a m by (auto simp: stream_ok_def file_at_def)
  moreover have "thread_shown ino (at_thread s) @ file_info ino (m @ nl) (file_at old (at_main s) (at_thread s)) =
      thread_shown ino a'"
    using m a by (auto simp: thread_shown_def file_at_def report_def)
  ultimately show ?thesis
    using D(2,4,5) m by (simp add: t print_inv_def thread_goes_def print_rank_def io_simps)
qed

lemma print_main_step:
  assumes inv: "print_inv b ino old s" and b: "13 \<le> b" and run: "print_main b ino s = Some t"
  shows "print_inv b ino old t \<and> print_rank t < print_rank s"
proof (cases "at_main s")
  case D_first
  then show ?thesis
    using main_reports [OF inv, of t D_open "''Before first open''"] run by (simp add: print_main_def)
next
  case D_open
  obtain f io' where f: "fopen_w b (tt_io s) = (f, io')" by fastforce
  then show ?thesis using main_opens [OF inv D_open f] run D_open by (simp add: print_main_def)
next
  case (D_opened f)
  then show ?thesis
    using main_reports [OF inv, of t "D_create f" "''After first open''"] run by (simp add: print_main_def)
next
  case (D_create f)
  then have "t = s\<lparr>at_main := D_put f 0, at_thread := D_open\<rparr>" using run by (simp add: print_main_def)
  then show ?thesis
    using print_invD [OF inv] D_create
    by (simp add: print_inv_def print_rank_def print_at_simps stream_ok_def)
next
  case (D_put f k)
  then show ?thesis using main_letter [OF inv b D_put] run by (simp add: print_main_def)
next
  case (D_filled f)
  then show ?thesis
    using main_closes [OF inv D_filled] print_invD [OF inv] run
    by (auto simp: print_main_def print_inv_def print_rank_def print_at_simps stream_ok_def split: if_splits)
next
  case D_closed
  then show ?thesis
    using main_reports [OF inv, of t D_ended "''After second close''"] run by (simp add: print_main_def)
qed (use run in \<open>simp_all add: print_main_def\<close>)

lemma print_thread_step:
  assumes inv: "print_inv b ino old s" and b: "13 \<le> b" and run: "print_thread b ino s = Some t"
  shows "print_inv b ino old t \<and> print_rank t < print_rank s"
proof (cases "at_thread s")
  case D_open
  obtain f io' where f: "fopen_w b (tt_io s) = (f, io')" by fastforce
  then show ?thesis using thread_opens [OF inv D_open f] run D_open by (simp add: print_thread_def)
next
  case (D_opened f)
  then show ?thesis
    using thread_reports [OF inv, of t "D_put f 0" "''After second open''"] run by (simp add: print_thread_def)
next
  case (D_put f k)
  then show ?thesis using thread_letter [OF inv b D_put] run by (simp add: print_thread_def)
next
  case (D_filled f)
  then show ?thesis
    using thread_reports [OF inv, of t "D_closing f" "''Before first close''"] run by (simp add: print_thread_def)
next
  case (D_closing f)
  then show ?thesis using thread_closes [OF inv D_closing] run by (simp add: print_thread_def)
next
  case D_closed
  then show ?thesis
    using thread_reports [OF inv, of t D_ended "''After first close''"] run by (simp add: print_thread_def)
qed (use run in \<open>simp_all add: print_thread_def\<close>)

lemma print_fails_step:
  assumes inv: "print_inv b ino old s" and run: "print_fails s = Some t"
  shows "print_inv b ino old t \<and> print_rank t < print_rank s"
proof -
  obtain f where f: "at_main s = D_create f" "t = s\<lparr>at_main := D_put f 0\<rparr>"
    using run by (auto simp: print_fails_def split: print_at.splits)
  then show ?thesis
    using print_invD [OF inv] by (simp add: print_inv_def print_rank_def print_at_simps stream_ok_def)
qed

lemma print_step:
  assumes "print_inv b ino old s" "13 \<le> b" "sched_step (task_03_v2 b ino) s t"
  shows "print_inv b ino old t \<and> print_rank t < print_rank s"
proof -
  obtain i where "both_threads (print_main b ino) (print_thread b ino) print_fails i s = Some t"
    using assms(3) by (auto simp: task_03_v2_def)
  then show ?thesis
    by (rule both_threads_cases) (use assms(1,2) print_main_step print_thread_step print_fails_step in blast)+
qed

section \<open>All runs\<close>

definition print_final :: "print_at two_threads \<Rightarrow> bool" where
  "print_final s \<longleftrightarrow> at_main s = D_ended \<or> at_main s = D_undefined"

lemma print_enabled:
  assumes inv: "print_inv b ino old s" and "\<not> print_final s"
  shows "\<exists>t. sched_step (task_03_v2 b ino) s t"
proof (cases "\<exists>f. at_main s = D_filled f \<and> at_thread s \<noteq> D_ended \<and> at_thread s \<noteq> D_unborn")
  case True
  then have "print_thread b ino s \<noteq> None"
    using print_invD(1) [OF inv] by (auto simp: print_places_def print_thread_def split: print_at.splits prod.splits)
  then show ?thesis unfolding task_03_v2_def by (rule some_thread_moves)
next
  case False
  then have "print_main b ino s \<noteq> None"
    using print_invD(1) [OF inv] assms(2)
    by (auto simp: print_places_def print_main_def print_final_def split: print_at.splits prod.splits)
  then show ?thesis unfolding task_03_v2_def by (rule some_thread_moves)
qed

lemma print_inv_init: "print_inv b ino old (print_init old)"
  by (simp add: print_inv_def print_init_def print_at_simps stream_ok_def io_start_def)

text \<open>Buffers have at least the 13 bytes that each thread prints.\<close>

interpretation printing: terminating_system "print_init old" "sched_step (task_03_v2 (13 + b) ino)"
    "print_inv (13 + b) ino old" print_final print_rank
  for old b ino
proof
  show "print_inv (13 + b) ino old (print_init old)" by (rule print_inv_init)
  show "print_inv (13 + b) ino old t" if "print_inv (13 + b) ino old s" "sched_step (task_03_v2 (13 + b) ino) s t" for s t
    by (rule conjunct1 [OF print_step [OF that(1) _ that(2)]]) simp
  show "\<exists>t. sched_step (task_03_v2 (13 + b) ino) s t" if "print_inv (13 + b) ino old s" "\<not> print_final s" for s
    by (rule print_enabled [OF that])
  show "print_rank t < print_rank s" if "print_inv (13 + b) ino old s" "sched_step (task_03_v2 (13 + b) ino) s t" for s t
    by (rule conjunct2 [OF print_step [OF that(1) _ that(2)]]) simp
qed

lemma print_rank_init: "print_rank (print_init old) = 42"
  by (simp add: print_rank_def print_init_def)

lemma print_result:
  assumes "print_inv b ino old s" "at_main s = D_ended"
  shows "file_text (tt_io s) = Some ''acegikmoqsuwy''"
    "screen (tt_io s) = file_info ino (''Before first open'' @ nl) old @
      file_info ino (''After first open'' @ nl) (Some []) @
      file_info ino (''After second open'' @ nl) (Some []) @
      file_info ino (''Before first close'' @ nl) (Some []) @
      file_info ino (''After first close'' @ nl) (Some ''bdfhjlnprtvxz'') @
      file_info ino (''After second close'' @ nl) (Some ''acegikmoqsuwy'')"
proof -
  note D = print_invD [OF assms(1)]
  have "at_thread s = D_ended" using D(1) assms(2) by (simp add: print_places_def)
  then show "file_text (tt_io s) = Some ''acegikmoqsuwy''"
    "screen (tt_io s) = file_info ino (''Before first open'' @ nl) old @
      file_info ino (''After first open'' @ nl) (Some []) @
      file_info ino (''After second open'' @ nl) (Some []) @
      file_info ino (''Before first close'' @ nl) (Some []) @
      file_info ino (''After first close'' @ nl) (Some ''bdfhjlnprtvxz'') @
      file_info ino (''After second close'' @ nl) (Some ''acegikmoqsuwy'')"
    using D(4,5) assms(2) by (simp_all add: file_at_def main_shown_def thread_shown_def end_shown_def report_def letters_13)
qed

end
