(* ===== verification/Thread_Properties.thy ===== *)
theory Thread_Properties
  imports Scan_Threads Write_Race Print_Threads
begin

text \<open>
  The properties of the programs of sem_06/lab_08 with two threads: what every interleaving of their
  system calls and calls of stdio comes to.
\<close>

text \<open>C36: task_02_v2.c: every interleaving ends after at most four steps for each byte of the file and
  eight more. When nothing moves any more, \<open>main\<close> has given up because \<open>pthread_create\<close> failed, or the
  terminal shows the whole text twice, once in the order of each thread, shuffled in some way.\<close>

theorem both_copies_shuffled:
  assumes "(sched_step task_02_v2 ^^ n) (copy_init tx) t"
  shows "n \<le> 4 * length tx + 8 \<and>
    ((\<forall>u. \<not> sched_step task_02_v2 t u) \<longrightarrow>
       at_main t = A_failed \<or> screen (tt_io t) \<in> shuffles tx tx)"
proof -
  have inv: "copy_inv tx t" using copying.inv_run_bound [OF assms copying.inv_init] by simp
  have "n \<le> 4 * length tx + 8" using copying.run_bound [OF assms] by (simp add: copies_rank_init)
  moreover have "at_main t = A_ended \<or> at_main t = A_failed" if "\<forall>u. \<not> sched_step task_02_v2 t u"
    using that copying.enabled [OF inv] by (auto simp: copy_final_def)
  ultimately show ?thesis using copy_result [OF inv] by blast
qed

lemma both_copies_shuffled_witness:
  "\<exists>n t. (sched_step task_02_v2 ^^ n) (copy_init ''ab'') t \<and> n \<le> 16 \<and>
     (at_main t = A_failed \<or> screen (tt_io t) \<in> shuffles ''ab'' ''ab'')"
proof -
  obtain n t where nt: "(sched_step task_02_v2 ^^ n) (copy_init ''ab'') t" "\<forall>u. \<not> sched_step task_02_v2 t u"
    using copying.maximal_run [OF copying.inv_init, of "''ab''"] by blast
  with both_copies_shuffled [OF nt(1)] show ?thesis by auto
qed

text \<open>C37: task_01_v2.c: two threads read one description through a buffer of their own. Every
  interleaving ends after at most two steps for each byte and eight more. Unless \<open>pthread_create\<close>
  fails, every byte of the file has then been printed exactly once by one of them, and each has printed
  its bytes in the order of the file.\<close>

theorem bytes_scanned_once:
  assumes "(sched_step (task_01_v2 (Suc b)) ^^ n) (scan_init tx) t"
  shows "n \<le> 2 * length tx + 8 \<and>
    ((\<forall>u. \<not> sched_step (task_01_v2 (Suc b)) t u) \<longrightarrow>
       at_main t = C_failed \<or>
       (\<exists>log. screen (tt_io t) = shown log \<and> mset (map snd log) = mset tx \<and>
          subseq (bytes_of True log) tx \<and> subseq (bytes_of False log) tx))"
proof -
  have inv: "scan_inv tx (Suc b) t" using scanning.inv_run_bound [OF assms scanning.inv_init] by simp
  have "n \<le> 2 * length tx + 8" using scanning.run_bound [OF assms] by (simp add: scan_rank_init)
  moreover have "at_main t = C_ended \<or> at_main t = C_failed" if "\<forall>u. \<not> sched_step (task_01_v2 (Suc b)) t u"
    using that scanning.enabled [OF inv] by (auto simp: scan_final_def)
  ultimately show ?thesis using scan_result [OF inv] by blast
qed

lemma bytes_scanned_once_witness:
  "\<exists>n t. (sched_step (task_01_v2 20) ^^ n) (scan_init ''abc'') t \<and> n \<le> 14 \<and>
     (at_main t = C_failed \<or>
      (\<exists>log. screen (tt_io t) = shown log \<and> mset (map snd log) = mset ''abc'' \<and>
         subseq (bytes_of True log) ''abc'' \<and> subseq (bytes_of False log) ''abc''))"
proof -
  obtain n t where nt: "(sched_step (task_01_v2 20) ^^ n) (scan_init ''abc'') t"
    "\<forall>u. \<not> sched_step (task_01_v2 20) t u"
    using scanning.maximal_run [OF scanning.inv_init, where b = 19 and tx = "''abc''"] by auto
  then show ?thesis using bytes_scanned_once [where n = n and b = 19 and tx = "''abc''" and t = t] by auto
qed

text \<open>C38: task_02_v4.c: \<open>main\<close> and a thread write the letters with an odd and with an even code to one
  file, each through a description of its own, and \<open>main\<close> does not wait. The texts that the runs can
  leave are exactly those in which each of the first 13 bytes is either thread's letter for its place:
  every one of these 8192 outcomes is possible, and what lay behind the 13 bytes stays.\<close>

theorem race_outcomes:
  "race_results old =
     {tx. length tx = max (length old) 13 \<and> (\<forall>k<13. tx ! k \<in> {odd_letter k, even_letter k}) \<and>
        drop 13 tx = drop 13 old}"
proof (intro set_eqI iffI)
  fix tx
  assume "tx \<in> race_results old"
  then show "tx \<in> {tx. length tx = max (length old) 13 \<and> (\<forall>k<13. tx ! k \<in> {odd_letter k, even_letter k}) \<and>
        drop 13 tx = drop 13 old}"
    using result_letters by blast
next
  fix tx
  assume "tx \<in> {tx. length tx = max (length old) 13 \<and> (\<forall>k<13. tx ! k \<in> {odd_letter k, even_letter k}) \<and>
        drop 13 tx = drop 13 old}"
  then have tx: "13 \<le> length tx" "\<forall>k<13. tx ! k \<in> {odd_letter k, even_letter k}" "drop 13 tx = drop 13 old"
    by auto
  have "map ((!) tx) [0..<13] = take 13 tx" by (rule nth_equalityI) (use tx(1) in auto)
  then have "map ((!) tx) [0..<13] @ drop 13 old = tx" using append_take_drop_id [of 13 tx] by (simp add: tx(3))
  with chosen_result [OF tx(2), of old] show "tx \<in> race_results old" by simp
qed

lemma race_outcomes_witness: "''adehilmpqtuxy!'' \<in> race_results ''0123456789abc!''"
proof -
  have "list_all (\<lambda>k. ''adehilmpqtuxy!'' ! k = odd_letter k \<or> ''adehilmpqtuxy!'' ! k = even_letter k) [0..<13]"
    by code_simp
  then have "\<forall>k<13. ''adehilmpqtuxy!'' ! k \<in> {odd_letter k, even_letter k}" by (simp add: list_all_iff)
  then show ?thesis unfolding race_outcomes by simp
qed

text \<open>task_03_v2.c with stream buffers of at least 13 bytes: every interleaving has at most 42 steps
  and, unless \<open>pthread_create\<close> fails, ends with the same file and the same reports. The stream that is
  closed last overwrites the letters of the other one.\<close>

theorem last_stream_wins:
  assumes "(sched_step (task_03_v2 (13 + b) ino) ^^ n) (print_init old) t"
  shows "n \<le> 42 \<and>
    ((\<forall>u. \<not> sched_step (task_03_v2 (13 + b) ino) t u) \<longrightarrow>
       at_main t = D_undefined \<or>
       file_text (tt_io t) = Some ''acegikmoqsuwy'' \<and>
       screen (tt_io t) = file_info ino (''Before first open'' @ nl) old @
         file_info ino (''After first open'' @ nl) (Some []) @
         file_info ino (''After second open'' @ nl) (Some []) @
         file_info ino (''Before first close'' @ nl) (Some []) @
         file_info ino (''After first close'' @ nl) (Some ''bdfhjlnprtvxz'') @
         file_info ino (''After second close'' @ nl) (Some ''acegikmoqsuwy''))"
proof -
  have inv: "print_inv (13 + b) ino old t" using printing.inv_run_bound [OF assms printing.inv_init] by simp
  have "n \<le> 42" using printing.run_bound [OF assms] by (simp add: print_rank_init)
  moreover have "at_main t = D_ended \<or> at_main t = D_undefined" if "\<forall>u. \<not> sched_step (task_03_v2 (13 + b) ino) t u"
    using that printing.enabled [OF inv] by (auto simp: print_final_def)
  ultimately show ?thesis using print_result [OF inv] by blast
qed

lemma last_stream_wins_witness:
  "\<exists>n t. (sched_step (task_03_v2 4096 7) ^^ n) (print_init None) t \<and> n \<le> 42 \<and>
     (at_main t = D_undefined \<or> file_text (tt_io t) = Some ''acegikmoqsuwy'')"
proof -
  obtain n t where nt: "(sched_step (task_03_v2 4096 7) ^^ n) (print_init None) t"
    "\<forall>u. \<not> sched_step (task_03_v2 4096 7) t u"
    using printing.maximal_run [OF printing.inv_init, where b = 4083 and ino = 7 and old = None] by auto
  then show ?thesis using last_stream_wins [where b = 4083 and ino = 7 and n = n and old = None and t = t] by auto
qed

end
