(* ===== verification/Module_Samples.thy ===== *)
theory Module_Samples
  imports Process_Reports Transition_Systems
begin

text \<open>
  The module samples of sem_06/lab_04. part_01: a module that prints a line for every task of the
  kernel's ring of tasks. part_02: three modules, two of which use symbols of the first; the kernel
  loads a module when its symbols are exported by loaded ones and its \<open>init\<close> returns 0, and keeps a
  module as long as another one uses it. What \<open>printk\<close> prints is a list of texts.
\<close>

section \<open>The ring of tasks (part_01/main.c)\<close>

text \<open>
  The fields that are printed. Tasks have addresses of a type \<open>'a\<close>; \<open>ts_fs\<close> is the name of the root
  directory, \<open>None\<close> when \<open>task->fs\<close> is NULL, as for a task that has exited and was not waited for.
\<close>

record 'a task_struct =
  ts_comm :: string
  ts_pid :: int
  ts_state :: u32
  ts_prio :: int
  ts_flags :: u32
  ts_policy :: u32
  ts_parent :: 'a
  ts_fs :: "string option"

definition task_line :: "('a \<Rightarrow> 'a task_struct) \<Rightarrow> 'a \<Rightarrow> string option" where
  "task_line tasks a = do {
     d_name \<leftarrow> ts_fs (tasks a);
     (let t = tasks a; p = tasks (ts_parent t) in
      Some ('' + '' @ ts_comm t @ '' ('' @ show_int (ts_pid t) @ '') ('' @ show_int (sint (ts_state t)) @ '' - state, '' @
        show_int (ts_prio t) @ '' - prio, flags - '' @ show_hex (unat (ts_flags t)) @ '', policy - '' @
        show_int (sint (ts_policy t)) @ ''), parent '' @ ts_comm p @ '' ('' @ show_int (ts_pid p) @ ''), d_name '' @ d_name)) }"

text \<open>
  \<open>do { ... } while ((task = next_task(task)) != &init_task)\<close>. \<open>None\<close>: a NULL pointer was followed, or
  the loop does not end.
\<close>

partial_function (option) task_loop :: "('a \<Rightarrow> 'a task_struct) \<Rightarrow> ('a \<Rightarrow> 'a) \<Rightarrow> 'a \<Rightarrow> 'a \<Rightarrow> string list option" where
  "task_loop tasks next_task init_task task = do {
     l \<leftarrow> task_line tasks task;
     (if next_task task = init_task then Some [l]
      else do {
        ls \<leftarrow> task_loop tasks next_task init_task (next_task task);
        Some (l # ls) }) }"

definition mod_init :: "('a \<Rightarrow> 'a task_struct) \<Rightarrow> ('a \<Rightarrow> 'a) \<Rightarrow> 'a \<Rightarrow> 'a \<Rightarrow> (int \<times> string list) option" where
  "mod_init tasks next_task init_task cur = do {
     ls \<leftarrow> task_loop tasks next_task init_task init_task;
     c \<leftarrow> task_line tasks cur;
     Some (0, ['' + module is loaded.'' @ nl] @ ls @ [''CURRENT'' @ c]) }"

definition mod_exit :: "('a \<Rightarrow> 'a task_struct) \<Rightarrow> 'a \<Rightarrow> string list" where
  "mod_exit tasks cur =
     (let t = tasks cur; p = tasks (ts_parent t) in
      ['' + '' @ ts_comm t @ '' - '' @ show_int (ts_pid t) @ '', parent '' @ ts_comm p @ '' - '' @ show_int (ts_pid p) @ nl,
       '' + module is unloaded.'' @ nl])"

text \<open>A path of tasks: from \<open>a\<close> through the list, after which \<open>e\<close> follows.\<close>

fun task_path :: "('a \<Rightarrow> 'a) \<Rightarrow> 'a \<Rightarrow> 'a list \<Rightarrow> 'a \<Rightarrow> bool" where
  "task_path nxt a [] e \<longleftrightarrow> a = e"
| "task_path nxt a (t # ts) e \<longleftrightarrow> a = t \<and> task_path nxt (nxt t) ts e"

definition task_ring :: "('a \<Rightarrow> 'a) \<Rightarrow> 'a \<Rightarrow> 'a list \<Rightarrow> bool" where
  "task_ring nxt a ts \<longleftrightarrow> ts \<noteq> [] \<and> distinct ts \<and> task_path nxt a ts a"

lemma task_loop_path:
  assumes "task_path nxt a ts e" "ts \<noteq> []" "e \<notin> set (tl ts)"
  shows "task_loop tasks nxt e a =
    (if \<forall>t\<in>set ts. ts_fs (tasks t) \<noteq> None then Some (map (\<lambda>t. the (task_line tasks t)) ts) else None)"
  using assms
proof (induction ts arbitrary: a)
  case (Cons t ts)
  show ?case
  proof (cases ts)
    case Nil
    then show ?thesis
      using Cons.prems by (auto simp: task_loop.simps [of tasks nxt e t] task_line_def Let_def split: bind_splits)
  next
    case (Cons u us)
    then have "nxt t \<noteq> e" "task_path nxt (nxt t) ts e" "e \<notin> set (tl ts)" using Cons.prems by auto
    with Cons.IH [of "nxt t"] Cons show ?thesis
      using Cons.prems by (auto simp: task_loop.simps [of tasks nxt e t] task_line_def Let_def)
  qed
qed simp

section \<open>Modules that use each other (part_02)\<close>

datatype sample = Module_1 | Module_2 | Module_3















record samples =
  loaded :: "sample list"
  messages :: "string list"











section \<open>Properties\<close>

text \<open>part_01: \<open>mod_init\<close> prints a line for each task of the ring, each once and in its order, then one
  for the current task, and returns 0; it follows a NULL pointer exactly when one of these tasks has no
  \<open>fs\<close> any more.\<close>

theorem every_task_printed:
  assumes "task_ring next_task init_task ts"
  shows "mod_init tasks next_task init_task cur =
    (if \<forall>t\<in>set (cur # ts). ts_fs (tasks t) \<noteq> None
     then Some (0, ['' + module is loaded.'' @ nl] @ map (\<lambda>t. the (task_line tasks t)) ts @
       [''CURRENT'' @ the (task_line tasks cur)])
     else None)"
proof -
  have ring: "ts \<noteq> []" "task_path next_task init_task ts init_task" "init_task \<notin> set (tl ts)"
    using assms by (auto simp: task_ring_def neq_Nil_conv)
  show ?thesis
    using task_loop_path [OF ring(2,1,3), of tasks]
    by (auto simp: mod_init_def task_line_def Let_def)
qed

lemma every_task_printed_witness:
  "mod_init (\<lambda>t. \<lparr>ts_comm = ''swapper'', ts_pid = int t, ts_state = 0, ts_prio = 120, ts_flags = 0, ts_policy = 0,
       ts_parent = 0, ts_fs = (if t = 2 then None else Some ''/'')\<rparr>)
     (\<lambda>t. if t = 0 then 1 else if t = 1 then 2 else 0) (0::nat) 1 = None"
proof -
  have "task_ring (\<lambda>t. if t = 0 then 1 else if t = 1 then 2 else 0) (0::nat) [0, 1, 2]"
    by (simp add: task_ring_def)
  from every_task_printed [OF this] show ?thesis by simp
qed



end
