(* ===== verification/Startups.thy ===== *)
theory Startups
  imports Producer_Consumer Readers_Writers
begin

text \<open>
  How programs set up what they use and give it back: a list of steps, each of which is a system call
  that is granted or refused, until a step ends the program. Here the two programs of sem_05/lab_04
  with their shared segment and semaphores; the socket programs follow in Socket_Starts. What the
  system answers is an argument, a predicate on the calls.
\<close>

section \<open>Steps that may end the program\<close>

datatype ending = Code int | Killed_by nat

type_synonym 's step = "'s \<Rightarrow> (ending \<times> 's) + 's"

fun run_steps :: "'s step list \<Rightarrow> 's step" where
  "run_steps [] s = Inr s"
| "run_steps (f # fs) s = (case f s of Inl r \<Rightarrow> Inl r | Inr t \<Rightarrow> run_steps fs t)"

text \<open>A call: what it does when it is granted, and how the program ends when it is refused.\<close>

definition call :: "bool \<Rightarrow> ('s \<Rightarrow> 's) \<Rightarrow> ending \<Rightarrow> ('s \<Rightarrow> 's) \<Rightarrow> 's step" where
  "call granted effect e undo s = (if granted then Inr (effect s) else Inl (e, undo s))"

definition act :: "('s \<Rightarrow> 's) \<Rightarrow> 's step" where
  "act f s = Inr (f s)"

lemma run_steps_append:
  "run_steps (fs @ gs) s = (case run_steps fs s of Inl r \<Rightarrow> Inl r | Inr t \<Rightarrow> run_steps gs t)"
  by (induction fs arbitrary: s) (auto split: sum.splits)

named_theorems start_simps

lemma call_simps [start_simps]:
  "call True f e g s = Inr (f s)" "call False f e g s = Inl (e, g s)" "act f s = Inr (f s)"
  by (simp_all add: call_def act_def)

lemma call_cases: "call b f e g s = (if b then Inr (f s) else Inl (e, g s))"
  by (simp add: call_def)

section \<open>Segments and semaphore sets\<close>







subsection \<open>Producer and consumer (pc/main.c)\<close>



subsection \<open>Readers and writers (rw/main.c)\<close>




section \<open>Where the concurrent models begin and end\<close>








section \<open>The two programs as a whole\<close>


















end
