(* ===== verification/Socket_Pair.thy ===== *)
theory Socket_Pair
  imports Sockets
begin

text \<open>
  sem_06/lab_01/task_01 step by step: the parent and its child over a pair of datagram sockets, every
  interleaving of their calls, and the failures of \<open>socketpair\<close> and \<open>fork\<close> that the program handles. An end
  of the pair lives while one of the two has it open; a datagram sent to an end that nobody has is lost,
  and a read of an end with nothing waiting blocks. The lines are in the order of the calls.
\<close>

section \<open>The program (task_01/main.c)\<close>

datatype pair_parent_at =
    SP_name | SP_pair | SP_fork | SP_close | SP_read | SP_print | SP_write | SP_sent | SP_end
  | SP_returned nat | SP_trap

datatype pair_child_at =
    SC_none | SC_name | SC_close | SC_tell | SC_write | SC_read | SC_print | SC_end | SC_exited | SC_trap

text \<open>
  \<open>sp_p0\<close> to \<open>sp_c1\<close>: the ends \<open>sockets[0]\<close> and \<open>sockets[1]\<close> that the parent and the child have open.
  \<open>sp_at0\<close>, \<open>sp_at1\<close>: the datagrams waiting at each end.
\<close>

record socket_pair =
  sp_parent :: pair_parent_at
  sp_child :: pair_child_at
  sp_p_msg :: string
  sp_p_buf :: string
  sp_c_msg :: string
  sp_c_buf :: string
  sp_p0 :: bool
  sp_p1 :: bool
  sp_c0 :: bool
  sp_c1 :: bool
  sp_at0 :: "string list"
  sp_at1 :: "string list"
  sp_lines :: "string list"
  sp_errors :: "string list"
















section \<open>Its states\<close>

text \<open>Places in the order of the calls.\<close>

fun parent_no :: "pair_parent_at \<Rightarrow> nat" where
  "parent_no SP_name = 0" | "parent_no SP_pair = 1" | "parent_no SP_fork = 2" | "parent_no SP_close = 3"
| "parent_no SP_read = 4" | "parent_no SP_print = 5" | "parent_no SP_write = 6" | "parent_no SP_sent = 7"
| "parent_no SP_end = 8" | "parent_no (SP_returned r) = 9" | "parent_no SP_trap = 10"

fun child_no :: "pair_child_at \<Rightarrow> nat" where
  "child_no SC_none = 0" | "child_no SC_name = 1" | "child_no SC_close = 2" | "child_no SC_tell = 3"
| "child_no SC_write = 4" | "child_no SC_read = 5" | "child_no SC_print = 6" | "child_no SC_end = 7"
| "child_no SC_exited = 8" | "child_no SC_trap = 9"

definition pair_rank :: "socket_pair \<Rightarrow> nat" where
  "pair_rank s = (9 - parent_no (sp_parent s)) + (8 - max 1 (child_no (sp_child s)))"




text \<open>
  The arrays: as they start, after \<open>sprintf\<close> and after \<open>read\<close>. The state is then given by the two places and
  the lines.
\<close>

record pair_arrays =
  pa_p_msg :: "string \<times> string"
  pa_p_buf :: "string \<times> string"
  pa_c_msg :: "string \<times> string"
  pa_c_buf :: "string \<times> string"

definition pair_at :: "pair_arrays \<Rightarrow> pair_parent_at \<Rightarrow> pair_child_at \<Rightarrow> string list \<Rightarrow> socket_pair" where
  "pair_at a x y ls =
     (let p = parent_no x; c = child_no y in
      \<lparr>sp_parent = x, sp_child = y,
       sp_p_msg = (if p = 0 then fst else snd) (pa_p_msg a), sp_p_buf = (if p < 5 then fst else snd) (pa_p_buf a),
       sp_c_msg = (if c < 2 then fst else snd) (pa_c_msg a), sp_c_buf = (if c < 6 then fst else snd) (pa_c_buf a),
       sp_p0 = (p = 2 \<or> p = 3), sp_p1 = (2 \<le> p \<and> p \<le> 8), sp_c0 = (1 \<le> c \<and> c \<le> 7), sp_c1 = (c = 1 \<or> c = 2),
       sp_at0 = (if 7 \<le> p \<and> c \<le> 5 then [snd (pa_p_msg a)] else []),
       sp_at1 = (if 5 \<le> c \<and> p \<le> 4 then [snd (pa_c_msg a)] else []), sp_lines = ls, sp_errors = []\<rparr>)"










lemma pair_rank_at [simp]: "pair_rank (pair_at a x y ls) = (9 - parent_no x) + (8 - max 1 (child_no y))"
  by (simp add: pair_rank_def pair_at_def Let_def)







section \<open>Its runs\<close>






end
