(* ===== verification/Socket_Failures.thy ===== *)
theory Socket_Failures
  imports Socket_Properties
begin

text \<open>
  The answering server of sem_06/lab_01/task_03 and its clients when processes end early. The socket of a
  client that has ended is closed; its name is still in the file system, and \<open>sendto\<close> to it is refused.
  The server takes any refused call for the end of its work, so a client that does not wait for its
  answer ends the server for all.
\<close>

datatype echo_move = Goes nat | Server_refused | Client_ends nat

text \<open>\<open>er_gone\<close>: for each client whether it has ended before its answer.\<close>

record echo_trouble =
  er_echo :: echo_state
  er_gone :: "bool list"

text \<open>The process that is bound to the name of the answer, when its socket is open.\<close>

definition reachable_03 :: "echo_trouble \<Rightarrow> string \<Rightarrow> bool" where
  "reachable_03 x name =
     (case bound_to name (es_clients (er_echo x)) of
        None \<Rightarrow> False
      | Some j \<Rightarrow> \<not> er_gone x ! j \<and> ec_loc (es_clients (er_echo x) ! j) \<noteq> K_done)"

definition leaves_loop :: "echo_trouble \<Rightarrow> echo_trouble" where
  "leaves_loop x = x\<lparr>er_echo := (er_echo x)\<lparr>es_loc := V_exit\<rparr>\<rparr>"

definition server_trouble_exec :: "echo_trouble \<Rightarrow> echo_trouble option" where
  "server_trouble_exec x =
     (case es_loc (er_echo x) of
        V_send name r \<Rightarrow>
          if reachable_03 x name then map_option (\<lambda>s. x\<lparr>er_echo := s\<rparr>) (server_03_exec (er_echo x))
          else Some (leaves_loop x)
      | _ \<Rightarrow> map_option (\<lambda>s. x\<lparr>er_echo := s\<rparr>) (server_03_exec (er_echo x)))"

text \<open>A client whose server has ended cannot send any more; one that has ended does nothing.\<close>

definition client_trouble_exec :: "nat \<Rightarrow> echo_trouble \<Rightarrow> echo_trouble option" where
  "client_trouble_exec j x =
     (if j < length (er_gone x) \<and> \<not> er_gone x ! j \<and>
         (ec_loc (es_clients (er_echo x) ! j) = K_send \<longrightarrow> es_loc (er_echo x) \<noteq> V_exit)
      then map_option (\<lambda>s. x\<lparr>er_echo := s\<rparr>) (client_03_exec j (er_echo x)) else None)"

definition echo_trouble_exec :: "echo_move \<Rightarrow> echo_trouble \<Rightarrow> echo_trouble option" where
  "echo_trouble_exec m x =
     (case m of
        Goes 0 \<Rightarrow> server_trouble_exec x
      | Goes (Suc j) \<Rightarrow> client_trouble_exec j x
      | Server_refused \<Rightarrow> (case es_loc (er_echo x) of V_recv \<Rightarrow> Some (leaves_loop x) | V_send name r \<Rightarrow> Some (leaves_loop x) | _ \<Rightarrow> None)
      | Client_ends j \<Rightarrow>
          if j < length (er_gone x) \<and> \<not> er_gone x ! j \<and> ec_loc (es_clients (er_echo x) ! j) \<in> {K_bind, K_send, K_recv}
          then Some (x\<lparr>er_gone := (er_gone x)[j := True]\<rparr>) else None)"

definition echo_trouble_init :: "nat \<Rightarrow> string \<Rightarrow> (nat \<times> string) list \<Rightarrow> echo_trouble" where
  "echo_trouble_init pid msg cs = \<lparr>er_echo = echo_init pid msg cs, er_gone = replicate (length cs) False\<rparr>"

text \<open>
  A client that ends between its \<open>sendto\<close> and the answer ends the server; another client, whose message
  has arrived, waits for its answer for ever.
\<close>

theorem lost_client_ends_server:
  assumes pids: "p < 10 ^ 13" "q < 10 ^ 13" "pid < 10 ^ 13" "p \<noteq> q" and msg: "length msg = 100"
  shows "\<exists>x. run_schedule echo_trouble_exec [Goes 1, Goes 1, Goes 2, Goes 2, Client_ends 0, Goes 0, Goes 0]
      (echo_trouble_init pid msg [(p, a), (q, b)]) = Some x \<and>
    es_loc (er_echo x) = V_exit \<and> er_gone x = [True, False] \<and> ec_loc (es_clients (er_echo x) ! 1) = K_recv \<and>
    (\<forall>i. echo_trouble_exec (Goes i) x = None)"
proof -
  obtain c where c: "server_03_receive (show_nat p @ [NUL]) pid msg = Some (show_nat p, answer_for pid p, c)"
    using server_03_receive_pid [OF pids(1,3) msg] by blast
  have names: "sa_data (show_nat p) = Some (show_nat p)" "sa_data (show_nat q) = Some (show_nat q)"
    using length_pid [OF pids(1)] length_pid [OF pids(2)] by (simp_all add: sa_data_def)
  let ?client = "\<lambda>r m. \<lparr>ec_pid = r, ec_loc = K_recv, ec_msg = m, ec_box = [], ec_printed = None\<rparr>"
  let ?last = "\<lparr>er_echo = \<lparr>es_pid = pid, es_loc = V_exit, es_msg = c, es_queue = [show_nat q @ [NUL]],
      es_clients = [?client p a, ?client q b]\<rparr>, er_gone = [True, False]\<rparr>"
  have "run_schedule echo_trouble_exec [Goes 1, Goes 1, Goes 2, Goes 2, Client_ends 0, Goes 0, Goes 0]
      (echo_trouble_init pid msg [(p, a), (q, b)]) = Some ?last"
    using c names
    by (simp add: echo_trouble_exec_def echo_trouble_init_def echo_init_def client_trouble_exec_def client_03_exec_def
        server_trouble_exec_def server_03_exec_def reachable_03_def bound_to_def leaves_loop_def put_client_def Let_def)
  moreover have "echo_trouble_exec (Goes i) ?last = None" for i
  proof (cases i)
    case 0
    then show ?thesis by (simp add: echo_trouble_exec_def server_trouble_exec_def server_03_exec_def)
  next
    case (Suc j)
    then show ?thesis
      by (cases j) (auto simp: echo_trouble_exec_def client_trouble_exec_def client_03_exec_def less_Suc_eq Let_def)
  qed
  ultimately show ?thesis by (intro exI [of _ ?last]) simp
qed

lemma lost_client_ends_server_witness:
  "\<exists>x. run_schedule echo_trouble_exec [Goes 1, Goes 1, Goes 2, Goes 2, Client_ends 0, Goes 0, Goes 0]
      (echo_trouble_init 5 (replicate 100 NUL) [(71, replicate 256 NUL), (72, replicate 256 NUL)]) = Some x \<and>
    es_loc (er_echo x) = V_exit"
  using lost_client_ends_server [of 71 72 5 "replicate 100 NUL" "replicate 256 NUL" "replicate 256 NUL"] by auto

end
