(* ===== verification/Epoll_Failures.thy ===== *)
theory Epoll_Failures
  imports Epoll_Properties
begin

text \<open>
  The epoll server of sem_06/lab_02 and its clients when calls are refused, in any interleaving: any call
  of a client may fail, which ends this client, and any call in the loop of the server may fail or a
  signal may come, which ends the server. A client that waits for its answer then reads end of file,
  which it takes for an answer.
\<close>

section \<open>Steps\<close>

datatype trouble_move = Fair ep_move | Server_stops | Client_refused nat | Client_eof nat

text \<open>
  \<open>et_gone\<close>: for each client whether it has ended early. \<open>et_eof\<close>: the clients that printed the array
  as it was found, with the string printed; \<open>None\<close> when the array holds no string.
\<close>

record ep_trouble =
  et_ep :: ep_state
  et_gone :: "bool list"
  et_eof :: "(nat \<times> string option) list"

text \<open>The connection of a client that ends is closed at its end.\<close>

definition hang_up :: "nat \<Rightarrow> ep_state \<Rightarrow> ep_state" where
  "hang_up j s =
     (let c = ep_clients s ! j; n = ep_conn c in
      if ep_at c = T_connect then s
      else become_ready (cn_accepted n) j (put_ep j (c\<lparr>ep_conn := n\<lparr>cn_closed := True\<rparr>\<rparr>) s))"

definition live :: "nat \<Rightarrow> ep_trouble \<Rightarrow> bool" where
  "live j x \<longleftrightarrow> j < length (ep_clients (et_ep x)) \<and> \<not> et_gone x ! j \<and>
     ep_at (ep_clients (et_ep x) ! j) \<in> {T_connect, T_write, T_read}"

text \<open>\<open>connect\<close> has nobody to answer it once the server has ended.\<close>

definition fair_exec ::
    "nat \<Rightarrow> (nat \<Rightarrow> string \<times> string) \<Rightarrow> (nat \<Rightarrow> string) \<Rightarrow> ep_move \<Rightarrow> ep_trouble \<Rightarrow> ep_trouble option" where
  "fair_exec pid junk cjunk m x =
     (if (case m of
            Client_moves j \<Rightarrow> live j x \<and>
              (ep_server (et_ep x) = E_serving \<or> ep_at (ep_clients (et_ep x) ! j) \<noteq> T_connect)
          | _ \<Rightarrow> True)
      then map_option (\<lambda>s. x\<lparr>et_ep := s\<rparr>) (ep_exec pid junk cjunk m (et_ep x)) else None)"

definition trouble_exec ::
    "nat \<Rightarrow> (nat \<Rightarrow> string \<times> string) \<Rightarrow> (nat \<Rightarrow> string) \<Rightarrow> trouble_move \<Rightarrow> ep_trouble \<Rightarrow> ep_trouble option" where
  "trouble_exec pid junk cjunk m x =
     (let s = et_ep x in
      case m of
        Fair a \<Rightarrow> fair_exec pid junk cjunk a x
      | Server_stops \<Rightarrow> if ep_server s = E_serving then Some (x\<lparr>et_ep := s\<lparr>ep_server := E_failed\<rparr>\<rparr>) else None
      | Client_refused j \<Rightarrow>
          if live j x then Some (x\<lparr>et_ep := hang_up j s, et_gone := (et_gone x)[j := True]\<rparr>) else None
      | Client_eof j \<Rightarrow>
          if live j x \<and> ep_server s \<noteq> E_serving \<and> ep_at (ep_clients s ! j) = T_read \<and>
            cn_out (ep_conn (ep_clients s ! j)) = []
          then Some (x\<lparr>et_ep := hang_up j s, et_gone := (et_gone x)[j := True],
            et_eof := et_eof x @ [(j, c_str (cjunk j))]\<rparr>)
          else None)"

definition trouble_init :: "nat list \<Rightarrow> ep_trouble" where
  "trouble_init pids = \<lparr>et_ep = ep_init pids, et_gone = replicate (length pids) False, et_eof = []\<rparr>"

section \<open>The invariant\<close>
















section \<open>What survives\<close>




text \<open>A client whose server has ended takes the end of file for its answer and prints its array.\<close>

lemma stopped_server_answers_junk:
  "\<exists>x. run_schedule (trouble_exec pid junk cjunk)
      [Fair (Client_moves 0), Fair (Client_moves 0), Server_stops, Client_eof 0] (trouble_init [p]) = Some x \<and>
    et_eof x = [(0, c_str (cjunk 0))]"
  by (simp add: trouble_exec_def fair_exec_def live_def hang_up_def trouble_init_def ep_init_def new_ep_client_def
      ep_exec_def ep_client_exec_def put_ep_def arrives_def become_ready_def Let_def)

end
