(* ===== verification/Socket_Starts.thy ===== *)
theory Socket_Starts
  imports Startups Sockets Epoll_Server
begin

text \<open>
  The socket programs of sem_06/lab_01 and sem_06/lab_02 from the first call to the loop, and from the
  loop to the end: every call may be refused, and the names of sockets and the port outlive a program
  that does not give them back.
\<close>

section \<open>Names, the port, and a process\<close>

datatype sock_call = C_socket | C_bind | C_listen | C_epoll_create | C_epoll_ctl | C_epoll_wait | C_accept
  | C_fcntl | C_read | C_write | C_connect | C_sendto | C_recvfrom | C_recv | C_close | C_unlink

datatype signal = SIGINT | SIGTERM | SIGTSTP

text \<open>
  \<open>sw_names\<close>, \<open>sw_port\<close>: the process whose socket a name of the file system, or the port 8080, leads to.
  The rest belongs to the process: its socket and whether it is bound, its epoll instance, its handlers, what it has printed and
  what it has reported with \<open>perror\<close>.
\<close>

record sock_world =
  sw_names :: "string \<Rightarrow> nat option"
  sw_port :: "nat option"
  sw_open :: bool
  sw_bound :: bool
  sw_listening :: bool
  sw_epoll :: bool
  sw_registered :: bool
  sw_handlers :: "signal list"
  sw_out :: string
  sw_err :: "string list"

definition say :: "string \<Rightarrow> sock_world \<Rightarrow> sock_world" where
  "say d w = w\<lparr>sw_out := sw_out w @ d\<rparr>"

definition complain :: "string \<Rightarrow> sock_world \<Rightarrow> sock_world" where
  "complain d w = w\<lparr>sw_err := sw_err w @ [d]\<rparr>"

definition open_socket :: "sock_world \<Rightarrow> sock_world" where
  "open_socket w = w\<lparr>sw_open := True\<rparr>"

text \<open>A process begins without any of these.\<close>

definition starting :: "sock_world \<Rightarrow> sock_world" where
  "starting w = w\<lparr>sw_open := False, sw_bound := False, sw_listening := False, sw_epoll := False, sw_registered := False,
     sw_handlers := [], sw_out := [], sw_err := []\<rparr>"

text \<open>\<open>bind\<close> to a name: it is refused when the name is in use.\<close>

definition bind_name :: "(sock_call \<Rightarrow> bool) \<Rightarrow> nat \<Rightarrow> string \<Rightarrow> (sock_world \<Rightarrow> ending \<times> sock_world) \<Rightarrow> sock_world step" where
  "bind_name ok i name on_failure w =
     (if ok C_bind \<and> sw_names w name = None then Inr (w\<lparr>sw_names := (sw_names w)(name \<mapsto> i)\<rparr>)
      else Inl (on_failure w))"

definition unlink :: "string \<Rightarrow> sock_world \<Rightarrow> sock_world" where
  "unlink name w = w\<lparr>sw_names := (sw_names w)(name := None)\<rparr>"

section \<open>The printing server and its client (lab\_01/task\_02)\<close>

definition soc_02 :: string where
  "soc_02 = ''mysocket.soc''"

definition del_socket_02 :: "(sock_call \<Rightarrow> bool) \<Rightarrow> sock_world \<Rightarrow> sock_world" where
  "del_socket_02 ok w =
     (if \<not> ok C_close then say ''close() failed'' w
      else
        (let w = w\<lparr>sw_open := False\<rparr> in
         if \<not> ok C_unlink \<or> sw_names w soc_02 = None then say ''unlink() returned -1'' w
         else unlink soc_02 w))"

definition server_02_steps :: "(sock_call \<Rightarrow> bool) \<Rightarrow> nat \<Rightarrow> sock_world step list" where
  "server_02_steps ok i =
     [call (ok C_socket) open_socket (Code 1) (say ''socket() failed''),
      bind_name ok i soc_02 (\<lambda>w. (Code 1, del_socket_02 ok (say (''bind() failed'' @ nl) w))),
      act (\<lambda>w. w\<lparr>sw_handlers := [SIGTSTP]\<rparr>),
      act (say (''Waiting for messages.'' @ nl @ ''Press Ctrl + Z to stop...'' @ nl))]"

definition sigint_handler :: "(sock_call \<Rightarrow> bool) \<Rightarrow> sock_world \<Rightarrow> ending \<times> sock_world" where
  "sigint_handler ok w = (Code 0, del_socket_02 ok (say (nl @ ''Catch SIGTSTP'' @ nl) w))"

definition server_02_recv_fails :: "(sock_call \<Rightarrow> bool) \<Rightarrow> sock_world \<Rightarrow> ending \<times> sock_world" where
  "server_02_recv_fails ok w = (Code 1, say ''recvfrom() failed'' (del_socket_02 ok w))"

text \<open>The client: one turn of its loop, in which \<open>sendto\<close> needs the name.\<close>

definition client_02_start :: "(sock_call \<Rightarrow> bool) \<Rightarrow> sock_world step list" where
  "client_02_start ok = [call (ok C_socket) open_socket (Code 1) (say ''socket() failed'')]"

definition client_02_turn :: "(sock_call \<Rightarrow> bool) \<Rightarrow> nat \<Rightarrow> sock_world step" where
  "client_02_turn ok pid w =
     call (ok C_sendto \<and> sw_names w soc_02 \<noteq> None) (say (''Client sent: '' @ client_02_message pid @ nl)) (Code 1)
       (\<lambda>w. (say ''sendto() failed'' w)\<lparr>sw_open := False\<rparr>) w"

section \<open>The answering server and its client (lab\_01/task\_03)\<close>

definition soc_03 :: string where
  "soc_03 = ''socket.soc''"

definition close_socket :: "(sock_call \<Rightarrow> bool) \<Rightarrow> sock_world \<Rightarrow> sock_world" where
  "close_socket ok w =
     (let w = (if ok C_close then w\<lparr>sw_open := False\<rparr> else w) in
      if ok C_unlink then unlink soc_03 w else w)"

definition server_03_steps :: "(sock_call \<Rightarrow> bool) \<Rightarrow> nat \<Rightarrow> sock_world step list" where
  "server_03_steps ok i =
     [call (ok C_socket) open_socket (Code 1) (complain ''socket failed''),
      bind_name ok i soc_03 (\<lambda>w. (Code 1, complain ''bind failed'' w)),
      act (say (''Waiting for messages.'' @ nl @ ''Press Ctrl + Z to stop...'' @ nl))]"

text \<open>A refused \<open>recvfrom\<close> or \<open>sendto\<close> of the loop.\<close>

definition server_03_fails :: "(sock_call \<Rightarrow> bool) \<Rightarrow> sock_call \<Rightarrow> sock_world \<Rightarrow> ending \<times> sock_world" where
  "server_03_fails ok c w =
     (Code 1, close_socket ok (complain (if c = C_recvfrom then ''recvfrom failed'' else ''sendto failed'') w))"

text \<open>\<open>main\<close> of the client. \<open>recv\<close> is not checked; the answer is \<open>d\<close>.\<close>

definition client_03_steps :: "(sock_call \<Rightarrow> bool) \<Rightarrow> nat \<Rightarrow> string \<Rightarrow> sock_world step list" where
  "client_03_steps ok pid d =
     [call (ok C_socket) open_socket (Code 1) (complain ''create socket failed''),
      bind_name ok pid (show_nat pid) (\<lambda>w. (Code 1, complain ''bind failed'' w)),
      (\<lambda>w. call (ok C_sendto \<and> sw_names w soc_03 \<noteq> None) (\<lambda>w. w) (Code 1) (complain ''sendto failed'') w),
      act (say (''client sent: '' @ show_nat pid @ nl)),
      act (\<lambda>w. if ok C_recv \<and> d \<noteq> [] then say (''client recieved: '' @ d @ nl) w else w),
      (\<lambda>w. Inl (Code 0, w\<lparr>sw_open := False\<rparr>))]"

section \<open>The epoll server and its client (lab\_02)\<close>

text \<open>\<open>close(listen_sock)\<close>, which gives up the port when the socket was bound to it.\<close>

definition close_listen :: "sock_world \<Rightarrow> sock_world" where
  "close_listen w =
     w\<lparr>sw_open := False, sw_bound := False, sw_listening := False,
       sw_port := (if sw_bound w then None else sw_port w)\<rparr>"

definition fails_with :: "string \<Rightarrow> sock_world \<Rightarrow> sock_world" where
  "fails_with d w = close_listen (complain d w)"

definition ep_bind :: "(sock_call \<Rightarrow> bool) \<Rightarrow> nat \<Rightarrow> sock_world step" where
  "ep_bind ok i w =
     call (ok C_bind \<and> sw_port w = None) (\<lambda>w. w\<lparr>sw_port := Some i, sw_bound := True\<rparr>) (Code 1) (fails_with ''bind'') w"

definition ep_steps :: "(sock_call \<Rightarrow> bool) \<Rightarrow> nat \<Rightarrow> sock_world step list" where
  "ep_steps ok i =
     [call (ok C_socket) open_socket (Code 1) (complain ''socket''),
      ep_bind ok i,
      call (ok C_listen) (\<lambda>w. w\<lparr>sw_listening := True\<rparr>) (Code 1) (fails_with ''listen''),
      act (\<lambda>w. w\<lparr>sw_handlers := [SIGINT, SIGTERM, SIGTSTP]\<rparr>),
      act (say (''Server is working.'' @ nl @ ''(Press Ctrl+C to stop)'' @ nl)),
      call (ok C_epoll_create) (\<lambda>w. w\<lparr>sw_epoll := True\<rparr>) (Code 1) (fails_with ''epoll_create1''),
      call (ok C_epoll_ctl) (\<lambda>w. w\<lparr>sw_registered := True\<rparr>) (Code 1) (fails_with ''epoll_ctl: listen_sock'')]"

text \<open>The signal handler, and a refused call in the loop.\<close>

definition server_shutdown :: "sock_world \<Rightarrow> ending \<times> sock_world" where
  "server_shutdown w = (Code 0, close_listen (say (nl @ ''Shutdowning server...'' @ nl) w))"

definition loop_complaint :: "sock_call \<Rightarrow> string" where
  "loop_complaint c =
     (case c of C_epoll_wait \<Rightarrow> ''epoll_wait'' | C_accept \<Rightarrow> ''accept'' | C_fcntl \<Rightarrow> ''fcntl''
      | C_epoll_ctl \<Rightarrow> ''epoll_ctl: conn_sock'' | C_read \<Rightarrow> ''read'' | _ \<Rightarrow> ''write'')"

definition ep_loop_fails :: "sock_call \<Rightarrow> sock_world \<Rightarrow> ending \<times> sock_world" where
  "ep_loop_fails c w = (Code 1, fails_with (loop_complaint c) w)"

text \<open>The client up to the answer \<open>d\<close> in its array.\<close>

definition ep_client_steps :: "(sock_call \<Rightarrow> bool) \<Rightarrow> nat \<Rightarrow> string \<Rightarrow> sock_world step list" where
  "ep_client_steps ok pid d =
     [call (ok C_socket) open_socket (Code 1) (complain ''socket''),
      (\<lambda>w. call (ok C_connect \<and> sw_port w \<noteq> None) (\<lambda>w. w) (Code 1) (\<lambda>w. (complain ''connect'' w)\<lparr>sw_open := False\<rparr>) w),
      call (ok C_write) (say (''Client send:    '' @ show_nat pid @ nl)) (Code 1) (\<lambda>w. (complain ''write'' w)\<lparr>sw_open := False\<rparr>),
      call (ok C_read) (say (''Client receive: '' @ d @ '' '' @ nl)) (Code 1) (\<lambda>w. (complain ''read'' w)\<lparr>sw_open := False\<rparr>),
      (\<lambda>w. Inl (Code 0, w\<lparr>sw_open := False\<rparr>))]"

section \<open>What is given back\<close>

lemmas sock_defs = say_def complain_def open_socket_def starting_def bind_name_def unlink_def del_socket_02_def
  server_02_steps_def sigint_handler_def server_02_recv_fails_def client_02_start_def client_02_turn_def
  close_socket_def server_03_steps_def server_03_fails_def client_03_steps_def close_listen_def fails_with_def
  ep_bind_def ep_steps_def server_shutdown_def ep_loop_fails_def ep_client_steps_def call_def act_def Let_def

text \<open>The epoll server gives the port back however it ends, and takes it from nobody: a start that
  fails at any call closes its socket, returns 1 and leaves the port as it was; one that succeeds owns
  the port, has its three handlers and listens with its epoll instance, and from there both a refused
  call in the loop and each of the signals close the socket and free the port.\<close>

theorem epoll_port_given_back:
  "case run_steps (ep_steps ok i) (starting w) of
     Inl (e, w') \<Rightarrow> e = Code 1 \<and> \<not> sw_open w' \<and> sw_port w' = sw_port w \<and> length (sw_err w') = 1
   | Inr w' \<Rightarrow> sw_port w = None \<and> sw_port w' = Some i \<and> sw_open w' \<and> sw_listening w' \<and> sw_epoll w' \<and> sw_registered w' \<and>
       set (sw_handlers w') = {SIGINT, SIGTERM, SIGTSTP} \<and> sw_err w' = [] \<and>
       (case ep_loop_fails c w' of (e, v) \<Rightarrow> e = Code 1 \<and> sw_port v = None \<and> \<not> sw_open v) \<and>
       (case server_shutdown w' of (e, v) \<Rightarrow> e = Code 0 \<and> sw_port v = None \<and> \<not> sw_open v)"
  by (simp add: sock_defs)

text \<open>The server of task_02 that cannot bind removes the name of the one that runs, unless its own
  \<open>close\<close> or \<open>unlink\<close> is refused.\<close>

lemma server_02_name:
  "case run_steps (server_02_steps ok i) (starting w) of
     Inl (e, w') \<Rightarrow> e = Code 1 \<and>
       sw_names w' = (if ok C_socket \<and> ok C_close \<and> ok C_unlink then (sw_names w)(soc_02 := None) else sw_names w)
   | Inr w' \<Rightarrow> sw_names w soc_02 = None \<and> sw_names w' = (sw_names w)(soc_02 \<mapsto> i) \<and> sw_handlers w' = [SIGTSTP] \<and>
       (ok C_close \<and> ok C_unlink \<longrightarrow>
          (case sigint_handler ok w' of (e, v) \<Rightarrow> e = Code 0 \<and> sw_names v = sw_names w \<and> \<not> sw_open v) \<and>
          (case server_02_recv_fails ok w' of (e, v) \<Rightarrow> e = Code 1 \<and> sw_names v = sw_names w \<and> \<not> sw_open v))"
  by (auto simp: sock_defs fun_eq_iff)

text \<open>With all calls granted this is \<open>server_02_start\<close> of Sockets.\<close>

lemma server_02_refines:
  assumes "\<And>c. ok c"
  shows "server_02_start i \<lparr>led_to = sw_names w soc_02\<rparr> =
    (case run_steps (server_02_steps ok i) (starting w) of
       Inl (e, w') \<Rightarrow> (Exit_failure, \<lparr>led_to = sw_names w' soc_02\<rparr>)
     | Inr w' \<Rightarrow> (Serving, \<lparr>led_to = sw_names w' soc_02\<rparr>))"
  using assms by (simp add: sock_defs server_02_start_def del_socket_def)

text \<open>The sockets of task_03 are not all given back. The server frees its name when a call of its
  loop fails; but a client that got past its bind leaves the name that is its pid, whatever happens
  then, and the next client that gets the same pid returns 1 and has sent nothing.\<close>

lemma client_name_stays:
  assumes "run_steps (client_03_steps ok pid d) (starting w) = Inl (e, w')" "sw_err w' \<noteq> [''create socket failed'']"
    and "sw_err w' \<noteq> [''bind failed'']"
  shows "sw_names w' (show_nat pid) = Some pid \<and>
    (\<forall>ok' d'. case run_steps (client_03_steps ok' pid d') (starting w') of
       Inl (e2, v) \<Rightarrow> e2 = Code 1 \<and> sw_names v = sw_names w' \<and> sw_out v = []
     | Inr v \<Rightarrow> False)"
proof -
  have "sw_names w' (show_nat pid) = Some pid"
    using assms by (auto simp: sock_defs split: if_splits)
  then show ?thesis by (auto simp: sock_defs)
qed

end
