(* ===== verification/Module_System.thy ===== *)
theory Module_System
  imports Traffic_Properties
begin

text \<open>
  The traffic module as the kernel and its users see it (course_work/code/core_module.c): the three
  devices with the operations of their \<open>file_operations\<close>, stubs included, and the hook, called in any
  order. The specification keeps the packets of the window, the log of classified slices, the place of
  the reader and whether the module is hidden; the module answers every call as it does.
\<close>

section \<open>The interface\<close>

text \<open>A machine and its specification answer alike and stay related.\<close>

locale simulation =
  fixes exec :: "'c \<Rightarrow> 's \<Rightarrow> ('r \<times> 's) option"
    and spec :: "'c \<Rightarrow> 'a \<Rightarrow> 'r \<times> 'a"
    and related :: "'a \<Rightarrow> 's \<Rightarrow> bool"
  assumes simulates: "related a s \<Longrightarrow> \<exists>t. exec c s = Some (fst (spec c a), t) \<and> related (snd (spec c a)) t"

text \<open>A sequence of calls with the answers, for both.\<close>

fun run_calls :: "('c \<Rightarrow> 's \<Rightarrow> ('r \<times> 's) option) \<Rightarrow> 'c list \<Rightarrow> 's \<Rightarrow> ('r list \<times> 's) option" where
  "run_calls exec [] s = Some ([], s)"
| "run_calls exec (c # cs) s =
     (case exec c s of
        None \<Rightarrow> None
      | Some (r, t) \<Rightarrow> map_option (\<lambda>(rs, u). (r # rs, u)) (run_calls exec cs t))"

fun spec_calls :: "('c \<Rightarrow> 'a \<Rightarrow> 'r \<times> 'a) \<Rightarrow> 'c list \<Rightarrow> 'a \<Rightarrow> 'r list \<times> 'a" where
  "spec_calls spec [] a = ([], a)"
| "spec_calls spec (c # cs) a =
     (case spec c a of (r, b) \<Rightarrow> (case spec_calls spec cs b of (rs, z) \<Rightarrow> (r # rs, z)))"

context simulation
begin

lemma simulates_all:
  "related a s \<Longrightarrow> \<exists>t. run_calls exec cs s = Some (fst (spec_calls spec cs a), t) \<and> related (snd (spec_calls spec cs a)) t"
proof (induction cs arbitrary: a s)
  case Nil
  then show ?case by simp
next
  case (Cons c cs)
  obtain t where t: "exec c s = Some (fst (spec c a), t)" "related (snd (spec c a)) t"
    using simulates [OF Cons.prems] by blast
  from Cons.IH [OF t(2)] t(1) show ?case by (auto split: prod.splits)
qed

lemma same_answers: "related a s \<Longrightarrow> map_option fst (run_calls exec cs s) = Some (fst (spec_calls spec cs a))"
  using simulates_all [of a s cs] by auto

end

section \<open>The module\<close>

datatype device = L2_data | Stats | Ctrl

datatype module_call =
    Packet clock "sk_buff option"
  | Open_dev device
  | Release_dev device
  | Read_dev device nat nat
  | Write_dev device nat nat u32

datatype reply = Verdict nat | Status nat | Data nat "l2_data_slice option" | Statistics nat "module_stats option"

record ('m, 'l) module_state =
  md_core :: core
  md_visibility :: "('m, 'l) visibility"

text \<open>The stubs, and the tables \<open>l2_data_fops\<close>, \<open>stats_fops\<close> and \<open>ctrl_fops\<close>, one operation at a time.\<close>

definition open_stub :: "device \<Rightarrow> nat" where
  "open_stub d = 0"

definition release_stub :: "device \<Rightarrow> nat" where
  "release_stub d = 0"

definition read_stub :: "nat \<Rightarrow> nat" where
  "read_stub cnt = 0"

definition write_stub :: "nat \<Rightarrow> nat" where
  "write_stub cnt = 0"

definition dev_read :: "device \<Rightarrow> nat \<Rightarrow> nat \<Rightarrow> core \<Rightarrow> (reply \<times> core) option" where
  "dev_read d cnt left s =
     (case d of
        L2_data \<Rightarrow>
          map_option (\<lambda>(n, x, t). (Data n x, s\<lparr>second_tab := t\<rparr>)) (read_l2_data cnt left (second_tab s))
      | Stats \<Rightarrow> map_option (\<lambda>(n, x). (Statistics n x, s)) (read_stats cnt left (second_tab s))
      | Ctrl \<Rightarrow> Some (Status (read_stub cnt), s))"

definition dev_write ::
    "('m, 'l) list_ops \<Rightarrow> 'm \<Rightarrow> device \<Rightarrow> nat \<Rightarrow> nat \<Rightarrow> u32 \<Rightarrow> ('m, 'l) visibility
     \<Rightarrow> (reply \<times> ('m, 'l) visibility) option" where
  "dev_write ops this d cnt left cmd v =
     (case d of
        Ctrl \<Rightarrow> map_option (\<lambda>(n, w). (Status n, w)) (write_command ops this cnt left cmd v)
      | _ \<Rightarrow> Some (Status (write_stub cnt), v))"

definition module_exec ::
    "('m, 'l) list_ops \<Rightarrow> 'm \<Rightarrow> module_call \<Rightarrow> ('m, 'l) module_state \<Rightarrow> (reply \<times> ('m, 'l) module_state) option" where
  "module_exec ops this c s =
     (case c of
        Packet k skb \<Rightarrow> map_option (\<lambda>(n, t). (Verdict n, s\<lparr>md_core := t\<rparr>)) (catch_traffic k skb (md_core s))
      | Open_dev d \<Rightarrow> Some (Status (open_stub d), s)
      | Release_dev d \<Rightarrow> Some (Status (release_stub d), s)
      | Read_dev d cnt left \<Rightarrow> map_option (\<lambda>(r, t). (r, s\<lparr>md_core := t\<rparr>)) (dev_read d cnt left (md_core s))
      | Write_dev d cnt left cmd \<Rightarrow>
          map_option (\<lambda>(r, w). (r, s\<lparr>md_visibility := w\<rparr>)) (dev_write ops this d cnt left cmd (md_visibility s)))"

section \<open>Its specification\<close>

record module_spec =
  mp_traffic :: spec_state
  mp_cursor :: nat
  mp_hidden :: bool

definition mp_start :: module_spec where
  "mp_start = \<lparr>mp_traffic = spec_start, mp_cursor = 0, mp_hidden = False\<rparr>"

text \<open>What the devices show: the last 512 classified slices.\<close>

definition shown_history :: "module_spec \<Rightarrow> second_layer_schema list" where
  "shown_history a = lastn 512 (sp_log (mp_traffic a))"

definition spec_packet :: "clock \<Rightarrow> sk_buff option \<Rightarrow> module_spec \<Rightarrow> module_spec" where
  "spec_packet k skb a =
     (case Option.bind skb (\<lambda>b. map_option (\<lambda>h. packet_of h (skb_transport_syn b)) (skb_network_header b)) of
        None \<Rightarrow> a
      | Some p \<Rightarrow> a\<lparr>mp_traffic := spec_step k p (mp_traffic a)\<rparr>)"

text \<open>A reader gets the slice at its place and moves on, and is back at the start behind the newest one.\<close>

definition spec_read_data :: "nat \<Rightarrow> nat \<Rightarrow> module_spec \<Rightarrow> reply \<times> module_spec" where
  "spec_read_data cnt left a =
     (let h = shown_history a; i = mp_cursor a in
      if cnt \<noteq> 56 then (Data 0 None, a)
      else if length h \<le> i then (Data 0 None, a\<lparr>mp_cursor := 0\<rparr>)
      else if left \<noteq> 0 then (Data 0 None, a)
      else (Data 56 (Some (slice_view (h ! i))), a\<lparr>mp_cursor := i + 1\<rparr>))"

definition spec_statistics :: "second_layer_schema list \<Rightarrow> module_stats" where
  "spec_statistics h =
     (let v = fold scan_row h \<lparr>cs_count = 0, cs_first = 0, cs_last = 0\<rparr> in \<lparr>
       ms_history_length = 512,
       ms_current_history_length = word_of_nat (length h),
       ms_current_periud_ns = (if h = [] then 0 else sl_from_time (last h) - sl_from_time (hd h)),
       ms_crit_behaviour_count = cs_count v,
       ms_first_crit_behaviour_ns = cs_first v,
       ms_last_crit_behaviour_ns = cs_last v\<rparr>)"

definition spec_read_stats :: "nat \<Rightarrow> nat \<Rightarrow> module_spec \<Rightarrow> reply" where
  "spec_read_stats cnt left a =
     (if cnt \<noteq> 40 \<or> left \<noteq> 0 then Statistics 0 None
      else Statistics 40 (Some (spec_statistics (shown_history a))))"

definition spec_command :: "nat \<Rightarrow> nat \<Rightarrow> u32 \<Rightarrow> module_spec \<Rightarrow> module_spec" where
  "spec_command cnt left cmd a =
     (if cnt \<noteq> 4 \<or> left \<noteq> 0 then a
      else if cmd = HIDE then a\<lparr>mp_hidden := True\<rparr>
      else if cmd = UNHIDE then a\<lparr>mp_hidden := False\<rparr>
      else a)"

definition module_spec_exec :: "module_call \<Rightarrow> module_spec \<Rightarrow> reply \<times> module_spec" where
  "module_spec_exec c a =
     (case c of
        Packet k skb \<Rightarrow> (Verdict NF_ACCEPT, spec_packet k skb a)
      | Open_dev d \<Rightarrow> (Status 0, a)
      | Release_dev d \<Rightarrow> (Status 0, a)
      | Read_dev d cnt left \<Rightarrow>
          (case d of L2_data \<Rightarrow> spec_read_data cnt left a | Stats \<Rightarrow> (spec_read_stats cnt left a, a) | Ctrl \<Rightarrow> (Status 0, a))
      | Write_dev d cnt left cmd \<Rightarrow> (Status 0, if d = Ctrl then spec_command cnt left cmd a else a))"

section \<open>The simulation\<close>

text \<open>\<open>xs @ p # this # ys\<close> is the kernel's list of modules when the module is loaded.\<close>

definition module_related ::
    "('m, 'l) list_ops \<Rightarrow> ('l \<Rightarrow> 'm list) \<Rightarrow> 'm \<Rightarrow> 'm list \<Rightarrow> 'm \<Rightarrow> 'm list \<Rightarrow> module_spec \<Rightarrow> ('m, 'l) module_state \<Rightarrow> bool" where
  "module_related ops ring this xs p ys a s \<longleftrightarrow>
     list_laws ops ring \<and> refines (mp_traffic a) (md_core s) \<and>
     second_layer_table_read_index (second_tab (md_core s)) = mp_cursor a \<and>
     visible_at ring this xs p ys (md_visibility s) \<and> (flag_hidden (md_visibility s) \<noteq> 0 \<longleftrightarrow> mp_hidden a)"

lemma related_history:
  assumes "module_related ops ring this xs p ys a s"
  shows "wf_second (second_tab (md_core s))" "history (second_tab (md_core s)) = shown_history a"
  using assms by (simp_all add: module_related_def refines_def shown_history_def SECOND_LAYER_TABLE_LENGTH_def)

lemma read_stats_answers:
  assumes "wf_second s"
  shows "read_stats cnt left s =
    Some (if cnt \<noteq> 40 \<or> left \<noteq> 0 then (0, None) else (40, Some (spec_statistics (history s))))"
proof -
  let ?n = "second_layer_table_next_index s" and ?t = "second_layer_table s"
  have n: "?n \<le> length ?t" "length (history s) = ?n"
    using assms length_history by (auto simp: wf_second_def)
  have run: "fold_prefix scan_row ?n ?t z = Some (fold scan_row (history s) z)" for z
    using n by (simp add: fold_prefix_some history_def)
  have "history s = [] \<longleftrightarrow> ?n = 0" using n by auto
  with n run history_ends [OF assms] show ?thesis
    by (simp add: read_stats_def spec_statistics_def Let_def SECOND_LAYER_TABLE_LENGTH_def sizeof_module_stats_def)
qed

lemma packet_simulates:
  assumes rel: "module_related ops ring this xs p ys a s"
  shows "\<exists>t. module_exec ops this (Packet k skb) s = Some (Verdict NF_ACCEPT, t) \<and>
    module_related ops ring this xs p ys (spec_packet k skb a) t"
proof (cases "Option.bind skb (\<lambda>b. map_option (\<lambda>h. packet_of h (skb_transport_syn b)) (skb_network_header b))")
  case None
  then have "catch_traffic k skb (md_core s) = Some (NF_ACCEPT, md_core s)"
    by (auto simp: catch_traffic_def split: option.splits)
  then show ?thesis using rel None by (simp add: module_exec_def spec_packet_def)
next
  case (Some q)
  obtain t where t: "add_packet_info k q (md_core s) = Some t" "refines (spec_step k q (mp_traffic a)) t"
    "second_layer_table_read_index (second_tab t) = second_layer_table_read_index (second_tab (md_core s))"
    using rel add_packet_info_refines [of "mp_traffic a" "md_core s" k q] by (auto simp: module_related_def)
  have "catch_traffic k skb (md_core s) = Some (NF_ACCEPT, t)"
    using Some t(1) by (auto simp: catch_traffic_def split: option.splits bind_splits)
  then show ?thesis using rel t Some by (simp add: module_exec_def spec_packet_def module_related_def)
qed

lemma data_simulates:
  assumes rel: "module_related ops ring this xs p ys a s"
  shows "\<exists>t. module_exec ops this (Read_dev L2_data cnt left) s = Some (fst (spec_read_data cnt left a), t) \<and>
    module_related ops ring this xs p ys (snd (spec_read_data cnt left a)) t"
proof -
  let ?s = "second_tab (md_core s)"
  note h = related_history [OF rel]
  have i: "second_layer_table_read_index ?s = mp_cursor a" using rel by (simp add: module_related_def)
  have n: "second_layer_table_next_index ?s = length (shown_history a)" using length_history [OF h(1)] h(2) by simp
  have row: "cell (second_layer_table ?s) (mp_cursor a) = Some (shown_history a ! mp_cursor a)"
    if "mp_cursor a < length (shown_history a)"
    using history_cell [OF h(1)] h(2) that by simp
  show ?thesis
    using rel i n row
    by (auto simp: module_exec_def dev_read_def read_l2_data_def spec_read_data_def sizeof_l2_data_slice_def Let_def
        module_related_def refines_def wf_second_def history_def)
qed

lemma command_simulates:
  assumes rel: "module_related ops ring this xs p ys a s"
  shows "\<exists>t. module_exec ops this (Write_dev Ctrl cnt left cmd) s = Some (Status 0, t) \<and>
    module_related ops ring this xs p ys (spec_command cnt left cmd a) t"
proof (cases "cnt = 4 \<and> left = 0")
  case True
  have laws: "list_laws ops ring" "visible_at ring this xs p ys (md_visibility s)"
    using rel by (simp_all add: module_related_def)
  obtain w where "write_command ops this sizeof_command 0 cmd (md_visibility s) = Some (0, w)"
    "visible_at ring this xs p ys w"
    "flag_hidden w \<noteq> 0 \<longleftrightarrow> (if cmd = HIDE then True else if cmd = UNHIDE then False else flag_hidden (md_visibility s) \<noteq> 0)"
    using write_command_step [OF laws, of cmd] by blast
  then show ?thesis
    using True rel
    by (auto simp: module_exec_def dev_write_def spec_command_def module_related_def sizeof_command_def)
next
  case False
  then have "write_command ops this cnt left cmd (md_visibility s) = Some (0, md_visibility s)"
    by (auto simp: write_command_def sizeof_command_def)
  then show ?thesis using rel False by (simp add: module_exec_def dev_write_def spec_command_def)
qed

interpretation traffic_module: simulation "module_exec ops this" module_spec_exec "module_related ops ring this xs p ys"
  for ops :: "('m, 'l) list_ops" and ring this xs p ys
proof
  fix a and s :: "('m, 'l) module_state" and c
  assume rel: "module_related ops ring this xs p ys a s"
  show "\<exists>t. module_exec ops this c s = Some (fst (module_spec_exec c a), t) \<and>
      module_related ops ring this xs p ys (snd (module_spec_exec c a)) t"
  proof (cases c)
    case (Packet k skb)
    with packet_simulates [OF rel] show ?thesis by (simp add: module_spec_exec_def)
  next
    case (Read_dev d cnt left)
    show ?thesis
    proof (cases d)
      case L2_data
      with data_simulates [OF rel] Read_dev show ?thesis by (simp add: module_spec_exec_def)
    next
      case Stats
      with Read_dev rel read_stats_answers [OF related_history(1) [OF rel], of cnt left] related_history(2) [OF rel]
      show ?thesis by (auto simp: module_spec_exec_def module_exec_def dev_read_def spec_read_stats_def)
    next
      case Ctrl
      with Read_dev rel show ?thesis by (simp add: module_spec_exec_def module_exec_def dev_read_def read_stub_def)
    qed
  next
    case (Write_dev d cnt left cmd)
    with command_simulates [OF rel] rel show ?thesis
      by (cases d) (simp_all add: module_spec_exec_def module_exec_def dev_write_def write_stub_def)
  qed (use rel in \<open>simp_all add: module_spec_exec_def module_exec_def open_stub_def release_stub_def\<close>)
qed

section \<open>From loading on\<close>

definition module_loaded :: "('m, 'l) visibility \<Rightarrow> ('m, 'l) module_state" where
  "module_loaded v = \<lparr>md_core = core_start, md_visibility = v\<rparr>"

lemma module_related_start:
  assumes "list_laws ops ring" "flag_hidden v = 0" "ring (module_list v) = xs @ p # this # ys"
    "distinct (xs @ p # this # ys)"
  shows "module_related ops ring this xs p ys mp_start (module_loaded v)"
  using assms refines_start
  by (simp add: module_related_def mp_start_def module_loaded_def visible_at_def)
    (simp add: core_start_def second_layer_start_def)

text \<open>C5: The module as a whole: from its loading on, any sequence of calls, packets that reach the hook
  and opens, reads, writes and releases of the three devices with any sizes and failing copies, is
  answered exactly as the specification answers it, without a trap; afterwards the tables are those of
  the packets alone, and the kernel's list of modules has lost the module's own entry exactly while it
  is hidden.\<close>

theorem module_answers:
  assumes "list_laws ops ring" "flag_hidden v = 0" "ring (module_list v) = xs @ p # this # ys"
    "distinct (xs @ p # this # ys)"
  shows "case spec_calls module_spec_exec cs mp_start of
    (answers, a) \<Rightarrow> (\<exists>s. run_calls (module_exec ops this) cs (module_loaded v) = Some (answers, s) \<and>
      refines (mp_traffic a) (md_core s) \<and>
      ring (module_list (md_visibility s)) = (if mp_hidden a then xs @ p # ys else xs @ p # this # ys))"
proof -
  obtain s where s: "run_calls (module_exec ops this) cs (module_loaded v) = Some (fst (spec_calls module_spec_exec cs mp_start), s)"
    "module_related ops ring this xs p ys (snd (spec_calls module_spec_exec cs mp_start)) s"
    using traffic_module.simulates_all [OF module_related_start [OF assms], of cs] by blast
  then show ?thesis
    by (auto simp: module_related_def visible_at_def split: prod.splits)
qed

text \<open>Two packets in two windows, the reader, and a hide.\<close>

definition some_calls :: "module_call list" where
  "some_calls = [
     Packet \<lparr>ck_ns_test = 20000000000, ck_seconds = 20, ck_ns_reset = 20000000001\<rparr>
       (Some \<lparr>skb_network_header = Some \<lparr>ip_saddr = 1, ip_tot_len = 60, ip_protocol = 6\<rparr>, skb_transport_syn = True\<rparr>),
     Packet \<lparr>ck_ns_test = 40000000000, ck_seconds = 40, ck_ns_reset = 40000000001\<rparr>
       (Some \<lparr>skb_network_header = Some \<lparr>ip_saddr = 2, ip_tot_len = 40, ip_protocol = 17\<rparr>, skb_transport_syn = False\<rparr>),
     Open_dev L2_data, Read_dev L2_data 56 0, Read_dev L2_data 56 0, Release_dev L2_data, Write_dev Ctrl 4 0 HIDE]"

lemma some_calls_spec:
  "\<exists>x a. spec_calls module_spec_exec some_calls mp_start =
     ([Verdict 1, Verdict 1, Status 0, Data 56 (Some x), Data 0 None, Status 0, Status 0], a) \<and> mp_hidden a"
  by (simp add: some_calls_def module_spec_exec_def spec_packet_def mp_start_def spec_start_def spec_step_def
      spec_rotate_def dump_ns_periud_def log_slice_def Let_def word_less_nat_alt spec_read_data_def
      shown_history_def spec_command_def HIDE_def NF_ACCEPT_def)

theorem module_answers_witness:
  "\<exists>x s. run_calls (module_exec plain_ops 7) some_calls (module_loaded exposed) =
     Some ([Verdict 1, Verdict 1, Status 0, Data 56 (Some x), Data 0 None, Status 0, Status 0], s) \<and>
     module_list (md_visibility s) = [1, 2, 3]"
proof -
  obtain x a where a: "spec_calls module_spec_exec some_calls mp_start =
      ([Verdict 1, Verdict 1, Status 0, Data 56 (Some x), Data 0 None, Status 0, Status 0], a)" "mp_hidden a"
    using some_calls_spec by blast
  have "flag_hidden exposed = 0" "module_list exposed = [1] @ 2 # 7 # [3]" "distinct ([1] @ 2 # 7 # [3::nat])"
    by (simp_all add: exposed_def)
  from module_answers [OF plain_ops_laws this, of some_calls] a show ?thesis by auto
qed

end
