(* ===== verification/Myfs_Mounts.thy ===== *)
theory Myfs_Mounts
  imports Myfs
begin

text \<open>
  The file system type of sem_06/lab_05/myfs.c while the module is loaded: \<open>myfs_mount\<close> with the
  kernel's \<open>mount_nodev\<close>, unmounting with \<open>myfs_put_super\<close>, in any order, up to the unloading. What
  \<open>mount_nodev\<close> and the allocators return is an argument. The kernel does not unload a module whose file
  system is mounted.
\<close>

section \<open>Mounting and unmounting\<close>

record fs_system =
  fs_mod :: myfs
  fs_mounts :: "super_block list"
  fs_log :: "string list"

text \<open>A super block as \<open>mount_nodev\<close> hands it to \<open>myfs_fill_sb\<close>.\<close>

definition new_sb :: super_block where
  "new_sb = \<lparr>s_blocksize = 0, s_blocksize_bits = 0, s_magic = 0, s_root = None\<rparr>"

definition fs_print :: "string \<Rightarrow> fs_system \<Rightarrow> fs_system" where
  "fs_print d s = s\<lparr>fs_log := fs_log s @ [d]\<rparr>"

text \<open>\<open>got\<close>: \<open>mount_nodev\<close> gets a super block; it fails when \<open>myfs_fill_sb\<close> does.\<close>

definition myfs_mount :: "bool \<Rightarrow> inode option \<Rightarrow> nat option \<Rightarrow> bool \<Rightarrow> fs_system \<Rightarrow> fs_system option" where
  "myfs_mount got ret p rooted s =
     (if \<not> got then Some (fs_print ''+ mounting failed'' s)
      else
        (case myfs_fill_sb ret p rooted new_sb (fs_mod s) of
           None \<Rightarrow> None
         | Some (rc, sb, iputs, m) \<Rightarrow>
             (let s = s\<lparr>fs_mod := m\<rparr> in
              if rc \<noteq> 0 then Some (fs_print ''+ mounting failed'' s)
              else Some (fs_print ''+ mounted'' (s\<lparr>fs_mounts := fs_mounts s @ [sb]\<rparr>)))))"

definition myfs_put_super :: "fs_system \<Rightarrow> fs_system" where
  "myfs_put_super s = fs_print ''+ super block destroyed'' s"

text \<open>\<open>kill_anon_super\<close> of a mounted super block calls \<open>put_super\<close>.\<close>

definition unmount :: "nat \<Rightarrow> fs_system \<Rightarrow> fs_system" where
  "unmount i s =
     (if i < length (fs_mounts s)
      then myfs_put_super (s\<lparr>fs_mounts := take i (fs_mounts s) @ drop (Suc i) (fs_mounts s)\<rparr>) else s)"

datatype fs_call = Mount bool "inode option" "nat option" bool | Unmount nat

definition fs_exec :: "fs_call \<Rightarrow> fs_system \<Rightarrow> fs_system option" where
  "fs_exec c s =
     (case c of Mount got ret p rooted \<Rightarrow> myfs_mount got ret p rooted s | Unmount i \<Rightarrow> Some (unmount i s))"

definition fs_start :: fs_system where
  "fs_start = \<lparr>fs_mod = snd (myfs_init 0 True True unloaded), fs_mounts = [], fs_log = []\<rparr>"


section \<open>The sessions of the file system\<close>

text \<open>What the allocator returned to the mounts that got as far as an inode.\<close>

fun record_of :: "fs_call \<Rightarrow> nat option list" where
  "record_of (Mount True (Some n) p rooted) = [p]"
| "record_of c = []"

definition records_of :: "fs_call list \<Rightarrow> nat option list" where
  "records_of cs = concat (map record_of cs)"

definition mounted_ok :: "super_block \<Rightarrow> bool" where
  "mounted_ok sb \<longleftrightarrow> s_magic sb = MYFS_MAGIC_NUMBER \<and> s_blocksize sb = 4096 \<and> s_blocksize_bits sb = 12 \<and>
     (case s_root sb of None \<Rightarrow> False | Some r \<Rightarrow> i_ino r = 1 \<and> i_mode r = S_IFDIR_0755)"

definition printed :: "string \<Rightarrow> fs_system \<Rightarrow> nat" where
  "printed d s = count_list (fs_log s) d"

definition fs_inv :: "nat option list \<Rightarrow> fs_system \<Rightarrow> bool" where
  "fs_inv ps s \<longleftrightarrow> cache_ok ps (fs_mod s) \<and> registered (fs_mod s) \<and> list_all mounted_ok (fs_mounts s) \<and>
     printed ''+ mounted'' s = length (fs_mounts s) + printed ''+ super block destroyed'' s"

lemma fs_inv_start: "fs_inv [] fs_start"
  using cache_ok_init
  by (simp add: fs_inv_def fs_start_def printed_def) (simp add: myfs_init_def)

lemma mount_step:
  assumes "fs_inv ps s"
  shows "\<exists>t. myfs_mount got ret p rooted s = Some t \<and> fs_inv (ps @ record_of (Mount got ret p rooted)) t"
proof (cases "got \<and> ret \<noteq> None")
  case False
  then have "myfs_mount got ret p rooted s = Some (fs_print ''+ mounting failed'' s)"
    by (auto simp: myfs_mount_def myfs_fill_sb_def myfs_make_inode_def ENOMEM_def Let_def)
  moreover have "record_of (Mount got ret p rooted) = []" using False by (cases got; cases ret) auto
  ultimately show ?thesis using assms by (simp add: fs_inv_def fs_print_def printed_def)
next
  case True
  then obtain n where n: "got" "ret = Some n" by auto
  have ok: "cache_ok ps (fs_mod s)" using assms by (simp add: fs_inv_def)
  obtain m t where t: "myfs_make_inode (Some n) S_IFDIR_0755 p (fs_mod s) = Some (Some m, t)"
    "cache_ok (ps @ [p]) t" "i_ino m = 1" "i_mode m = S_IFDIR_0755" "registered t = registered (fs_mod s)"
    using make_inode_cache [OF ok] by blast
  with assms n show ?thesis
    by (cases rooted) (auto simp: myfs_mount_def myfs_fill_sb_def Let_def ENOMEM_def fs_inv_def fs_print_def
        printed_def mounted_ok_def PAGE_SIZE_def PAGE_SHIFT_def)
qed

lemma unmount_step:
  assumes "fs_inv ps s"
  shows "fs_inv ps (unmount i s)"
  using assms
  by (auto simp: fs_inv_def unmount_def myfs_put_super_def fs_print_def printed_def list_all_iff
      dest: in_set_takeD in_set_dropD)

lemma fs_run: "fs_inv ps s \<Longrightarrow> \<exists>t. run_all fs_exec cs s = Some t \<and> fs_inv (ps @ records_of cs) t"
proof (induction cs arbitrary: ps s)
  case Nil
  then show ?case by (simp add: records_of_def)
next
  case (Cons c cs)
  have "\<exists>t. fs_exec c s = Some t \<and> fs_inv (ps @ record_of c) t"
    using mount_step [OF Cons.prems] unmount_step [OF Cons.prems] by (cases c) (auto simp: fs_exec_def)
  then obtain t where t: "fs_exec c s = Some t" "fs_inv (ps @ record_of c) t" by blast
  from Cons.IH [OF t(2)] t(1) show ?case by (auto simp: records_of_def)
qed



text \<open>Unmounting gives nothing back: after 128 mounts, all unmounted, a further mount gets no record.\<close>

lemma mounts_exhaust_records:
  assumes "records_of cs = map Some as" "128 \<le> length as" "run_all fs_exec cs fs_start = Some s"
  shows "\<exists>m t. myfs_make_inode (Some n) mode p (fs_mod s) = Some (Some m, t) \<and> i_private m = None"
proof -
  have "fs_inv (records_of cs) s" using fs_run [OF fs_inv_start, of cs] assms(3) by auto
  then have "cache_ok (map Some as) (fs_mod s)" using assms(1) by (simp add: fs_inv_def)
  from make_inode_cache [OF this, of n mode p] assms(2) show ?thesis by (auto simp: MAX_CACHE_SIZE_def)
qed

end
