(* ===== verification/Spec2Isabelle.thy ===== *)
theory Spec2Isabelle
  imports Traffic_Properties Producer_Consumer Readers_Writers Win_Monitor Myfs Console_Programs File_Properties Daemon_Properties Fork_Properties Socket_Properties Epoll_Properties Traffic_Types Traffic_Smp Traffic_Readers Report_Properties Thread_Properties Module_Samples Startups Socket_Pair Socket_Failures Epoll_Failures Socket_Starts Module_System Myfs_Mounts
begin

text \<open>
  \<^bold>\<open>A verification development for BMSTU_OS.\<close> The repository holds the programs of an operating
  systems course: a Linux kernel module that watches incoming traffic with its control program
  (course_work/code), the concurrent programs of the fifth semester (sem_05/lab_04, sem_05/lab_05),
  two daemons (sem_05/lab_03, sem_06/lab_03/p_2), socket programs (sem_06/lab_01, sem_06/lab_02), tasks
  on processes and pipes (sem_05/lab_02) and on files (sem_06/lab_08), a toy file system module
  (sem_06/lab_05), and smaller user programs.

  \<^bold>\<open>The traffic module.\<close> course_work/code/core_module.c hooks every incoming packet
  (\<open>catch_traffic\<close>), keeps one row of counters for each of the first 64 sources of the current
  ten-second window (\<open>add_packet_info\<close>), at the end of a window folds the rows into one slice of a
  history of 512 (\<open>dump_first_layer_table\<close>), and compares the new slice with 130 percent of the
  average of the earlier ones (\<open>inspect_last\<close>). Three devices give the history, its statistics,
  and the hide and unhide commands to course_work/code/cli.c.
  \<^item> First_Layer: the rows (\<open>first_layer_table\<close>), the search and insertion of a packet; the
    contract \<open>window_table\<close> of Interfaces is interpreted on it (\<open>first_table\<close>).
  \<^item> Second_Layer: the slices (\<open>second_layer_table\<close>), the shift of a full table and the store;
    the contract \<open>bounded_log\<close> is interpreted on it (\<open>slice_log\<close>). The enumeration of the
    properties is an instance of \<open>linorder\<close> by its values.
  \<^item> Detector: \<open>inspect_last\<close> in the 32-bit arithmetic of the code, and its thresholds in
    unbounded arithmetic with the range in which the two agree.
  \<^item> Traffic_Core: the dump, the rotation of the window, the hook; the specification
    (\<open>spec_step\<close>: the packets of the window and an unbounded log of classified slices) and the
    simulation \<open>refines\<close>. The whole handler is again a \<open>window_table\<close> (\<open>packet_handler\<close>).
  \<^item> Module_Control: the reads of the devices, hiding in the kernel's module list, loading and
    unloading. Cli: the control program, with what it prints as strings.
  \<^item> Traffic_Properties: the properties of the traffic module. Traffic_Types: its well-formed states
    (\<open>core_typed\<close>), which every entry keeps and in which none traps, whatever the counters.
  \<^item> Module_System: the hook and the operations of the three devices, stubs included, called in any order;
    the contract \<open>simulation\<close> (a machine answers as its specification) is interpreted on it
    (\<open>traffic_module\<close>).
  \<^item> Traffic_Smp: the hook on several processors, step by step on the shared tables, which have no lock in
    the source; a step is a test, an assignment or one turn of a loop. Calls one after the other are the
    sequential model; interleaved calls always end (at most 1174 steps each) but can divide by zero, leave
    the table and lose packets, with the runs that show it. Traffic_Readers: reads of the data device and of
    the statistics between any two of these steps.

  \<^bold>\<open>The concurrent programs.\<close> A program is a state with one program counter for each process and
  a function \<open>exec i s\<close>, the next step of process \<open>i\<close>, which is \<open>None\<close> while the process is
  blocked or gone; a failing \<open>fork\<close> is the step of an extra process that stops the parent;
  \<open>sched_step\<close> (Transition_Systems) lets any process move, and
  \<open>run_schedule\<close> follows a given schedule. A shared variable is loaded and stored in separate
  steps. The locales \<open>invariant_system\<close>, \<open>deadlock_free_system\<close>, \<open>attainable_system\<close> and
  \<open>terminating_system\<close> hold what follows from an invariant, enabledness and a rank.
  \<^item> Sysv_Processes: \<open>semop\<close> on a System V semaphore set (all operations of a call or none), the
    forking, waiting and removing parent, and sums over processes.
  \<^item> Producer_Consumer (sem_05/lab_04/pc): terminating; mutual exclusion, buffer bounds, order
    of the items, result.
  \<^item> Readers_Writers (sem_05/lab_04/rw): attainable, since its readers can run for ever; exclusion,
    no lost update, result, and the starvation of the writers.
  \<^item> Win_Monitor (sem_05/lab_05): terminating, also after a failed \<open>CreateThread\<close>; its events exclude nobody, which is proved with the
    runs that show it, and lose no wake-up.

  \<^item> Fork_Tasks, Fork_Properties (sem_05/lab_02/task_01.c to task_05.c): one machine of a parent, two
    children, a pipe and a signal, with a configuration for each task; every run has at most 17 steps.
  \<^item> Daemonize, Daemon_System, Daemon_Properties: \<open>daemonize\<close> of both daemons as a function of what
    the system calls answer, with the descriptor table of Descriptors; then any number of instances
    that compete for the lock of the pid file, log signals and are killed (\<open>dm_step\<close>).
  \<^item> Sockets, Socket_Properties (sem_06/lab_01): the pair of sockets, the printing server, and the
    answering server with any number of clients (at most six steps for each). Socket_Pair: the two processes
    over the pair, every interleaving and refused calls (at most 16 steps).
  \<^item> Epoll_Server, Epoll_Properties (sem_06/lab_02): the ready list of epoll with edge-triggered
    connections, \<open>epoll_wait\<close> with any reports, and any number of clients (at most eleven steps for
    each and two more).

  \<^item> Startups: the calls before and after the concurrent part of the two programs of sem_05/lab_04, as lists
    of steps that the system grants or refuses (\<open>run_steps\<close>), and the programs as a whole (\<open>pc_ends\<close>,
    \<open>rw_ends\<close>). Socket_Starts: the same for the servers and clients of sem_06/lab_01 and sem_06/lab_02,
    with the names of sockets and the port that outlive a process. Epoll_Failures, Socket_Failures: the
    loops of the two answering servers with clients that end early and with refused calls, interleaved.

  \<^bold>\<open>Files.\<close> Descriptors: the table of descriptors, with the contract \<open>descriptor_table\<close> (the lowest
  free number is given out, and nothing else changes). Open_Files: descriptions with their offsets,
  \<open>read\<close>, \<open>write\<close>, and buffered streams. File_Tasks, File_Writes, File_Properties (sem_06/lab_08):
  the programs that read and write one file through two streams or two descriptors. File_Threads,
  Scan_Threads, Write_Race, Print_Threads, Thread_Properties: the same with two threads, \<open>main\<close> and one it
  creates; a step is one system call or one call of stdio, and all interleavings are runs of
  \<open>sched_step\<close>, with the bounds \<open>4 * n + 8\<close>, \<open>2 * n + 8\<close>, 32 and 42 on their number of steps for a file
  of \<open>n\<close> bytes.

  \<^bold>\<open>Reports and samples.\<close> Process_Reports, Report_Properties (sem_06/lab_03/get_info): the files of /proc
  are read by blocks of 1024 bytes (\<open>by_blocks\<close>), split into rows and fields (\<open>tokens\<close>) and decoded; the
  loop over the pages of a region may not end and is a \<open>partial_function\<close>. Module_Samples
  (sem_06/lab_04): the walk over the ring of tasks, also a \<open>partial_function\<close>, and three modules that the
  kernel loads and unloads.

  \<^bold>\<open>Sequential programs.\<close> C_Strings: decimal numbers and strings in arrays, with the calls that fill
  arrays and trap when they leave them. Myfs (sem_06/lab_05/myfs.c): the inode cache, loading and unloading;
  Myfs_Mounts: mounts and unmounts in any order while the module is loaded.
  Array_Tasks (sem_05/lab_02/p_1.c, p_2.c, sem_06/lab_03/p_1/main.c): the product of the odd
  elements, the spiral, and the swapped triangles. Console_Programs: the same programs from the
  characters of standard input, with the conversions of \<open>scanf\<close>, to the characters of standard output.

  \<^bold>\<open>Bounds.\<close> No fuel is used: loops are recursive functions with a measure (\<open>account_loop\<close>,
  \<open>shift_loop\<close>, \<open>show_l2_loop\<close>, \<open>for_up\<close>, \<open>for_down\<close>, \<open>by_blocks\<close>, \<open>tokens\<close>), the two loops that may not
  end (\<open>page_loop\<close>, \<open>task_loop\<close>) are partial functions that are proved to return, and runs of the
  concurrent programs are relations. A trap (a division by zero, an access outside an array, a NULL dereference, a signed
  overflow) is \<open>None\<close>, and the properties show where it cannot happen. The 64- and 32-bit
  counters of the traffic module are words; the sizes and indices are natural numbers, bounded by the
  tables.

  \<^bold>\<open>Parameters.\<close> The kernel clock, the headers of a packet, what the kernel's list operations,
  allocators, registrations and copies to user space return, what the system
  answers to the calls of a daemon, the sizes of stream buffers, the bytes an array holds before it
  is filled, the contents of the files of /proc, the entries of pagemap and the kernel's ring of tasks, are
  arguments; the laws of the list operations are the named hypothesis \<open>list_laws\<close>.

  \<^bold>\<open>Not modelled.\<close> A step of Traffic_Smp loads or stores a whole row, and a read of a device is one
  step of Traffic_Readers: what can happen between the fields of a row is not in the model.
  What the kernel does with a connection that its peer has left is only in the model as a call that may
  be refused. The bound of the backlog of the epoll server is left out.
  Sleeps and the colours of printed lines are left out.
\<close>

end
